(* ===== verification/Prelude.thy ===== *)
theory Prelude
  imports Main "HOL-Library.Word" "HOL-Library.Multiset"
begin

text \<open>
  Shared vocabulary of the development: machine widths, the run of a step function over a
  schedule, the contracts of a transition system (invariant, progress, termination) and the
  list facts the components share.

  A concurrent protocol of the library is modelled by a step function
  \<open>state \<Rightarrow> action \<Rightarrow> state option\<close>: an action names the thread that moves (and the
  outcome of a user callback where one is called), \<open>None\<close> means that this thread cannot move
  in this state (a spin loop whose condition does not hold yet). A schedule is a list of
  actions, so every interleaving of the threads' atomic operations is a list, and a witness
  can evaluate one.
\<close>

section \<open>Machine widths\<close>

type_synonym u64 = "64 word"
type_synonym u32 = "32 word"

text \<open>\<open>std::size_t\<close> values are naturals below \<open>2 ^ 64\<close>; \<open>w64\<close> is the wrap-around of an addition.\<close>

definition w64 :: "nat \<Rightarrow> nat" where
  "w64 x = x mod 2 ^ 64"

lemma w64_id [simp]: "x < 2 ^ 64 \<Longrightarrow> w64 x = x"
  by (simp add: w64_def)

lemma w64_less [simp]: "w64 x < 2 ^ 64"
  by (simp add: w64_def)

text \<open>\<open>std::uint32_t\<close> values are naturals below \<open>2 ^ 32\<close>.\<close>

definition w32 :: "nat \<Rightarrow> nat" where
  "w32 x = x mod 2 ^ 32"

lemma w32_id [simp]: "x < 2 ^ 32 \<Longrightarrow> w32 x = x"
  by (simp add: w32_def)

lemma w32_less [simp]: "w32 x < 2 ^ 32"
  by (simp add: w32_def)

definition SIZE_MAX :: nat where
  "SIZE_MAX = 2 ^ 64 - 1"

definition UINT32_MAX :: nat where
  "UINT32_MAX = 2 ^ 32 - 1"

section \<open>Fact collections\<close>

named_theorems step_defs "definitions of step functions, unfolded in invariant proofs"
named_theorems inv_defs "definitions of invariants"

section \<open>Runs of a step function\<close>

fun run :: "('s \<Rightarrow> 'a \<Rightarrow> 's option) \<Rightarrow> 's \<Rightarrow> 'a list \<Rightarrow> 's option" where
  "run step s [] = Some s"
| "run step s (a # as) = (case step s a of None \<Rightarrow> None | Some t \<Rightarrow> run step t as)"

lemma run_append:
  "run step s (as @ bs) = (case run step s as of None \<Rightarrow> None | Some t \<Rightarrow> run step t bs)"
  by (induction as arbitrary: s) (auto split: option.splits)

lemma run_ConsE:
  assumes "run step s (a # as) = Some t"
  obtains u where "step s a = Some u" "run step u as = Some t"
  using assms by (auto split: option.splits)

text \<open>The contract of an invariant: it holds where the protocol starts and every step keeps it.\<close>

locale step_invariant =
  fixes step :: "'s \<Rightarrow> 'a \<Rightarrow> 's option"
    and init :: "'s \<Rightarrow> bool"
    and inv :: "'s \<Rightarrow> bool"
  assumes init_inv: "init s \<Longrightarrow> inv s"
    and step_inv: "inv s \<Longrightarrow> step s a = Some t \<Longrightarrow> inv t"
begin

lemma run_keeps_inv: "inv s \<Longrightarrow> run step s as = Some t \<Longrightarrow> inv t"
  by (induction as arbitrary: s) (auto split: option.splits intro: step_inv)

lemma run_inv: "init s \<Longrightarrow> run step s as = Some t \<Longrightarrow> inv t"
  by (rule run_keeps_inv [OF init_inv])

end

text \<open>
  Liveness of a protocol in which every step makes progress: a measure decreases with every
  step, and a state that is not final has an enabled step. Then no run is longer than the
  measure, and every run extends to one that ends in a final state.
\<close>

locale terminating_system = step_invariant +
  fixes final :: "'s \<Rightarrow> bool"
    and fuel :: "'s \<Rightarrow> nat"
  assumes step_fuel: "inv s \<Longrightarrow> step s a = Some t \<Longrightarrow> fuel t < fuel s"
    and progress: "inv s \<Longrightarrow> \<not> final s \<Longrightarrow> \<exists>a t. step s a = Some t"
begin

lemma run_fuel:
  "inv s \<Longrightarrow> run step s as = Some t \<Longrightarrow> length as + fuel t \<le> fuel s"
proof (induction as arbitrary: s)
  case Nil
  then show ?case by simp
next
  case (Cons a as)
  from Cons.prems(2) obtain u where u: "step s a = Some u" "run step u as = Some t"
    by (rule run_ConsE)
  from Cons.prems(1) u(1) have "inv u" by (rule step_inv)
  from this u(2) have "length as + fuel t \<le> fuel u" by (rule Cons.IH)
  moreover from Cons.prems(1) u(1) have "fuel u < fuel s" by (rule step_fuel)
  ultimately show ?case by simp
qed

lemma run_bounded: "init s \<Longrightarrow> run step s as = Some t \<Longrightarrow> length as \<le> fuel s"
  using run_fuel [OF init_inv] by (meson add_leD1)

lemma run_completes_inv:
  "inv s \<Longrightarrow> \<exists>as t. run step s as = Some t \<and> final t"
proof (induction "fuel s" arbitrary: s rule: less_induct)
  case less
  show ?case
  proof (cases "final s")
    case True
    then show ?thesis by (intro exI [of _ "[]"]) simp
  next
    case False
    with less.prems obtain a u where u: "step s a = Some u" using progress by blast
    then have "fuel u < fuel s" "inv u" using less.prems by (auto intro: step_fuel step_inv)
    then obtain as t where "run step u as = Some t" "final t" using less.hyps by blast
    with u have "run step s (a # as) = Some t" by simp
    with \<open>final t\<close> show ?thesis by blast
  qed
qed

lemma run_completes:
  assumes "init s" "run step s as = Some t"
  shows "\<exists>bs u. run step s (as @ bs) = Some u \<and> final u"
proof -
  from assms have "inv t" by (rule run_inv)
  then obtain bs u where "run step t bs = Some u" "final u"
    using run_completes_inv by blast
  with assms(2) show ?thesis by (auto simp: run_append)
qed

end

section \<open>Lists\<close>

lemma concat_map_upt_Suc:
  "concat (map f [0..<Suc n]) = concat (map f [0..<n]) @ f n"
  by simp

text \<open>Consecutive intervals glue together.\<close>

lemma concat_intervals:
  assumes "\<And>k. k < n \<Longrightarrow> b k \<le> b (Suc k)"
  shows "concat (map (\<lambda>k. [b k..<b (Suc k)]) [0..<n]) = [b 0..<b n]"
  using assms
proof (induction n)
  case 0
  then show ?case by simp
next
  case (Suc n)
  have mono: "b 0 \<le> b n"
    using Suc.prems
  proof (induction n)
    case (Suc m)
    then show ?case by (meson le_trans less_Suc_eq)
  qed simp
  from Suc have "concat (map (\<lambda>k. [b k..<b (Suc k)]) [0..<Suc n])
      = [b 0..<b n] @ [b n..<b (Suc n)]" by simp
  also have "\<dots> = [b 0..<b (Suc n)]"
    using mono Suc.prems [of n] by (metis le_add_diff_inverse lessI upt_add_eq_append)
  finally show ?case .
qed

text \<open>Only one row of a table of lists changes.\<close>

lemma mset_concat_update:
  assumes "r < n"
  shows "mset (concat (map (f(r := f r @ xs)) [0..<n])) = mset (concat (map f [0..<n])) + mset xs"
  using assms
proof (induction n)
  case (Suc n)
  show ?case
  proof (cases "r = n")
    case True
    have "map (f(r := f r @ xs)) [0..<n] = map f [0..<n]"
      by (rule map_cong) (use True in auto)
    then show ?thesis using True by (simp del: fun_upd_apply) simp
  next
    case False
    with Suc show ?thesis by simp
  qed
qed simp

lemma sum_fun_upd_nat:
  fixes f :: "nat \<Rightarrow> nat"
  assumes "r < n"
  shows "(\<Sum>i<n. (f(r := x)) i) + f r = (\<Sum>i<n. f i) + x"
proof -
  have "(\<Sum>i<n. (f(r := x)) i) = x + (\<Sum>i\<in>{..<n} - {r}. f i)"
    using assms by (simp add: sum.remove [of _ r])
  moreover have "(\<Sum>i<n. f i) = f r + (\<Sum>i\<in>{..<n} - {r}. f i)"
    using assms by (simp add: sum.remove [of _ r])
  ultimately show ?thesis by simp
qed

lemma mset_eq_upt_iff:
  "mset xs = mset [0..<n] \<longleftrightarrow> distinct xs \<and> set xs = {0..<n}"
proof
  assume *: "mset xs = mset [0..<n]"
  then have "distinct xs" using distinct_upt mset_eq_imp_distinct_iff by blast
  moreover from * have "set xs = set [0..<n]" by (rule mset_eq_setD)
  ultimately show "distinct xs \<and> set xs = {0..<n}" by simp
next
  assume "distinct xs \<and> set xs = {0..<n}"
  then show "mset xs = mset [0..<n]"
    using set_eq_iff_mset_eq_distinct [of xs "[0..<n]"] by simp
qed

text \<open>Rows that are distinct and pairwise disjoint concatenate to a distinct list.\<close>

lemma distinct_concat_rows:
  assumes "\<And>r. r < n \<Longrightarrow> distinct (f r)"
    and "\<And>q r. q < n \<Longrightarrow> r < n \<Longrightarrow> q \<noteq> r \<Longrightarrow> set (f q) \<inter> set (f r) = {}"
  shows "distinct (concat (map f [0..<n]))"
  using assms
proof (induction n)
  case (Suc n)
  have "distinct (concat (map f [0..<n]))"
    by (rule Suc.IH) (use Suc.prems in \<open>simp_all add: less_SucI\<close>)
  moreover have "set (concat (map f [0..<n])) \<inter> set (f n) = {}"
  proof -
    have "set (f q) \<inter> set (f n) = {}" if "q < n" for q using Suc.prems(2) [of q n] that by simp
    then show ?thesis by (auto simp: atLeast0LessThan)
  qed
  ultimately show ?case using Suc.prems(1) [of n] by simp
qed simp

lemma set_concat_rows: "set (concat (map f [0..<n])) = (\<Union>r<n. set (f r))"
  by (auto simp: atLeast0LessThan)

lemma set_concat_rows_upd:
  "r < n \<Longrightarrow> set (concat (map (f(r := f r @ [b])) [0..<n]))
    = insert b (set (concat (map f [0..<n])))"
  by (auto simp: set_concat_rows split: if_splits)

lemma length_concat_rows: "length (concat (map f [0..<n])) = (\<Sum>r<n. length (f r))"
  by (induction n) simp_all

lemma mset_concat_rows: "mset (concat (map f [0..<n])) = (\<Sum>r<n. mset (f r))"
  by (induction n) simp_all

lemma length_le_of_distinct:
  "distinct xs \<Longrightarrow> set xs \<subseteq> {..<n} \<Longrightarrow> length xs \<le> (n::nat)"
  by (metis card_lessThan card_mono distinct_card finite_lessThan)

lemma sorted_remdups_adj_distinct: "sorted xs \<Longrightarrow> distinct (remdups_adj xs)" for xs :: "'a::linorder list"
  by (induction xs rule: remdups_adj.induct) (auto simp: order.antisym)

end
