(* ===== verification/Arith.thy ===== *)
theory Arith
  imports Prelude
begin

unbundle bit_operations_syntax

text \<open>
  The machine arithmetic the scheduler is built on: overflow-safe ceiling division and
  multiply-divide, the power-of-two rounding of the deque, the xorshift generator and the
  multiply-high range reduction of the steal path, and the floating-point operations of the
  inline gate and of the compensated sum.

  Floating point is a parameter (\<open>'f fp\<close>): a record of the operations the code applies to
  \<open>double\<close> values, so no theorem relies on a law of the reals.
\<close>

section \<open>Floating-point operations\<close>

record 'f fp =
  fp_zero :: 'f
  fp_milli :: 'f                       \<comment> \<open>the literal \<open>1e-3\<close>\<close>
  fp_of_nat :: "nat \<Rightarrow> 'f"             \<comment> \<open>\<open>static_cast<double>\<close> of a size\<close>
  fp_add :: "'f \<Rightarrow> 'f \<Rightarrow> 'f"
  fp_sub :: "'f \<Rightarrow> 'f \<Rightarrow> 'f"
  fp_mul :: "'f \<Rightarrow> 'f \<Rightarrow> 'f"
  fp_neg :: "'f \<Rightarrow> 'f"
  fp_le :: "'f \<Rightarrow> 'f \<Rightarrow> bool"
  fp_lt :: "'f \<Rightarrow> 'f \<Rightarrow> bool"

section \<open>Division\<close>

text \<open>\<open>ThreadPool::ceilDiv\<close>: \<open>(a / b) + ((a % b) != 0)\<close>.\<close>

definition ceilDiv :: "nat \<Rightarrow> nat \<Rightarrow> nat" where
  "ceilDiv a b = a div b + (if a mod b \<noteq> 0 then 1 else 0)"

lemma ceilDiv_upper: "0 < b \<Longrightarrow> a \<le> ceilDiv a b * b"
proof -
  assume "0 < b"
  have "a < b + a div b * b" using \<open>0 < b\<close> by (rule dividend_less_div_times)
  moreover have "a mod b = 0 \<Longrightarrow> a = a div b * b" by auto
  ultimately show ?thesis by (auto simp: ceilDiv_def)
qed

lemma ceilDiv_lower: "0 < b \<Longrightarrow> k < ceilDiv a b \<Longrightarrow> k * b < a"
proof -
  assume "0 < b" and k: "k < ceilDiv a b"
  have a: "a = a div b * b + a mod b" by simp
  show ?thesis
  proof (cases "a mod b = 0")
    case True
    with k have "k < a div b" by (simp add: ceilDiv_def)
    then have "k * b < a div b * b" using \<open>0 < b\<close> by simp
    with a show ?thesis by linarith
  next
    case False
    with k have "k \<le> a div b" by (simp add: ceilDiv_def)
    then have "k * b \<le> a div b * b" by simp
    with a False show ?thesis by linarith
  qed
qed

lemma ceilDiv_le: "0 < b \<Longrightarrow> ceilDiv a b \<le> a"
proof (rule ccontr)
  assume "0 < b" "\<not> ceilDiv a b \<le> a"
  then have "a * b < a" using ceilDiv_lower [of b a a] by simp
  with \<open>0 < b\<close> show False by (cases b) auto
qed

lemma ceilDiv_pos: "0 < b \<Longrightarrow> 0 < a \<Longrightarrow> 0 < ceilDiv a b"
  using ceilDiv_upper [of b a] by (cases "ceilDiv a b") auto

lemma ceilDiv_eq_iff:
  assumes "0 < b"
  shows "ceilDiv a b = k \<longleftrightarrow> a \<le> k * b \<and> (\<forall>j<k. j * b < a)"
proof
  assume "ceilDiv a b = k"
  then show "a \<le> k * b \<and> (\<forall>j<k. j * b < a)"
    using ceilDiv_upper [OF assms] ceilDiv_lower [OF assms] by blast
next
  assume k: "a \<le> k * b \<and> (\<forall>j<k. j * b < a)"
  have "\<not> k < ceilDiv a b" using k ceilDiv_lower [OF assms, of k a] by linarith
  moreover have "\<not> ceilDiv a b < k"
  proof
    assume "ceilDiv a b < k"
    with k have "ceilDiv a b * b < a" by blast
    with ceilDiv_upper [OF assms, of a] show False by linarith
  qed
  ultimately show "ceilDiv a b = k" by simp
qed

text \<open>\<open>mulDiv64\<close>: the product is taken at 128 bits, the quotient is cast to 64.\<close>

definition mulDiv64 :: "nat \<Rightarrow> nat \<Rightarrow> nat \<Rightarrow> nat" where
  "mulDiv64 a b c = w64 ((a * b) mod 2 ^ 128 div c)"

lemma mulDiv64_eq:
  assumes "a < 2 ^ 64" "b \<le> c" "c < 2 ^ 64" "0 < c"
  shows "mulDiv64 a b c = a * b div c"
proof -
  have "b < 2 ^ 64" using assms by linarith
  then have "a * b < 2 ^ 64 * 2 ^ 64" using assms(1) by (intro mult_strict_mono') auto
  moreover have "a * b div c \<le> a" using assms(2,4)
    by (metis div_le_mono div_mult_self_is_m mult_le_mono2)
  ultimately show ?thesis using assms(1) by (simp add: mulDiv64_def)
qed

section \<open>Rounding up to a power of two\<close>

text \<open>
  \<open>ChaseLevDeque::roundUpPow2\<close>: smear the highest bit of \<open>v - 1\<close> to the right, add one.
\<close>

definition smear :: "nat \<Rightarrow> u64 \<Rightarrow> u64" where
  "smear k v = v OR drop_bit k v"

definition roundUpPow2 :: "u64 \<Rightarrow> u64" where
  "roundUpPow2 v = (if v \<le> 1 then 1
     else smear 32 (smear 16 (smear 8 (smear 4 (smear 2 (smear 1 (v - 1)))))) + 1)"

lemma bit_smear_window:
  assumes "\<And>n. bit x n \<longleftrightarrow> (\<exists>j<k. bit v (n + j))"
  shows "bit (smear k x) n \<longleftrightarrow> (\<exists>j<k + k. bit v (n + j))"
proof -
  have "bit (smear k x) n \<longleftrightarrow> (\<exists>j<k. bit v (n + j)) \<or> (\<exists>j<k. bit v (n + k + j))"
    by (auto simp: smear_def bit_simps assms add.commute add.left_commute)
  also have "\<dots> \<longleftrightarrow> (\<exists>j<k + k. bit v (n + j))"
  proof
    assume "\<exists>j<k + k. bit v (n + j)"
    then obtain j where j: "j < k + k" "bit v (n + j)" by blast
    show "(\<exists>j<k. bit v (n + j)) \<or> (\<exists>j<k. bit v (n + k + j))"
    proof (cases "j < k")
      case False
      with j have "j - k < k" "bit v (n + k + (j - k))" by auto
      then show ?thesis by blast
    qed (use j in blast)
  next
    assume "(\<exists>j<k. bit v (n + j)) \<or> (\<exists>j<k. bit v (n + k + j))"
    then show "\<exists>j<k + k. bit v (n + j)"
      by (metis add.assoc add_less_cancel_left trans_less_add1)
  qed
  finally show ?thesis .
qed

definition smear_all :: "u64 \<Rightarrow> u64" where
  "smear_all v = smear 32 (smear 16 (smear 8 (smear 4 (smear 2 (smear 1 v)))))"

lemma bit_smear_all: "bit (smear_all v) n \<longleftrightarrow> (\<exists>j<64. bit v (n + j))"
proof -
  have s0: "bit v n \<longleftrightarrow> (\<exists>j<1. bit v (n + j))" for n by simp
  note s1 = bit_smear_window [OF s0, simplified]
  note s2 = bit_smear_window [OF s1 [folded numeral_2_eq_2]]
  have s2': "bit (smear 2 (smear 1 v)) n \<longleftrightarrow> (\<exists>j<4. bit v (n + j))" for n
    using s2 [of n] by simp
  have s3: "bit (smear 4 (smear 2 (smear 1 v))) n \<longleftrightarrow> (\<exists>j<8. bit v (n + j))" for n
    using bit_smear_window [OF s2', of n] by simp
  have s4: "bit (smear 8 (smear 4 (smear 2 (smear 1 v)))) n \<longleftrightarrow> (\<exists>j<16. bit v (n + j))" for n
    using bit_smear_window [OF s3, of n] by simp
  have s5: "bit (smear 16 (smear 8 (smear 4 (smear 2 (smear 1 v))))) n
      \<longleftrightarrow> (\<exists>j<32. bit v (n + j))" for n
    using bit_smear_window [OF s4, of n] by simp
  show ?thesis
    unfolding smear_all_def using bit_smear_window [OF s5, of n] by simp
qed

lemma smear_all_mask:
  assumes "2 ^ h \<le> unat v" "unat v < 2 ^ Suc h"
  shows "smear_all v = mask (Suc h)"
proof (rule bit_word_eqI)
  fix n assume n: "n < LENGTH(64)"
  have hb: "bit v h"
  proof -
    have "odd (unat v div 2 ^ h)"
    proof -
      have "unat v div 2 ^ h = 1"
        using assms by (auto intro!: div_nat_eqI simp: mult.commute)
      then show ?thesis by simp
    qed
    then have "bit (unat v) h" by (simp add: bit_iff_odd)
    then show ?thesis by (simp add: bit_unsigned_iff)
  qed
  have above: "\<not> bit v m" if "h < m" for m
  proof -
    have "unat v < 2 ^ m"
      using assms(2) that by (meson Suc_leI less_le_trans one_le_numeral power_increasing)
    then have "\<not> bit (unat v) m" by (simp add: bit_iff_odd)
    then show ?thesis by (simp add: bit_unsigned_iff)
  qed
  have "h < 64"
  proof -
    have "unat v < 2 ^ 64" using unsigned_less [of v] by simp
    with assms(1) have "(2::nat) ^ h < 2 ^ 64" by linarith
    then show ?thesis by (simp only: power_strict_increasing_iff)
  qed
  have "(\<exists>j<64. bit v (n + j)) \<longleftrightarrow> n \<le> h"
  proof
    assume "\<exists>j<64. bit v (n + j)"
    then obtain j where "bit v (n + j)" by blast
    then have "\<not> h < n + j" using above by blast
    then show "n \<le> h" by simp
  next
    assume "n \<le> h"
    then have "h - n < 64" "bit v (n + (h - n))" using hb \<open>h < 64\<close> by auto
    then show "\<exists>j<64. bit v (n + j)" by blast
  qed
  then show "bit (smear_all v) n \<longleftrightarrow> bit (mask (Suc h) :: u64) n"
    using n by (auto simp: bit_smear_all bit_mask_iff)
qed

lemma nat_power_bracket:
  fixes x :: nat
  assumes "0 < x"
  obtains h where "2 ^ h \<le> x" "x < 2 ^ Suc h"
proof -
  have "\<exists>h. 2 ^ h \<le> x \<and> x < 2 ^ Suc h"
    using assms
  proof (induction x rule: less_induct)
    case (less x)
    show ?case
    proof (cases "x = 1")
      case True
      then show ?thesis by (intro exI [of _ 0]) simp
    next
      case False
      with less.prems have "x div 2 < x" "0 < x div 2" by auto
      with less.IH obtain h where h: "2 ^ h \<le> x div 2" "x div 2 < 2 ^ Suc h" by blast
      then have "2 ^ Suc h \<le> x" "x < 2 ^ Suc (Suc h)" by auto
      then show ?thesis by blast
    qed
  qed
  with that show ?thesis by blast
qed

lemma roundUpPow2_unat:
  assumes "1 < unat v" "unat v \<le> 2 ^ 63"
  obtains h where "h < 63" "unat (roundUpPow2 v) = 2 ^ Suc h" "2 ^ h < unat v"
    "unat v \<le> 2 ^ Suc h"
proof -
  have v1: "unat (v - 1) = unat v - 1"
    using assms(1) by (metis One_nat_def less_imp_le unat_1 unat_sub_if' word_le_nat_alt)
  from assms(1) have "0 < unat v - 1" by simp
  then obtain h where h: "2 ^ h \<le> unat v - 1" "unat v - 1 < 2 ^ Suc h"
    by (rule nat_power_bracket)
  have hs: "h < 63"
  proof -
    have "(2::nat) ^ h < 2 ^ 63" using h(1) assms by linarith
    then show ?thesis by (simp only: power_strict_increasing_iff)
  qed
  have nle: "\<not> v \<le> 1" using assms(1) by (simp add: word_le_nat_alt)
  have "roundUpPow2 v = smear_all (v - 1) + 1"
    using nle by (simp add: roundUpPow2_def smear_all_def)
  also have "\<dots> = mask (Suc h) + 1"
    using h v1 by (subst smear_all_mask [of h]) simp_all
  also have "\<dots> = 2 ^ Suc h"
    by (simp add: mask_eq_exp_minus_1)
  finally have r: "roundUpPow2 v = 2 ^ Suc h" .
  have "unat (2 ^ Suc h :: u64) = 2 ^ Suc h"
  proof -
    have "(2::nat) ^ Suc h < 2 ^ 64" using hs by (intro power_strict_increasing) auto
    moreover have "(2 ^ Suc h :: u64) = of_nat (2 ^ Suc h)" by simp
    ultimately show ?thesis by (simp only: unat_of_nat) simp
  qed
  with r h hs assms show ?thesis by (intro that) auto
qed

text \<open>Above \<open>2 ^ 63\<close> the smeared word is all ones and the increment wraps to zero.\<close>

lemma roundUpPow2_big:
  assumes "2 ^ 63 < unat v"
  shows "roundUpPow2 v = 0"
proof -
  have v1: "unat (v - 1) = unat v - 1"
    using assms by (metis le_eq_less_or_eq not_less_zero One_nat_def Suc_leI unat_1 unat_sub
      word_le_nat_alt zero_less_power linorder_neqE_nat gr_zeroI)
  have "unat v < 2 ^ Suc 63" using unsigned_less [of v] by simp
  then have "smear_all (v - 1) = mask (Suc 63)"
    using assms v1 by (intro smear_all_mask) simp_all
  moreover have "\<not> v \<le> 1" using assms by (simp add: word_le_nat_alt)
  ultimately show ?thesis
    by (simp add: roundUpPow2_def smear_all_def mask_eq_exp_minus_1)
qed

section \<open>The victim generator\<close>

text \<open>\<open>xorshiftNext\<close>: Marsaglia's three shifts on the 64-bit state.\<close>

definition xorshiftNext :: "u64 \<Rightarrow> u64" where
  "xorshiftNext s = (let s1 = s XOR push_bit 13 s;
                         s2 = s1 XOR drop_bit 7 s1
                     in s2 XOR push_bit 17 s2)"

text \<open>\<open>xorshiftSeed\<close>: \<open>self\<close> is the pool's address; zero is replaced by one.\<close>

definition xorshiftSeed :: "u64 \<Rightarrow> u32 \<Rightarrow> u64" where
  "xorshiftSeed self slot =
     (let s = 0x9E3779B97F4A7C15 XOR (ucast slot * 0xBF58476D1CE4E5B9) XOR self
      in if s = 0 then 1 else s)"

lemma xor_eq_0_iff_eq: "(a :: u64) XOR b = 0 \<longleftrightarrow> a = b"
  by (auto simp: bit_eq_iff bit_xor_iff)

lemma push_bit_fixed:
  assumes "0 < k" "(s :: u64) = push_bit k s"
  shows "s = 0"
proof (rule bit_word_eqI)
  have "\<not> bit s n" if "n < 64" for n
    using that
  proof (induction n rule: less_induct)
    case (less n)
    have "bit s n \<longleftrightarrow> bit (push_bit k s) n" using assms(2) by simp
    also have "\<dots> \<longleftrightarrow> k \<le> n \<and> bit s (n - k)" using less.prems by (simp add: bit_simps)
    finally have eq: "bit s n \<longleftrightarrow> k \<le> n \<and> bit s (n - k)" .
    show ?case
    proof
      assume "bit s n"
      with eq have "k \<le> n" "bit s (n - k)" by auto
      moreover have "n - k < n" using \<open>k \<le> n\<close> assms(1) by simp
      ultimately show False using less.IH [of "n - k"] less.prems by simp
    qed
  qed
  then show "bit s n = bit (0 :: u64) n" if "n < LENGTH(64)" for n using that by simp
qed

lemma drop_bit_fixed:
  assumes "0 < k" "(s :: u64) = drop_bit k s"
  shows "s = 0"
proof -
  have "bit s n = bit s (n + k * j)" for n j
  proof (induction j)
    case (Suc j)
    have "bit s (n + k * j) = bit (drop_bit k s) (n + k * j)" using assms(2) by simp
    then show ?case using Suc by (simp add: bit_simps algebra_simps)
  qed simp
  then have "bit s n = bit s (n + k * 64)" for n by blast
  moreover have "\<not> bit s (n + k * 64)" for n
  proof -
    have "64 \<le> n + k * 64" using assms(1) by (cases k) auto
    then show ?thesis using bit_imp_le_length [of s "n + k * 64"] by auto
  qed
  ultimately show ?thesis by (simp add: bit_eq_iff)
qed

text \<open>\<open>fastRange32\<close>: the high half of a draw, scaled to \<open>n\<close>, cast to 32 bits.\<close>

definition fastRange32 :: "u64 \<Rightarrow> u32 \<Rightarrow> u32" where
  "fastRange32 x n = ucast (drop_bit 32 (drop_bit 32 x * ucast n))"

lemma xor_push_bit_nz:
  assumes "0 < k" "(s :: u64) \<noteq> 0"
  shows "s XOR push_bit k s \<noteq> 0"
  using push_bit_fixed [OF assms(1)] assms(2) by (auto simp: xor_eq_0_iff_eq)

lemma xor_drop_bit_nz:
  assumes "0 < k" "(s :: u64) \<noteq> 0"
  shows "s XOR drop_bit k s \<noteq> 0"
  using drop_bit_fixed [OF assms(1)] assms(2) by (auto simp: xor_eq_0_iff_eq)

lemma xorshiftNext_nz: "s \<noteq> 0 \<Longrightarrow> xorshiftNext s \<noteq> 0"
  unfolding xorshiftNext_def Let_def
  by (intro xor_push_bit_nz xor_drop_bit_nz) simp_all

lemma xorshiftSeed_nz: "xorshiftSeed self slot \<noteq> 0"
  by (simp add: xorshiftSeed_def Let_def)

lemma unat_div_half: "unat (x :: u64) div 2 ^ 32 < 2 ^ 32"
proof -
  have "unat x < 2 ^ LENGTH(64)" by (rule unsigned_less)
  then have "unat x < 2 ^ 32 * 2 ^ 32" by simp
  then show ?thesis by (rule less_mult_imp_div_less)
qed

lemma fastRange32_unat:
  "unat (fastRange32 x n) = (unat x div 2 ^ 32) * unat n div 2 ^ 32"
proof -
  have x: "unat (drop_bit 32 x) = unat x div 2 ^ 32"
    by (simp add: drop_bit_eq_div unat_div)
  have xb: "unat x div 2 ^ 32 < 2 ^ 32"
    by (rule unat_div_half)
  have nb: "unat n < 2 ^ 32" using unsigned_less [of n] by simp
  have n: "unat (ucast n :: u64) = unat n"
    using nb by (simp add: unsigned_ucast_eq take_bit_nat_eq_self)
  have p: "unat x div 2 ^ 32 * unat n < 2 ^ 32 * 2 ^ 32"
    using xb nb by (intro mult_strict_mono') auto
  have "unat (drop_bit 32 x * ucast n) = unat x div 2 ^ 32 * unat n"
    using p by (simp add: unat_word_ariths x n)
  then have "unat (drop_bit 32 (drop_bit 32 x * ucast n)) = unat x div 2 ^ 32 * unat n div 2 ^ 32"
    by (simp add: drop_bit_eq_div unat_div)
  moreover have "unat x div 2 ^ 32 * unat n div 2 ^ 32 < 2 ^ 32"
    using p by (simp add: less_mult_imp_div_less)
  ultimately show ?thesis
    by (simp add: fastRange32_def unsigned_ucast_eq take_bit_nat_eq_self)
qed

lemma fastRange32_less: "n \<noteq> 0 \<Longrightarrow> unat (fastRange32 x n) < unat n"
proof -
  assume "n \<noteq> 0"
  then have "0 < unat n" by (simp add: unat_gt_0)
  have "unat x div 2 ^ 32 < 2 ^ 32"
    by (rule unat_div_half)
  then have "unat x div 2 ^ 32 * unat n < 2 ^ 32 * unat n" using \<open>0 < unat n\<close> by simp
  then have "unat x div 2 ^ 32 * unat n div 2 ^ 32 < unat n"
    by (simp add: less_mult_imp_div_less mult.commute)
  then show ?thesis by (simp add: fastRange32_unat)
qed

end
