(* ===== verification/Job.thy ===== *)
theory Job
  imports Arith
begin

text \<open>
  The data every primitive shares: the hint enumerations and records of \<open>hints.h\<close>, the
  cancellation token of \<open>cancellation.h\<close> over an explicit store of its heap words, the inline
  gate of \<open>inline_fallback.h\<close>, and the job descriptor of \<open>job_descriptor.h\<close> with the code that
  fills its block shape.
\<close>

section \<open>Hints\<close>

datatype Balance = StaticUniform | DynamicChunked
datatype Determinism = FixedBlockOrder | KahanCompensated
datatype Affinity = AffNone | PerCpu | PerCpuSmtPair | PerCluster
datatype StealPolicy = StealGlobal | ClusterLocal
datatype Priority = Latency | Throughput | Background
datatype BarrierKind = BarrierNone | BarrierGlobal | DeterministicReduce | ProducerSerial

text \<open>\<open>Priority\<close> is a \<open>uint8_t\<close> enumeration; its order is the declaration order.\<close>

instantiation Priority :: linorder
begin

fun priority_rank :: "Priority \<Rightarrow> nat" where
  "priority_rank Latency = 0"
| "priority_rank Throughput = 1"
| "priority_rank Background = 2"

definition less_eq_Priority :: "Priority \<Rightarrow> Priority \<Rightarrow> bool" where
  "less_eq_Priority a b \<longleftrightarrow> priority_rank a \<le> priority_rank b"

definition less_Priority :: "Priority \<Rightarrow> Priority \<Rightarrow> bool" where
  "less_Priority a b \<longleftrightarrow> priority_rank a < priority_rank b"

instance
proof
  fix x y z :: Priority
  show "(x < y) = (x \<le> y \<and> \<not> y \<le> x)"
    by (auto simp: less_eq_Priority_def less_Priority_def)
  show "x \<le> x" by (simp add: less_eq_Priority_def)
  show "x \<le> y \<Longrightarrow> y \<le> z \<Longrightarrow> x \<le> z" by (simp add: less_eq_Priority_def)
  show "x \<le> y \<Longrightarrow> y \<le> x \<Longrightarrow> x = y"
    by (cases x; cases y) (simp_all add: less_eq_Priority_def)
  show "x \<le> y \<or> y \<le> x" by (auto simp: less_eq_Priority_def)
qed

end

record 'f Hints =
  h_balance :: Balance
  h_determinism :: Determinism
  h_affinity :: Affinity
  h_stealPolicy :: StealPolicy
  h_priority :: Priority
  h_estimatedItemNs :: 'f
  h_minTaskUs :: 'f
  h_chunk :: nat
  h_cancellationChecks :: bool

text \<open>The default-constructed \<open>Hints\<close>; \<open>HintsDefaults\<close> carries the same values at compile time.\<close>

definition HintsDefaults :: "'f fp \<Rightarrow> 'f Hints" where
  "HintsDefaults fp = \<lparr> h_balance = DynamicChunked, h_determinism = FixedBlockOrder,
     h_affinity = PerCluster, h_stealPolicy = ClusterLocal, h_priority = Throughput,
     h_estimatedItemNs = fp_zero fp, h_minTaskUs = fp_zero fp, h_chunk = 0,
     h_cancellationChecks = True \<rparr>"

definition StaticHints :: "'f fp \<Rightarrow> 'f Hints" where
  "StaticHints fp = (HintsDefaults fp)\<lparr> h_balance := StaticUniform \<rparr>"

definition LatencyHints :: "'f fp \<Rightarrow> 'f Hints" where
  "LatencyHints fp =
     (HintsDefaults fp)\<lparr> h_balance := DynamicChunked, h_priority := Latency \<rparr>"

text \<open>\<open>us25\<close> stands for the literal \<open>25.0\<close>.\<close>

definition BulkHints :: "'f fp \<Rightarrow> 'f \<Rightarrow> 'f Hints" where
  "BulkHints fp us25 =
     (HintsDefaults fp)\<lparr> h_minTaskUs := us25, h_cancellationChecks := False \<rparr>"

definition KahanReduceHints :: "'f fp \<Rightarrow> 'f \<Rightarrow> 'f Hints" where
  "KahanReduceHints fp us25 =
     (HintsDefaults fp)\<lparr> h_determinism := KahanCompensated, h_minTaskUs := us25 \<rparr>"

definition NoCancellationHints :: "'f Hints \<Rightarrow> 'f Hints" where
  "NoCancellationHints h = h\<lparr> h_cancellationChecks := False \<rparr>"

record ChainHints =
  ch_balance :: Balance
  ch_priority :: Priority
  ch_pipelineSameChunk :: bool
  ch_cancellationChecks :: bool
  ch_chunk :: nat

definition ChainHintsDefaults :: ChainHints where
  "ChainHintsDefaults = \<lparr> ch_balance = StaticUniform, ch_priority = Throughput,
     ch_pipelineSameChunk = True, ch_cancellationChecks = True, ch_chunk = 0 \<rparr>"

definition DynamicChainHints :: ChainHints where
  "DynamicChainHints =
     ChainHintsDefaults\<lparr> ch_balance := DynamicChunked, ch_pipelineSameChunk := False \<rparr>"

section \<open>Cancellation\<close>

text \<open>
  The heap words behind \<open>shared_ptr<atomic<uint32_t>>\<close> are a list; a token is \<open>None\<close> (the
  default, never-stopped sentinel) or the index of its word. Copies of a token share the index.
\<close>

type_synonym token = "nat option"
type_synonym token_heap = "u32 list"

definition makeOwned :: "token_heap \<Rightarrow> token \<times> token_heap" where
  "makeOwned h = (Some (length h), h @ [0])"

definition stop_requested :: "token_heap \<Rightarrow> token \<Rightarrow> bool" where
  "stop_requested h t = (case t of None \<Rightarrow> False | Some i \<Rightarrow> h ! i \<noteq> 0)"

definition canStop :: "token \<Rightarrow> bool" where
  "canStop t = (t \<noteq> None)"

definition token_eq :: "token \<Rightarrow> token \<Rightarrow> bool" where
  "token_eq a b = (a = b)"

text \<open>One compare-exchange from 0 to 1; the result is whether this call won it.\<close>

definition request_stop :: "token_heap \<Rightarrow> token \<Rightarrow> bool \<times> token_heap" where
  "request_stop h t = (case t of None \<Rightarrow> (False, h)
     | Some i \<Rightarrow> if h ! i = 0 then (True, h[i := 1]) else (False, h))"

definition valid_token :: "token_heap \<Rightarrow> token \<Rightarrow> bool" where
  "valid_token h t = (case t of None \<Rightarrow> True | Some i \<Rightarrow> i < length h)"

lemma stop_requested_None [simp]: "\<not> stop_requested h None"
  by (simp add: stop_requested_def)

lemma request_stop_length [simp]: "length (snd (request_stop h t)) = length h"
  by (auto simp: request_stop_def split: option.splits)

lemma request_stop_sets:
  "valid_token h t \<Longrightarrow> canStop t \<Longrightarrow> stop_requested (snd (request_stop h t)) t"
  by (auto simp: request_stop_def stop_requested_def valid_token_def canStop_def)

lemma request_stop_mono:
  "stop_requested h u \<Longrightarrow> stop_requested (snd (request_stop h t)) u"
  by (auto simp: request_stop_def stop_requested_def nth_list_update split: option.splits)
    (metis list_update_beyond linorder_not_less nth_list_update one_neq_zero)

lemma request_stop_other:
  "t \<noteq> u \<Longrightarrow> stop_requested (snd (request_stop h t)) u = stop_requested h u"
  by (auto simp: request_stop_def stop_requested_def split: option.splits)

text \<open>A sequence of stop requests, each by some holder of some token.\<close>

fun request_stops :: "token_heap \<Rightarrow> token list \<Rightarrow> bool list \<times> token_heap" where
  "request_stops h [] = ([], h)"
| "request_stops h (t # ts) = (let (r, h') = request_stop h t;
     (rs, h'') = request_stops h' ts in (r # rs, h''))"

text \<open>How many of the requests on \<open>t\<close> were told that they won.\<close>

definition winners :: "token \<Rightarrow> token list \<Rightarrow> bool list \<Rightarrow> nat" where
  "winners t ts rs = length (filter (\<lambda>(u, r). u = t \<and> r) (zip ts rs))"

lemma request_stops_stopped:
  assumes "valid_token h t" "stop_requested h t"
  shows "winners t ts (fst (request_stops h ts)) = 0 \<and>
    stop_requested (snd (request_stops h ts)) t"
  using assms
proof (induction ts arbitrary: h)
  case Nil
  then show ?case by (simp add: winners_def)
next
  case (Cons u ts)
  let ?h = "snd (request_stop h u)"
  have "stop_requested ?h t" using Cons.prems(2) by (rule request_stop_mono)
  moreover have "valid_token ?h t"
    using Cons.prems(1) by (auto simp: valid_token_def split: option.splits)
  ultimately have IH: "winners t ts (fst (request_stops ?h ts)) = 0 \<and>
    stop_requested (snd (request_stops ?h ts)) t" by (intro Cons.IH)
  have "u = t \<Longrightarrow> \<not> fst (request_stop h u)"
    using Cons.prems(2) by (auto simp: request_stop_def stop_requested_def split: option.splits)
  with IH show ?case by (auto simp: winners_def case_prod_beta Let_def)
qed

lemma request_stops_fresh:
  assumes "valid_token h t" "canStop t" "\<not> stop_requested h t"
  shows "winners t ts (fst (request_stops h ts)) = (if t \<in> set ts then 1 else 0) \<and>
    stop_requested (snd (request_stops h ts)) t = (t \<in> set ts)"
  using assms
proof (induction ts arbitrary: h)
  case Nil
  then show ?case by (simp add: winners_def)
next
  case (Cons u ts)
  let ?h = "snd (request_stop h u)"
  have v: "valid_token ?h t"
    using Cons.prems(1) by (auto simp: valid_token_def split: option.splits)
  show ?case
  proof (cases "u = t")
    case True
    have "stop_requested ?h t"
      using Cons.prems True by (simp add: request_stop_sets)
    then have "winners t ts (fst (request_stops ?h ts)) = 0 \<and>
      stop_requested (snd (request_stops ?h ts)) t" using v by (intro request_stops_stopped)
    moreover have "fst (request_stop h t)"
      using Cons.prems by (auto simp: request_stop_def stop_requested_def canStop_def)
    ultimately show ?thesis using True by (auto simp: winners_def case_prod_beta Let_def)
  next
    case False
    then have "\<not> stop_requested ?h t" using Cons.prems by (simp add: request_stop_other)
    with v Cons.prems(2) Cons.IH [of ?h] False show ?thesis
      by (auto simp: winners_def case_prod_beta Let_def)
  qed
qed

text \<open>\<open>Deadline\<close>: \<open>tsc\<close> is the time-stamp counter read by \<open>__rdtsc\<close>.\<close>

definition deadline_expired :: "u64 \<Rightarrow> u64 \<Rightarrow> bool" where
  "deadline_expired tsc threshold = (threshold \<le> tsc)"

section \<open>The inline gate\<close>

definition shouldRunInline :: "'f fp \<Rightarrow> nat \<Rightarrow> nat \<Rightarrow> 'f \<Rightarrow> 'f \<Rightarrow> bool" where
  "shouldRunInline fp n participants estimatedItemNs minTaskUs =
     (if participants \<le> 1 then True
      else if n = 0 then True
      else if fp_le fp estimatedItemNs (fp_zero fp) then False
      else let estimatedTotalUs =
                 fp_mul fp (fp_mul fp (fp_of_nat fp n) estimatedItemNs) (fp_milli fp);
               threshold = fp_mul fp minTaskUs (fp_of_nat fp participants)
           in fp_lt fp estimatedTotalUs threshold)"

definition shouldRunInlineHinted :: "'f fp \<Rightarrow> 'f Hints \<Rightarrow> nat \<Rightarrow> nat \<Rightarrow> bool" where
  "shouldRunInlineHinted fp h n participants =
     (if fp_lt fp (fp_zero fp) (h_estimatedItemNs h)
      then shouldRunInline fp n participants (h_estimatedItemNs h) (h_minTaskUs h)
      else participants \<le> 1)"

section \<open>The job descriptor\<close>

text \<open>
  The fields of \<open>JobDescriptor\<close>. A body, an exception and a worker entry are opaque
  identities: numbers name the closure an address stands for.
\<close>

record job =
  jd_generation :: nat
  jd_first :: nat
  jd_last :: nat
  jd_chunk :: nat
  jd_blockCount :: nat
  jd_participants :: nat
  jd_balance :: Balance
  jd_priority :: Priority
  jd_preWakeCompletionProbe :: bool
  jd_body :: nat
  jd_token :: token
  jd_fnPtr :: "nat option"
  jd_workerEntry :: "nat option"
  jd_workerStateBase :: "nat option"
  jd_firstException :: "nat option"
  jd_exceptionWorkerId :: nat
  jd_nextBlock :: nat

definition empty_job :: job where
  "empty_job = \<lparr> jd_generation = 0, jd_first = 0, jd_last = 0, jd_chunk = 0, jd_blockCount = 0,
     jd_participants = 0, jd_balance = StaticUniform, jd_priority = Throughput,
     jd_preWakeCompletionProbe = False, jd_body = 0, jd_token = None, jd_fnPtr = None,
     jd_workerEntry = None, jd_workerStateBase = None, jd_firstException = None,
     jd_exceptionWorkerId = 0, jd_nextBlock = 0 \<rparr>"

text \<open>
  The range a block covers: \<open>lo = first + blockId * chunk\<close>, \<open>hi = min(lo + chunk, last)\<close>, every
  operation modulo \<open>2 ^ 64\<close>.
\<close>

definition block_lo :: "job \<Rightarrow> nat \<Rightarrow> nat" where
  "block_lo j b = w64 (jd_first j + w64 (b * jd_chunk j))"

definition block_hi :: "job \<Rightarrow> nat \<Rightarrow> nat" where
  "block_hi j b = min (w64 (block_lo j b + jd_chunk j)) (jd_last j)"

definition fillBlockShape :: "job \<Rightarrow> nat \<Rightarrow> nat \<Rightarrow> nat \<Rightarrow> bool \<Rightarrow> job" where
  "fillBlockShape j n participants hintChunk oversubscribe =
     (let chunk = (if hintChunk = 0
                   then ceilDiv n (if oversubscribe then w64 (participants * 2) else participants)
                   else hintChunk);
          blockCount = ceilDiv n chunk
      in j\<lparr> jd_chunk := chunk, jd_blockCount := blockCount \<rparr>)"

text \<open>A shaped descriptor: what \<open>fillBlockShape\<close> leaves for a non-empty range.\<close>

definition shaped :: "job \<Rightarrow> bool" where
  "shaped j \<longleftrightarrow> jd_first j < jd_last j \<and> 0 < jd_chunk j \<and>
     jd_blockCount j = ceilDiv (jd_last j - jd_first j) (jd_chunk j) \<and>
     jd_last j + jd_chunk j \<le> 2 ^ 64"

lemma fillBlockShape_shaped:
  assumes "jd_first j < jd_last j" "n = jd_last j - jd_first j"
    and "0 < participants" "participants * 2 < 2 ^ 64"
    and "jd_last j + (if hintChunk = 0 then n else hintChunk) \<le> 2 ^ 64"
  shows "shaped (fillBlockShape j n participants hintChunk oversubscribe)"
proof -
  have "0 < n" using assms by simp
  have d: "ceilDiv n p \<le> n" "0 < ceilDiv n p" if "0 < p" for p
    using that \<open>0 < n\<close> by (simp_all add: ceilDiv_le ceilDiv_pos)
  show ?thesis
    using assms d [of participants] d [of "participants * 2"]
    by (auto simp: shaped_def fillBlockShape_def Let_def split: if_splits)
qed

lemma block_lo_eq:
  assumes "shaped j" "b < jd_blockCount j"
  shows "block_lo j b = jd_first j + b * jd_chunk j" "block_lo j b < jd_last j"
proof -
  have "b * jd_chunk j < jd_last j - jd_first j"
    using assms ceilDiv_lower by (simp add: shaped_def)
  moreover from assms(1) have "jd_last j < 2 ^ 64" by (simp add: shaped_def)
  ultimately show "block_lo j b = jd_first j + b * jd_chunk j" "block_lo j b < jd_last j"
    by (simp_all add: block_lo_def)
qed

lemma block_hi_eq:
  assumes "shaped j" "b < jd_blockCount j"
  shows "block_hi j b = min (jd_first j + Suc b * jd_chunk j) (jd_last j)"
proof -
  have lo: "block_lo j b = jd_first j + b * jd_chunk j" "block_lo j b < jd_last j"
    by (rule block_lo_eq [OF assms])+
  have "block_lo j b + jd_chunk j < 2 ^ 64"
    using lo(2) assms(1) by (simp add: shaped_def)
  then show ?thesis by (simp add: block_hi_def lo(1) algebra_simps)
qed

text \<open>The blocks tile the range: read in block order they list every index once.\<close>

lemma blocks_tile:
  assumes "shaped j"
  shows "concat (map (\<lambda>b. [block_lo j b..<block_hi j b]) [0..<jd_blockCount j])
    = [jd_first j..<jd_last j]"
proof -
  define e where "e k = min (jd_first j + k * jd_chunk j) (jd_last j)" for k
  have "map (\<lambda>b. [block_lo j b..<block_hi j b]) [0..<jd_blockCount j]
      = map (\<lambda>k. [e k..<e (Suc k)]) [0..<jd_blockCount j]"
    using block_lo_eq [OF assms] block_hi_eq [OF assms]
    by (auto simp: e_def min_def)
  then have "concat (map (\<lambda>b. [block_lo j b..<block_hi j b]) [0..<jd_blockCount j])
      = concat (map (\<lambda>k. [e k..<e (Suc k)]) [0..<jd_blockCount j])" by (rule arg_cong)
  also have "\<dots> = [e 0..<e (jd_blockCount j)]"
    by (rule concat_intervals) (auto simp: e_def)
  also have "e 0 = jd_first j" using assms by (simp add: e_def shaped_def)
  also have "e (jd_blockCount j) = jd_last j"
  proof -
    have "jd_last j - jd_first j \<le> jd_blockCount j * jd_chunk j"
      using assms ceilDiv_upper by (simp add: shaped_def)
    then show ?thesis by (simp add: e_def)
  qed
  finally show ?thesis .
qed

section \<open>Slot ranges\<close>

text \<open>
  \<open>slotRange\<close> of the plex and chain states: the slot's share of \<open>[0, n)\<close> by multiply-divide.
\<close>

definition slotRange :: "nat \<Rightarrow> nat \<Rightarrow> nat \<Rightarrow> nat \<times> nat" where
  "slotRange n participants slot =
     (mulDiv64 n slot participants, mulDiv64 n (slot + 1) participants)"

lemma slotRange_eq:
  assumes "n < 2 ^ 64" "participants < 2 ^ 64" "slot < participants"
  shows "slotRange n participants slot
    = (n * slot div participants, n * Suc slot div participants)"
  using assms by (simp add: slotRange_def mulDiv64_eq)

lemma slotRange_tile:
  assumes "n < 2 ^ 64" "0 < participants" "participants < 2 ^ 64"
  shows "concat (map (\<lambda>s. [fst (slotRange n participants s)..<snd (slotRange n participants s)])
    [0..<participants]) = [0..<n]"
proof -
  let ?e = "\<lambda>k. n * k div participants"
  have "map (\<lambda>s. [fst (slotRange n participants s)..<snd (slotRange n participants s)])
      [0..<participants] = map (\<lambda>k. [?e k..<?e (Suc k)]) [0..<participants]"
    using assms by (auto simp: slotRange_eq simp del: mult_Suc_right)
  then have "concat (map (\<lambda>s. [fst (slotRange n participants s)..<snd (slotRange n participants s)])
      [0..<participants]) = concat (map (\<lambda>k. [?e k..<?e (Suc k)]) [0..<participants])" by (rule arg_cong)
  also have "\<dots> = [?e 0..<?e participants]"
    by (rule concat_intervals) (intro div_le_mono mult_le_mono2 le_SucI le_refl)
  also have "\<dots> = [0..<n]" using assms(2) by simp
  finally show ?thesis .
qed

end
