(* ===== verification/Partition.thy ===== *)
theory Partition
  imports Job
begin

text \<open>
  The partition engine of \<open>dispatch_static.h\<close>: the block-claim policies and the loop every
  participant runs over the blocks its policy hands out, one atomic operation per step.

  \<open>block_claim\<close> is the contract between the two: what a policy promises about the blocks it
  has handed out. The loop's theorems are proved once against it and hold for every policy of
  the code by interpretation.
\<close>

section \<open>Block-claim policies\<close>

definition kNoBlock :: nat where
  "kNoBlock = SIZE_MAX"

lemma kNoBlock_eq: "kNoBlock = 2 ^ 64 - 1"
  by (simp add: kNoBlock_def SIZE_MAX_def)

text \<open>\<open>BlockClaim<StaticUniform>::next\<close>; the counter of the descriptor is untouched.\<close>

definition BlockClaim_static_next :: "job \<Rightarrow> nat \<Rightarrow> nat \<Rightarrow> nat \<times> nat" where
  "BlockClaim_static_next desc rank prevIdx =
     (let participants = jd_participants desc;
          blockCount = jd_blockCount desc;
          cand = (if prevIdx = kNoBlock then rank else w64 (prevIdx + participants))
      in (if cand < blockCount then cand else kNoBlock, jd_nextBlock desc))"

text \<open>\<open>BlockClaim<DynamicChunked>::next\<close>: the rank's own block first, then the shared counter.\<close>

definition BlockClaim_dynamic_next :: "job \<Rightarrow> nat \<Rightarrow> nat \<Rightarrow> nat \<times> nat" where
  "BlockClaim_dynamic_next desc rank prevIdx =
     (let blockCount = jd_blockCount desc;
          participants = jd_participants desc
      in if prevIdx = kNoBlock \<and> rank < blockCount \<and> rank < participants
         then (rank, jd_nextBlock desc)
         else if blockCount \<le> participants then (kNoBlock, jd_nextBlock desc)
         else let claimed = jd_nextBlock desc
              in (if claimed < blockCount then claimed else kNoBlock, w64 (claimed + 1)))"

text \<open>
  \<open>nextTypedBlock<B>\<close>: the same policies over hoisted parameters. The last argument and the
  second result are the descriptor's \<open>nextBlock\<close> counter.
\<close>

fun nextTypedBlock :: "Balance \<Rightarrow> nat \<Rightarrow> nat \<Rightarrow> nat \<Rightarrow> nat \<Rightarrow> nat \<Rightarrow> nat \<times> nat" where
  "nextTypedBlock StaticUniform blockCount participants rank prevIdx counter =
     (let cand = (if prevIdx = kNoBlock then rank else w64 (prevIdx + participants))
      in (if cand < blockCount then cand else kNoBlock, counter))"
| "nextTypedBlock DynamicChunked blockCount participants rank prevIdx counter =
     (if prevIdx = kNoBlock \<and> rank < blockCount \<and> rank < participants then (rank, counter)
      else if blockCount \<le> participants then (kNoBlock, counter)
      else (if counter < blockCount then counter else kNoBlock, w64 (counter + 1)))"

lemma BlockClaim_static_next_typed:
  "BlockClaim_static_next j r p
    = nextTypedBlock StaticUniform (jd_blockCount j) (jd_participants j) r p (jd_nextBlock j)"
  by (simp add: BlockClaim_static_next_def)

lemma BlockClaim_dynamic_next_typed:
  "BlockClaim_dynamic_next j r p
    = nextTypedBlock DynamicChunked (jd_blockCount j) (jd_participants j) r p (jd_nextBlock j)"
  by (simp add: BlockClaim_dynamic_next_def Let_def)

text \<open>
  The block of \<open>runSingleRankBlockTyped\<close> as a policy: the rank's own block, then nothing.
\<close>

definition singleRankNext :: "nat \<Rightarrow> nat \<Rightarrow> nat \<Rightarrow> nat" where
  "singleRankNext blockCount rank prevIdx =
     (if prevIdx = kNoBlock \<and> rank < blockCount then rank else kNoBlock)"

text \<open>
  \<open>runPartitionTypedHinted\<close> and \<open>typedWorkerEntry\<close> take the single-block path when
  \<open>blockCount <= participants\<close> and the claim loop otherwise.
\<close>

definition hintedNext :: "Balance \<Rightarrow> nat \<Rightarrow> nat \<Rightarrow> nat \<Rightarrow> nat \<Rightarrow> nat \<Rightarrow> nat \<times> nat" where
  "hintedNext B blockCount participants rank prevIdx counter =
     (if blockCount \<le> participants then (singleRankNext blockCount rank prevIdx, counter)
      else nextTypedBlock B blockCount participants rank prevIdx counter)"

definition contiguousRankBlockSpan :: "nat \<Rightarrow> nat \<Rightarrow> nat \<Rightarrow> nat \<times> nat" where
  "contiguousRankBlockSpan blockCount participants rank =
     (if rank \<ge> participants then (blockCount, blockCount)
      else let base = blockCount div participants;
               extra = blockCount mod participants;
               begin = w64 (w64 (rank * base) + min rank extra);
               fin = w64 (begin + base + (if rank < extra then 1 else 0))
           in (begin, fin))"

text \<open>The index loop of \<open>runContiguousRankPartitionTypedCached\<close> over the rank's span.\<close>

definition contiguousNext :: "nat \<Rightarrow> nat \<Rightarrow> nat \<Rightarrow> nat \<Rightarrow> nat \<Rightarrow> nat \<times> nat" where
  "contiguousNext blockCount participants rank prevIdx counter =
     (let (begin, fin) = contiguousRankBlockSpan blockCount participants rank;
          blockId = (if prevIdx = kNoBlock then begin else w64 (prevIdx + 1))
      in (if blockId < fin then blockId else kNoBlock, counter))"

section \<open>The contract of a policy\<close>

definition last_block :: "nat list \<Rightarrow> nat" where
  "last_block xs = (if xs = [] then kNoBlock else last xs)"

definition no_wrap :: "nat \<Rightarrow> nat \<Rightarrow> bool" where
  "no_wrap N P \<longleftrightarrow> 0 < P \<and> N + P < 2 ^ 64"

text \<open>
  \<open>I N P cl c D\<close> says that with \<open>N\<close> blocks and \<open>P\<close> ranks, the counter at \<open>c\<close>, rank \<open>r\<close> has been
  handed the blocks \<open>cl r\<close> in this order and the ranks of \<open>D\<close> have been told that none is left. A policy that is \<open>shared\<close> reads the counter, which the dispatcher has
  set to \<open>P\<close> when there are more blocks than ranks.
\<close>

locale block_claim =
  fixes shared :: bool
    and nxt :: "nat \<Rightarrow> nat \<Rightarrow> nat \<Rightarrow> nat \<Rightarrow> nat \<Rightarrow> nat \<times> nat"
    and I :: "nat \<Rightarrow> nat \<Rightarrow> (nat \<Rightarrow> nat list) \<Rightarrow> nat \<Rightarrow> nat set \<Rightarrow> bool"
  assumes claim_init: "no_wrap N P \<Longrightarrow> (shared \<Longrightarrow> P < N \<Longrightarrow> c = P) \<Longrightarrow>
      I N P (\<lambda>r. []) c {}"
    and claim_block: "I N P cl c D \<Longrightarrow> r < P \<Longrightarrow> r \<notin> D \<Longrightarrow> D \<subseteq> {..<P} \<Longrightarrow>
      nxt N P r (last_block (cl r)) c = (b, c') \<Longrightarrow> b \<noteq> kNoBlock \<Longrightarrow>
      I N P (cl(r := cl r @ [b])) c' D"
    and claim_none: "I N P cl c D \<Longrightarrow> r < P \<Longrightarrow> r \<notin> D \<Longrightarrow> D \<subseteq> {..<P} \<Longrightarrow>
      nxt N P r (last_block (cl r)) c = (kNoBlock, c') \<Longrightarrow> I N P cl c' (insert r D)"
    and claim_distinct: "I N P cl c D \<Longrightarrow> D \<subseteq> {..<P} \<Longrightarrow>
      distinct (concat (map cl [0..<P])) \<and> set (concat (map cl [0..<P])) \<subseteq> {..<N}"
    and claim_complete: "I N P cl c {..<P} \<Longrightarrow> set (concat (map cl [0..<P])) = {..<N}"
begin

lemma claim_mset: "I N P cl c {..<P} \<Longrightarrow> mset (concat (map cl [0..<P])) = mset [0..<N]"
  unfolding mset_eq_upt_iff atLeast0LessThan
  using claim_distinct [of N P cl c "{..<P}"] claim_complete [of N P cl c] by blast

lemma claim_count: "I N P cl c D \<Longrightarrow> D \<subseteq> {..<P} \<Longrightarrow> (\<Sum>r<P. length (cl r)) \<le> N"
  using claim_distinct length_le_of_distinct by (metis length_concat_rows)

text \<open>A policy that gives the same answers keeps the same contract.\<close>

lemma transfer:
  assumes "\<And>N P cl c D r. I N P cl c D \<Longrightarrow> r < P \<Longrightarrow>
    nxt' N P r (last_block (cl r)) c = nxt N P r (last_block (cl r)) c"
  shows "block_claim shared nxt' I"
proof
  fix N P cl c D r b c'
  show "no_wrap N P \<Longrightarrow> (shared \<Longrightarrow> P < N \<Longrightarrow> c = P) \<Longrightarrow> I N P (\<lambda>r. []) c {}"
    by (rule claim_init)
  show "I N P (cl(r := cl r @ [b])) c' D"
    if "I N P cl c D" "r < P" "r \<notin> D" "D \<subseteq> {..<P}"
      "nxt' N P r (last_block (cl r)) c = (b, c')" "b \<noteq> kNoBlock"
    using that assms by (intro claim_block) simp_all
  show "I N P cl c' (insert r D)"
    if "I N P cl c D" "r < P" "r \<notin> D" "D \<subseteq> {..<P}"
      "nxt' N P r (last_block (cl r)) c = (kNoBlock, c')"
    using that assms by (intro claim_none) simp_all
  show "distinct (concat (map cl [0..<P])) \<and> set (concat (map cl [0..<P])) \<subseteq> {..<N}"
    if "I N P cl c D" "D \<subseteq> {..<P}" using that by (rule claim_distinct)
  show "set (concat (map cl [0..<P])) = {..<N}" if "I N P cl c {..<P}"
    using that by (rule claim_complete)
qed

end

section \<open>The policies keep the contract\<close>

subsection \<open>Static stride\<close>

definition static_claims ::
  "nat \<Rightarrow> nat \<Rightarrow> (nat \<Rightarrow> nat list) \<Rightarrow> nat \<Rightarrow> nat set \<Rightarrow> bool" where
  "static_claims N P cl c D \<longleftrightarrow> no_wrap N P \<and>
     (\<forall>r<P. cl r = map (\<lambda>k. r + k * P) [0..<length (cl r)] \<and> set (cl r) \<subseteq> {..<N} \<and>
       (r \<in> D \<longrightarrow> N \<le> r + length (cl r) * P))"

lemma stride_last:
  assumes "xs = map (\<lambda>k. r + k * P) [0..<length xs]" "xs \<noteq> []"
  shows "last xs = r + (length xs - 1) * P"
  using assms by (metis (no_types, lifting) diff_less last_conv_nth length_greater_0_conv
    add_0 nth_map_upt diff_zero zero_less_one)

lemma static_next:
  assumes "static_claims N P cl c D" "r < P"
  shows "nextTypedBlock StaticUniform N P r (last_block (cl r)) c
    = (if r + length (cl r) * P < N then r + length (cl r) * P else kNoBlock, c)"
proof (cases "cl r = []")
  case True
  then show ?thesis by (simp add: last_block_def Let_def)
next
  case False
  from assms have xs: "cl r = map (\<lambda>k. r + k * P) [0..<length (cl r)]"
    and N: "set (cl r) \<subseteq> {..<N}" and w: "N + P < 2 ^ 64"
    by (auto simp: static_claims_def no_wrap_def)
  have l: "last (cl r) = r + (length (cl r) - 1) * P" using xs False by (rule stride_last)
  have "last (cl r) < N" using False N by (auto dest: last_in_set)
  then have "last (cl r) \<noteq> kNoBlock" "last (cl r) + P < 2 ^ 64"
    using w by (auto simp: kNoBlock_eq)
  moreover have "last (cl r) + P = r + length (cl r) * P"
    using l False by (cases "length (cl r)") auto
  ultimately show ?thesis using False by (simp add: last_block_def Let_def)
qed

lemma static_claims_distinct:
  assumes "static_claims N P cl c D"
  shows "distinct (concat (map cl [0..<P]))"
proof (rule distinct_concat_rows)
  have P: "0 < P" using assms by (simp add: static_claims_def no_wrap_def)
  have rows: "cl r = map (\<lambda>k. r + k * P) [0..<length (cl r)]" if "r < P" for r
    using assms that by (auto simp: static_claims_def)
  show "distinct (cl r)" if "r < P" for r
    using P by (subst rows [OF that]) (simp add: distinct_map inj_on_def)
  have mods: "b mod P = r" if r: "r < P" and b: "b \<in> set (cl r)" for r b
  proof -
    from b have "b \<in> set (map (\<lambda>k. r + k * P) [0..<length (cl r)])" using rows [OF r] by simp
    then obtain k where "b = r + k * P" by auto
    then show ?thesis using r by simp
  qed
  show "set (cl q) \<inter> set (cl r) = {}" if "q < P" "r < P" "q \<noteq> r" for q r
    using mods that by blast
qed

lemma static_claims_complete:
  assumes "static_claims N P cl c {..<P}"
  shows "set (concat (map cl [0..<P])) = {..<N}"
proof
  show "set (concat (map cl [0..<P])) \<subseteq> {..<N}"
    using assms by (auto simp: static_claims_def set_concat_rows)
  show "{..<N} \<subseteq> set (concat (map cl [0..<P]))"
  proof
    fix b assume "b \<in> {..<N}"
    have P: "0 < P" using assms by (simp add: static_claims_def no_wrap_def)
    let ?r = "b mod P"
    have r: "?r < P" using P by simp
    with assms have rows: "cl ?r = map (\<lambda>k. ?r + k * P) [0..<length (cl ?r)]"
      and fin: "N \<le> ?r + length (cl ?r) * P" by (auto simp: static_claims_def)
    have b: "b = ?r + b div P * P" by simp
    moreover have "b < N" using \<open>b \<in> {..<N}\<close> by simp
    ultimately have "b div P * P < length (cl ?r) * P" using fin by linarith
    then have "b div P < length (cl ?r)" by (simp only: mult_less_cancel2)
    then have "b \<in> set (map (\<lambda>k. ?r + k * P) [0..<length (cl ?r)])"
      using b by (auto intro!: image_eqI [of _ _ "b div P"])
    then have "b \<in> set (cl ?r)" using rows by simp
    then show "b \<in> set (concat (map cl [0..<P]))" using r by (auto simp: set_concat_rows)
  qed
qed

interpretation static: block_claim False "nextTypedBlock StaticUniform" static_claims
proof
  fix N P cl c D r b c'
  show "static_claims N P (\<lambda>r. []) c {}" if "no_wrap N P"
    using that by (simp add: static_claims_def)
  show "distinct (concat (map cl [0..<P])) \<and> set (concat (map cl [0..<P])) \<subseteq> {..<N}"
    if "static_claims N P cl c D"
    using static_claims_distinct [OF that] that by (auto simp: static_claims_def set_concat_rows)
  show "set (concat (map cl [0..<P])) = {..<N}" if "static_claims N P cl c {..<P}"
    using that by (rule static_claims_complete)
  show "static_claims N P (cl(r := cl r @ [b])) c' D"
    if "static_claims N P cl c D" "r < P" "r \<notin> D"
      "nextTypedBlock StaticUniform N P r (last_block (cl r)) c = (b, c')" "b \<noteq> kNoBlock"
  proof -
    from that have b: "b = r + length (cl r) * P" "b < N"
      by (auto simp: static_next simp del: nextTypedBlock.simps split: if_splits)
    then show ?thesis using that(1-3) by (auto simp: static_claims_def)
  qed
  show "static_claims N P cl c' (insert r D)"
    if "static_claims N P cl c D" "r < P" "r \<notin> D"
      "nextTypedBlock StaticUniform N P r (last_block (cl r)) c = (kNoBlock, c')"
  proof -
    have "N \<le> kNoBlock" using that(1) by (auto simp: static_claims_def no_wrap_def kNoBlock_eq)
    with that have "N \<le> r + length (cl r) * P"
      by (auto simp: static_next simp del: nextTypedBlock.simps split: if_splits)
    then show ?thesis using that(1) by (auto simp: static_claims_def)
  qed
qed

subsection \<open>Dynamic counter\<close>

text \<open>
  Every rank that has claimed holds its own block first; the rest of what was handed out is the
  interval the counter has passed.
\<close>

definition dynamic_claims ::
  "nat \<Rightarrow> nat \<Rightarrow> (nat \<Rightarrow> nat list) \<Rightarrow> nat \<Rightarrow> nat set \<Rightarrow> bool" where
  "dynamic_claims N P cl c D \<longleftrightarrow> no_wrap N P \<and> finite D \<and>
     (P < N \<longrightarrow> P \<le> c \<and> c \<le> N + card D) \<and>
     (\<forall>r<P. cl r \<noteq> [] \<longrightarrow> r < N) \<and>
     (\<forall>r<P. r \<in> D \<longrightarrow> r < N \<longrightarrow> cl r \<noteq> []) \<and>
     (N \<le> P \<longrightarrow> (\<forall>r<P. cl r \<noteq> [] \<longrightarrow> cl r = [r])) \<and>
     (P < N \<longrightarrow> D \<noteq> {} \<longrightarrow> N \<le> c) \<and>
     mset (concat (map cl [0..<P]))
       = mset (filter (\<lambda>r. cl r \<noteq> []) [0..<P]) + mset [P..<min c N]"

lemma filter_claimed_first:
  assumes "r < P" "cl r = []"
  shows "mset (filter (\<lambda>q. (cl(r := [b])) q \<noteq> []) [0..<P])
    = add_mset r (mset (filter (\<lambda>q. cl q \<noteq> []) [0..<P]))"
proof -
  have "set (filter (\<lambda>q. (cl(r := [b])) q \<noteq> []) [0..<P])
      = set (r # filter (\<lambda>q. cl q \<noteq> []) [0..<P])"
    using assms by auto
  then have "mset (filter (\<lambda>q. (cl(r := [b])) q \<noteq> []) [0..<P])
      = mset (r # filter (\<lambda>q. cl q \<noteq> []) [0..<P])"
    using assms by (subst set_eq_iff_mset_eq_distinct [symmetric]) auto
  then show ?thesis by simp
qed

lemma filter_claimed_again:
  assumes "cl r \<noteq> []"
  shows "filter (\<lambda>q. (cl(r := cl r @ xs)) q \<noteq> []) ys = filter (\<lambda>q. cl q \<noteq> []) ys"
  using assms by (intro filter_cong) auto

lemma card_missing: "D \<subseteq> {..<P} \<Longrightarrow> r < P \<Longrightarrow> r \<notin> D \<Longrightarrow> card D < (P :: nat)"
  by (metis card_lessThan finite_lessThan lessThan_iff psubsetI psubset_card_mono)

lemma dynamic_step_block:
  assumes inv: "dynamic_claims N P cl c D" and r: "r < P" "r \<notin> D" "D \<subseteq> {..<P}"
    and nx: "nextTypedBlock DynamicChunked N P r (last_block (cl r)) c = (b, c')"
    and b: "b \<noteq> kNoBlock"
  shows "dynamic_claims N P (cl(r := cl r @ [b])) c' D"
proof -
  from inv have w: "no_wrap N P" "P < N \<longrightarrow> P \<le> c" "finite D"
    and lt: "\<forall>r<P. cl r \<noteq> [] \<longrightarrow> r < N" and small: "N \<le> P \<longrightarrow> (\<forall>r<P. cl r \<noteq> [] \<longrightarrow> cl r = [r])"
    and m: "mset (concat (map cl [0..<P]))
       = mset (filter (\<lambda>r. cl r \<noteq> []) [0..<P]) + mset [P..<min c N]"
    by (auto simp: dynamic_claims_def)
  have NB: "N < kNoBlock" using w(1) by (auto simp: no_wrap_def kNoBlock_eq)
  have isnb: "last_block (cl r) = kNoBlock \<longleftrightarrow> cl r = []"
  proof (cases "cl r = []")
    case False
    have "last (cl r) \<in> set (concat (map cl [0..<P]))"
      unfolding set_concat_rows using r(1) False by (intro UN_I [of r]) auto
    then have "last (cl r) \<in># mset (filter (\<lambda>r. cl r \<noteq> []) [0..<P]) + mset [P..<min c N]"
      unfolding m [symmetric] by (simp only: set_mset_mset)
    then have "last (cl r) < N" using lt by auto
    then show ?thesis using False NB by (simp add: last_block_def)
  qed (simp add: last_block_def)
  show ?thesis
  proof (cases "cl r = [] \<and> r < N")
    case True
    then have "b = r" "c' = c" using nx r isnb by auto
    have eq: "mset (concat (map (cl(r := cl r @ [b])) [0..<P]))
        = mset (filter (\<lambda>q. (cl(r := cl r @ [b])) q \<noteq> []) [0..<P]) + mset [P..<min c' N]"
    proof -
      have "mset (concat (map (cl(r := cl r @ [b])) [0..<P]))
          = mset (concat (map cl [0..<P])) + mset [b]" using r(1) by (rule mset_concat_update)
      also have "\<dots> = add_mset r (mset (filter (\<lambda>q. cl q \<noteq> []) [0..<P])) + mset [P..<min c' N]"
        using m \<open>b = r\<close> \<open>c' = c\<close> by (simp del: mset_filter mset_upt)
      also have "add_mset r (mset (filter (\<lambda>q. cl q \<noteq> []) [0..<P]))
          = mset (filter (\<lambda>q. (cl(r := cl r @ [b])) q \<noteq> []) [0..<P])"
        using True r(1) by (simp only: filter_claimed_first append_Nil)
      finally show ?thesis .
    qed
    show ?thesis
      unfolding dynamic_claims_def
    proof (intro conjI eq)
      show "\<forall>q<P. (cl(r := cl r @ [b])) q \<noteq> [] \<longrightarrow> q < N" using lt True by simp
      show "N \<le> P \<longrightarrow> (\<forall>q<P. (cl(r := cl r @ [b])) q \<noteq> [] \<longrightarrow> (cl(r := cl r @ [b])) q = [q])"
        using small True \<open>b = r\<close> by simp
    qed (use inv \<open>c' = c\<close> in \<open>auto simp: dynamic_claims_def\<close>)
  next
    case False
    then have not1: "\<not> (last_block (cl r) = kNoBlock \<and> r < N \<and> r < P)" using isnb by auto
    have "\<not> N \<le> P" using nx b not1 by (auto split: if_splits)
    then have big: "P < N" by simp
    have bc: "b = c" "c < N" "c' = w64 (c + 1)"
      using nx b not1 big by (auto split: if_splits)
    have ne: "cl r \<noteq> []" using False big r by auto
    have "D = {}" using inv big bc(2) by (auto simp: dynamic_claims_def)
    have "c + 1 < 2 ^ 64" using bc(2) w(1) by (simp add: no_wrap_def)
    then have c': "c' = Suc c" using bc(3) by simp
    have up: "mset [P..<min (Suc c) N] = mset [P..<min c N] + {#c#}"
      using bc(2) w(2) big by (simp add: min_def upt_Suc_append)
    have "mset (concat (map (cl(r := cl r @ [b])) [0..<P]))
        = mset (filter (\<lambda>q. (cl(r := cl r @ [b])) q \<noteq> []) [0..<P]) + mset [P..<min c' N]"
      unfolding mset_concat_update [OF r(1)] filter_claimed_again [of cl r, OF ne] m c' up bc(1) by simp
    then show ?thesis
      unfolding dynamic_claims_def
    proof (intro conjI)
      show "\<forall>q<P. (cl(r := cl r @ [b])) q \<noteq> [] \<longrightarrow> q < N" using lt ne by simp
      show "P < N \<longrightarrow> P \<le> c' \<and> c' \<le> N + card D" using bc c' w(2) by auto
    qed (use inv big \<open>D = {}\<close> in \<open>auto simp: dynamic_claims_def\<close>)
  qed
qed

lemma dynamic_step_none:
  assumes inv: "dynamic_claims N P cl c D" and r: "r < P" "r \<notin> D" "D \<subseteq> {..<P}"
    and nx: "nextTypedBlock DynamicChunked N P r (last_block (cl r)) c = (kNoBlock, c')"
  shows "dynamic_claims N P cl c' (insert r D)"
proof -
  from inv have w: "no_wrap N P" "P < N \<longrightarrow> P \<le> c" "P < N \<longrightarrow> c \<le> N + card D" "finite D"
    by (auto simp: dynamic_claims_def)
  have NB: "N < kNoBlock" using w(1) by (auto simp: no_wrap_def kNoBlock_eq)
  have ne: "r < N \<Longrightarrow> cl r \<noteq> []"
    using nx r NB by (auto simp: last_block_def split: if_splits)
  show ?thesis
  proof (cases "N \<le> P")
    case True
    then have "c' = c" using nx NB by (auto split: if_splits)
    with True inv ne r show ?thesis by (auto simp: dynamic_claims_def card_insert_if)
  next
    case False
    then have not1: "\<not> (last_block (cl r) = kNoBlock \<and> r < N \<and> r < P)"
      using nx NB by (auto split: if_splits)
    then have cN: "N \<le> c" "c' = w64 (c + 1)" using nx False NB by (auto split: if_splits)
    have "c + 1 \<le> N + P" using w(3) False card_missing [OF r(3) r(1) r(2)] by simp
    then have "c' = Suc c" using cN(2) w(1) by (simp add: no_wrap_def)
    moreover have "min (Suc c) N = N" "min c N = N" using cN(1) by simp_all
    ultimately show ?thesis
      using inv False ne r cN by (auto simp: dynamic_claims_def card_insert_if)
  qed
qed

lemma dynamic_claims_elems:
  assumes "dynamic_claims N P cl c D"
  shows "set (concat (map cl [0..<P])) = {r. r < P \<and> cl r \<noteq> []} \<union> {P..<min c N}"
proof -
  have "set_mset (mset (concat (map cl [0..<P])))
      = set_mset (mset (filter (\<lambda>r. cl r \<noteq> []) [0..<P]) + mset [P..<min c N])"
    using assms by (simp add: dynamic_claims_def)
  then show ?thesis by (auto simp del: map_eq_conv)
qed

lemma dynamic_claims_complete:
  assumes inv: "dynamic_claims N P cl c {..<P}"
  shows "set (concat (map cl [0..<P])) = {..<N}"
proof -
  from inv have P: "0 < P" and own: "\<forall>r<P. r < N \<longrightarrow> cl r \<noteq> []"
    and lt: "\<forall>r<P. cl r \<noteq> [] \<longrightarrow> r < N" and "P < N \<longrightarrow> {..<P} \<noteq> {} \<longrightarrow> N \<le> c"
    by (simp_all add: dynamic_claims_def no_wrap_def)
  then have "P < N \<longrightarrow> N \<le> c" by blast
  moreover have "{r. r < P \<and> cl r \<noteq> []} = {..<min P N}" using own lt by auto
  ultimately show ?thesis
    unfolding dynamic_claims_elems [OF inv]
    by (cases "P < N") (simp_all add: min_def ivl_disj_un atLeast0LessThan [symmetric])
qed

interpretation dynamic: block_claim True "nextTypedBlock DynamicChunked" dynamic_claims
proof
  fix N P cl c D r b c'
  show "dynamic_claims N P (\<lambda>r. []) c {}" if "no_wrap N P" "True \<Longrightarrow> P < N \<Longrightarrow> c = P"
    using that by (cases "P < N") (auto simp: dynamic_claims_def)
  show "dynamic_claims N P (cl(r := cl r @ [b])) c' D"
    if "dynamic_claims N P cl c D" "r < P" "r \<notin> D" "D \<subseteq> {..<P}"
      "nextTypedBlock DynamicChunked N P r (last_block (cl r)) c = (b, c')" "b \<noteq> kNoBlock"
    using that by (rule dynamic_step_block)
  show "dynamic_claims N P cl c' (insert r D)"
    if "dynamic_claims N P cl c D" "r < P" "r \<notin> D" "D \<subseteq> {..<P}"
      "nextTypedBlock DynamicChunked N P r (last_block (cl r)) c = (kNoBlock, c')"
    using that by (rule dynamic_step_none)
  show "distinct (concat (map cl [0..<P])) \<and> set (concat (map cl [0..<P])) \<subseteq> {..<N}"
    if "dynamic_claims N P cl c D"
  proof
    from that have "mset (concat (map cl [0..<P]))
        = mset (filter (\<lambda>r. cl r \<noteq> []) [0..<P] @ [P..<min c N])"
      by (simp add: dynamic_claims_def)
    moreover have "distinct (filter (\<lambda>r. cl r \<noteq> []) [0..<P] @ [P..<min c N])" by auto
    ultimately show "distinct (concat (map cl [0..<P]))"
      using mset_eq_imp_distinct_iff by blast
    show "set (concat (map cl [0..<P])) \<subseteq> {..<N}"
      using that unfolding dynamic_claims_elems [OF that] by (auto simp: dynamic_claims_def)
  qed
  show "set (concat (map cl [0..<P])) = {..<N}" if "dynamic_claims N P cl c {..<P}"
    using that by (rule dynamic_claims_complete)
qed

subsection \<open>The single-block path agrees with the loop\<close>

lemma hintedNext_static:
  assumes "static_claims N P cl c D" "r < P"
  shows "hintedNext StaticUniform N P r (last_block (cl r)) c
    = nextTypedBlock StaticUniform N P r (last_block (cl r)) c"
proof (cases "N \<le> P")
  case True
  have "cl r \<noteq> [] \<Longrightarrow> last (cl r) < kNoBlock"
    using assms by (auto simp: static_claims_def no_wrap_def kNoBlock_eq dest!: last_in_set)
      force
  moreover have "cl r \<noteq> [] \<Longrightarrow> P \<le> length (cl r) * P" by (cases "cl r") auto
  then have "cl r \<noteq> [] \<Longrightarrow> \<not> r + length (cl r) * P < N" using True by linarith
  ultimately show ?thesis
    unfolding static_next [OF assms]
    using True assms by (cases "cl r = []")
      (auto simp: hintedNext_def singleRankNext_def last_block_def)
qed (simp add: hintedNext_def)

lemma hintedNext_dynamic:
  assumes "dynamic_claims N P cl c D" "r < P"
  shows "hintedNext DynamicChunked N P r (last_block (cl r)) c
    = nextTypedBlock DynamicChunked N P r (last_block (cl r)) c"
proof (cases "N \<le> P")
  case True
  then have "cl r \<noteq> [] \<Longrightarrow> cl r = [r]" using assms by (auto simp: dynamic_claims_def)
  then have "cl r = [] \<or> cl r = [r]" by blast
  moreover have "cl r \<noteq> [] \<Longrightarrow> r < kNoBlock"
    using assms by (auto simp: dynamic_claims_def no_wrap_def kNoBlock_eq)
  ultimately show ?thesis
    using True assms(2) by (auto simp: hintedNext_def singleRankNext_def last_block_def)
qed (simp add: hintedNext_def)

interpretation hinted_static: block_claim False "hintedNext StaticUniform" static_claims
  by (rule static.transfer) (rule hintedNext_static)

interpretation hinted_dynamic: block_claim True "hintedNext DynamicChunked" dynamic_claims
  by (rule dynamic.transfer) (rule hintedNext_dynamic)

subsection \<open>Contiguous spans\<close>

definition span_begin :: "nat \<Rightarrow> nat \<Rightarrow> nat \<Rightarrow> nat" where
  "span_begin N P r = r * (N div P) + min r (N mod P)"

lemma span_begin_mono: "r \<le> q \<Longrightarrow> span_begin N P r \<le> span_begin N P q"
  by (auto simp: span_begin_def intro!: add_mono mult_le_mono1)

lemma span_begin_last: "0 < P \<Longrightarrow> span_begin N P P = N"
  using mod_less_divisor [of P N] by (simp add: span_begin_def)

lemma span_begin_Suc:
  "span_begin N P (Suc r) = span_begin N P r + N div P + (if r < N mod P then 1 else 0)"
  by (auto simp: span_begin_def)

lemma contiguousRankBlockSpan_eq:
  assumes "no_wrap N P" "r < P"
  shows "contiguousRankBlockSpan N P r = (span_begin N P r, span_begin N P (Suc r))"
proof -
  have "0 < P" "N < 2 ^ 64" using assms by (auto simp: no_wrap_def)
  moreover have "span_begin N P (Suc r) \<le> N"
    using span_begin_mono [of "Suc r" P N P] assms(2) span_begin_last [OF \<open>0 < P\<close>, of N] by simp
  moreover have "span_begin N P r \<le> N"
    using span_begin_mono [of r P N P] assms(2) span_begin_last [OF \<open>0 < P\<close>, of N] by simp
  ultimately have b: "span_begin N P r < 2 ^ 64" "span_begin N P (Suc r) < 2 ^ 64" by auto
  then have "r * (N div P) < 2 ^ 64" by (simp add: span_begin_def)
  with b(1) have one: "w64 (w64 (r * (N div P)) + min r (N mod P)) = span_begin N P r"
    by (simp add: span_begin_def)
  have two: "w64 (span_begin N P r + N div P + (if r < N mod P then 1 else 0))
      = span_begin N P (Suc r)"
    using b(2) by (simp only: span_begin_Suc w64_id)
  show ?thesis
    using assms(2) by (simp add: contiguousRankBlockSpan_def Let_def one two del: w64_id)
qed

definition contiguous_claims ::
  "nat \<Rightarrow> nat \<Rightarrow> (nat \<Rightarrow> nat list) \<Rightarrow> nat \<Rightarrow> nat set \<Rightarrow> bool" where
  "contiguous_claims N P cl c D \<longleftrightarrow> no_wrap N P \<and>
     (\<forall>r<P. cl r = [span_begin N P r..<span_begin N P r + length (cl r)] \<and>
       span_begin N P r + length (cl r) \<le> span_begin N P (Suc r) \<and>
       (r \<in> D \<longrightarrow> span_begin N P (Suc r) \<le> span_begin N P r + length (cl r)))"

lemma contiguous_next:
  assumes "contiguous_claims N P cl c D" "r < P"
  shows "contiguousNext N P r (last_block (cl r)) c
    = (let b = span_begin N P r + length (cl r)
       in (if b < span_begin N P (Suc r) then b else kNoBlock, c))"
proof -
  from assms have w: "no_wrap N P"
    and cl: "cl r = [span_begin N P r..<span_begin N P r + length (cl r)]"
    and le: "span_begin N P r + length (cl r) \<le> span_begin N P (Suc r)"
    by (auto simp: contiguous_claims_def)
  have "span_begin N P (Suc r) \<le> N"
    using span_begin_mono [of "Suc r" P N P] assms(2) w span_begin_last [of P N]
    by (simp add: no_wrap_def)
  with le w have small: "span_begin N P r + length (cl r) < 2 ^ 64 - 1"
    by (auto simp: no_wrap_def)
  show ?thesis
  proof (cases "cl r = []")
    case True
    then show ?thesis
      using w assms(2) by (simp add: contiguousNext_def contiguousRankBlockSpan_eq last_block_def)
  next
    case False
    have "last (cl r) = span_begin N P r + length (cl r) - 1"
      by (subst cl) (use False in simp)
    then have "Suc (last (cl r)) = span_begin N P r + length (cl r)" using False by simp
    moreover from this small have "last (cl r) \<noteq> kNoBlock" "Suc (last (cl r)) < 2 ^ 64"
      by (auto simp: kNoBlock_eq)
    ultimately show ?thesis
      using w assms(2) False
      by (simp add: contiguousNext_def contiguousRankBlockSpan_eq last_block_def)
  qed
qed

lemma contiguous_rows:
  assumes "contiguous_claims N P cl c D" "r < P"
  shows "set (cl r) = {span_begin N P r..<span_begin N P r + length (cl r)}" "distinct (cl r)"
    and "set (cl r) \<subseteq> {span_begin N P r..<span_begin N P (Suc r)}"
proof -
  from assms have cl: "cl r = [span_begin N P r..<span_begin N P r + length (cl r)]"
    and le: "span_begin N P r + length (cl r) \<le> span_begin N P (Suc r)"
    by (auto simp: contiguous_claims_def)
  show "set (cl r) = {span_begin N P r..<span_begin N P r + length (cl r)}"
    using cl by (metis set_upt)
  with le show "set (cl r) \<subseteq> {span_begin N P r..<span_begin N P (Suc r)}" by simp
  show "distinct (cl r)" using cl by (metis distinct_upt)
qed

lemma contiguous_disjoint:
  assumes "contiguous_claims N P cl c D" "q < P" "r < P" "q < r"
  shows "set (cl q) \<inter> set (cl r) = {}"
proof -
  have "span_begin N P (Suc q) \<le> span_begin N P r" using assms(4) by (simp add: span_begin_mono)
  then show ?thesis
    using contiguous_rows(3) [OF assms(1,2)] contiguous_rows(3) [OF assms(1,3)] by fastforce
qed

lemma contiguous_claims_distinct:
  assumes "contiguous_claims N P cl c D"
  shows "distinct (concat (map cl [0..<P]))"
proof (rule distinct_concat_rows)
  show "distinct (cl r)" if "r < P" for r using assms that by (rule contiguous_rows)
  show "set (cl q) \<inter> set (cl r) = {}" if "q < P" "r < P" "q \<noteq> r" for q r
    using contiguous_disjoint [OF assms] that by (metis Int_commute linorder_neq_iff)
qed

lemma contiguous_claims_complete:
  assumes "contiguous_claims N P cl c {..<P}"
  shows "set (concat (map cl [0..<P])) = {..<N}"
proof -
  have P: "0 < P" using assms by (simp add: contiguous_claims_def no_wrap_def)
  have "cl r = [span_begin N P r..<span_begin N P (Suc r)]" if "r < P" for r
    using assms that by (metis contiguous_claims_def le_antisym lessThan_iff)
  then have "concat (map cl [0..<P])
      = concat (map (\<lambda>r. [span_begin N P r..<span_begin N P (Suc r)]) [0..<P])"
    by (intro arg_cong [of _ _ concat] map_cong) auto
  also have "\<dots> = [span_begin N P 0..<span_begin N P P]"
    by (rule concat_intervals) (simp add: span_begin_mono)
  also have "\<dots> = [0..<N]" by (simp add: span_begin_last [OF P] span_begin_def [of N P 0])
  finally show ?thesis by (metis atLeast0LessThan set_upt)
qed

interpretation contiguous: block_claim False contiguousNext contiguous_claims
proof
  fix N P cl c D r b c'
  show "contiguous_claims N P (\<lambda>r. []) c {}" if "no_wrap N P"
    using that by (simp add: contiguous_claims_def span_begin_mono)
  show "distinct (concat (map cl [0..<P])) \<and> set (concat (map cl [0..<P])) \<subseteq> {..<N}"
    if c: "contiguous_claims N P cl c D"
  proof (intro conjI contiguous_claims_distinct [OF c])
    have "set (cl r) \<subseteq> {..<N}" if "r < P" for r
      using contiguous_rows(3) [OF c that] span_begin_mono [of "Suc r" P N P] that
        span_begin_last [of P N] by fastforce
    then show "set (concat (map cl [0..<P])) \<subseteq> {..<N}"
      unfolding set_concat_rows by (intro UN_least) simp
  qed
  show "set (concat (map cl [0..<P])) = {..<N}" if "contiguous_claims N P cl c {..<P}"
    using that by (rule contiguous_claims_complete)
  show "contiguous_claims N P (cl(r := cl r @ [b])) c' D"
    if "contiguous_claims N P cl c D" "r < P" "r \<notin> D"
      "contiguousNext N P r (last_block (cl r)) c = (b, c')" "b \<noteq> kNoBlock"
  proof -
    have "b = span_begin N P r + length (cl r)" "b < span_begin N P (Suc r)"
      using that(4,5) contiguous_next [OF that(1,2)] by (auto simp: Let_def split: if_splits)
    then show ?thesis using that(1-3) by (auto simp: contiguous_claims_def)
  qed
  show "contiguous_claims N P cl c' (insert r D)"
    if "contiguous_claims N P cl c D" "r < P" "r \<notin> D"
      "contiguousNext N P r (last_block (cl r)) c = (kNoBlock, c')"
  proof -
    have "span_begin N P (Suc r) \<le> N" "0 < P" "N < 2 ^ 64 - 1"
      using that(1,2) span_begin_mono [of "Suc r" P N P] span_begin_last [of P N]
      by (auto simp: contiguous_claims_def no_wrap_def)
    then have "span_begin N P (Suc r) < kNoBlock" by (simp add: kNoBlock_eq)
    then have "span_begin N P (Suc r) \<le> span_begin N P r + length (cl r)"
      using that(4) contiguous_next [OF that(1,2)] by (auto simp: Let_def split: if_splits)
    then show ?thesis using that(1) by (auto simp: contiguous_claims_def)
  qed
qed

end
