(* ===== verification/Engine.thy ===== *)
theory Engine
  imports Partition
begin

text \<open>
  The block loop of \<open>dispatch_static.h\<close> as a transition system: \<open>participants\<close> threads share one
  descriptor and a cancellation token, every step is one atomic operation of one thread (or a
  stop request from outside), and the body's outcome is part of the action. The history fields
  record what each rank claimed, ran and threw; the code does not read them.
\<close>

section \<open>State\<close>

datatype ploc =
    EntryExc               \<comment> \<open>the exception probe before the loop (contiguous runner)\<close>
  | ClaimNext nat          \<comment> \<open>about to call \<open>next\<close> with this \<open>prevIdx\<close>\<close>
  | CheckExc nat           \<comment> \<open>about to load \<open>firstException\<close> for this block\<close>
  | CheckTok nat           \<comment> \<open>about to poll the token for this block\<close>
  | RunBody nat            \<comment> \<open>about to call the body on this block\<close>
  | Capture nat            \<comment> \<open>in the handler, about to install this exception\<close>
  | StoreWorkerId          \<comment> \<open>installed, about to store the rank\<close>
  | Finished

datatype pact = PStep nat "nat option" | PRequestStop

record pcfg =
  pc_next :: "nat \<Rightarrow> nat \<Rightarrow> nat \<Rightarrow> nat \<Rightarrow> nat \<Rightarrow> nat \<times> nat"
  pc_shared :: bool       \<comment> \<open>the policy draws from the shared counter\<close>
  pc_entryExc :: bool     \<comment> \<open>probe \<open>firstException\<close> once, before the loop\<close>
  pc_checkExc :: bool     \<comment> \<open>probe \<open>firstException\<close> before each block\<close>
  pc_checkTok :: bool     \<comment> \<open>poll the token before each block\<close>
  pc_nothrow :: bool      \<comment> \<open>the body is nothrow-invocable\<close>

record part =
  pt_job :: job
  pt_tokens :: token_heap
  pt_pc :: "nat \<Rightarrow> ploc"
  pt_claimed :: "nat \<Rightarrow> nat list"
  pt_ran :: "nat \<Rightarrow> nat list"
  pt_drained :: "nat \<Rightarrow> bool"
  pt_threw :: "nat \<Rightarrow> nat option"
  pt_winner :: "nat option"

definition goto :: "part \<Rightarrow> nat \<Rightarrow> ploc \<Rightarrow> part" where
  "goto s r l = s\<lparr> pt_pc := (pt_pc s)(r := l) \<rparr>"

definition entry_loc :: "pcfg \<Rightarrow> ploc" where
  "entry_loc cfg = (if pc_entryExc cfg then EntryExc else ClaimNext kNoBlock)"

definition loc_tok :: "pcfg \<Rightarrow> nat \<Rightarrow> ploc" where
  "loc_tok cfg b = (if pc_checkTok cfg then CheckTok b else RunBody b)"

definition loc_claimed :: "pcfg \<Rightarrow> nat \<Rightarrow> ploc" where
  "loc_claimed cfg b = (if pc_checkExc cfg then CheckExc b else loc_tok cfg b)"

section \<open>Steps\<close>

text \<open>\<open>blockId = next(...)\<close>: an answer of \<open>kNoBlock\<close> leaves the loop.\<close>

definition claim_step :: "pcfg \<Rightarrow> part \<Rightarrow> nat \<Rightarrow> nat \<Rightarrow> part" where
  "claim_step cfg s r prev =
     (let j = pt_job s;
          (b, c') = pc_next cfg (jd_blockCount j) (jd_participants j) r prev (jd_nextBlock j);
          s' = s\<lparr> pt_job := j\<lparr> jd_nextBlock := c' \<rparr> \<rparr>
      in if b = kNoBlock
         then goto (s'\<lparr> pt_drained := (pt_drained s)(r := True) \<rparr>) r Finished
         else goto (s'\<lparr> pt_claimed := (pt_claimed s)(r := pt_claimed s r @ [b]) \<rparr>) r
                (loc_claimed cfg b))"

text \<open>The body call: a return goes on with the loop, a throw enters the handler.\<close>

definition body_step :: "pcfg \<Rightarrow> part \<Rightarrow> nat \<Rightarrow> nat \<Rightarrow> nat option \<Rightarrow> part option" where
  "body_step cfg s r b out =
     (let s' = s\<lparr> pt_ran := (pt_ran s)(r := pt_ran s r @ [b]) \<rparr>
      in case out of None \<Rightarrow> Some (goto s' r (ClaimNext b))
         | Some e \<Rightarrow> if pc_nothrow cfg then None
             else Some (goto (s'\<lparr> pt_threw := (pt_threw s)(r := Some e) \<rparr>) r (Capture e)))"

text \<open>\<open>firstException.compare_exchange_strong(nullptr, eptr)\<close>; a loser deletes its pointer.\<close>

definition capture_step :: "part \<Rightarrow> nat \<Rightarrow> nat \<Rightarrow> part" where
  "capture_step s r e =
     (let j = pt_job s
      in case jd_firstException j of
           None \<Rightarrow> goto (s\<lparr> pt_job := j\<lparr> jd_firstException := Some e \<rparr>, pt_winner := Some r \<rparr>)
                     r StoreWorkerId
         | Some _ \<Rightarrow> goto s r Finished)"

definition thread_step :: "pcfg \<Rightarrow> part \<Rightarrow> nat \<Rightarrow> nat option \<Rightarrow> part option" where
  "thread_step cfg s r out =
     (let j = pt_job s
      in case pt_pc s r of
        EntryExc \<Rightarrow> if out \<noteq> None then None
          else Some (goto s r (if jd_firstException j \<noteq> None then Finished else ClaimNext kNoBlock))
      | ClaimNext prev \<Rightarrow> if out \<noteq> None then None else Some (claim_step cfg s r prev)
      | CheckExc b \<Rightarrow> if out \<noteq> None then None
          else Some (goto s r (if jd_firstException j \<noteq> None then Finished else loc_tok cfg b))
      | CheckTok b \<Rightarrow> if out \<noteq> None then None
          else Some (goto s r
            (if stop_requested (pt_tokens s) (jd_token j) then Finished else RunBody b))
      | RunBody b \<Rightarrow> body_step cfg s r b out
      | Capture e \<Rightarrow> if out \<noteq> None then None else Some (capture_step s r e)
      | StoreWorkerId \<Rightarrow> if out \<noteq> None then None
          else Some (goto (s\<lparr> pt_job := j\<lparr> jd_exceptionWorkerId := r \<rparr> \<rparr>) r Finished)
      | Finished \<Rightarrow> None)"

fun part_step :: "pcfg \<Rightarrow> part \<Rightarrow> pact \<Rightarrow> part option" where
  "part_step cfg s (PStep r out) =
     (if r < jd_participants (pt_job s) then thread_step cfg s r out else None)"
| "part_step cfg s PRequestStop =
     (case request_stop (pt_tokens s) (jd_token (pt_job s)) of
        (True, h) \<Rightarrow> Some (s\<lparr> pt_tokens := h \<rparr>)
      | (False, _) \<Rightarrow> None)"

text \<open>Every rank enters its runner; nothing has been claimed.\<close>

definition part_start :: "pcfg \<Rightarrow> job \<Rightarrow> token_heap \<Rightarrow> part" where
  "part_start cfg j h = \<lparr> pt_job = j, pt_tokens = h, pt_pc = (\<lambda>r. entry_loc cfg),
     pt_claimed = (\<lambda>r. []), pt_ran = (\<lambda>r. []), pt_drained = (\<lambda>r. False),
     pt_threw = (\<lambda>r. None), pt_winner = None \<rparr>"

definition part_final :: "part \<Rightarrow> bool" where
  "part_final s \<longleftrightarrow> (\<forall>r<jd_participants (pt_job s). pt_pc s r = Finished)"

section \<open>The runners of the code\<close>

definition runPartition :: "Balance \<Rightarrow> pcfg" where
  "runPartition B = \<lparr> pc_next = nextTypedBlock B,
     pc_shared = (B = DynamicChunked), pc_entryExc = False, pc_checkExc = True,
     pc_checkTok = True, pc_nothrow = False \<rparr>"

text \<open>\<open>runPartitionTyped\<close> calls \<open>fn\<close> directly; its loop is the untyped one.\<close>

definition runPartitionTyped :: "Balance \<Rightarrow> pcfg" where
  "runPartitionTyped B = runPartition B"

text \<open>
  \<open>runPartitionTypedHinted\<close> (and the loop of \<open>typedWorkerEntry\<close>): the exception probe and the
  handler exist only for a throwing body, the token poll only with active cancellation.
\<close>

definition runPartitionTypedHinted :: "Balance \<Rightarrow> bool \<Rightarrow> bool \<Rightarrow> pcfg" where
  "runPartitionTypedHinted B cancellationActive bodyNoexcept =
     \<lparr> pc_next = hintedNext B, pc_shared = (B = DynamicChunked), pc_entryExc = False, pc_checkExc = \<not> bodyNoexcept,
       pc_checkTok = cancellationActive, pc_nothrow = bodyNoexcept \<rparr>"

text \<open>\<open>runContiguousRankPartitionTypedCached\<close>: one exception probe before the span.\<close>

definition runContiguousRankPartitionTypedCached :: "bool \<Rightarrow> bool \<Rightarrow> pcfg" where
  "runContiguousRankPartitionTypedCached cancellationActive bodyNoexcept =
     \<lparr> pc_next = contiguousNext, pc_shared = False, pc_entryExc = \<not> bodyNoexcept, pc_checkExc = False,
       pc_checkTok = cancellationActive, pc_nothrow = bodyNoexcept \<rparr>"

lemmas runner_defs = runPartition_def runPartitionTyped_def runPartitionTypedHinted_def
  runContiguousRankPartitionTypedCached_def

lemmas [step_defs] = thread_step_def claim_step_def body_step_def capture_step_def goto_def
  loc_claimed_def loc_tok_def

section \<open>The immutable part of the descriptor\<close>

definition same_shape :: "job \<Rightarrow> job \<Rightarrow> bool" where
  "same_shape j k \<longleftrightarrow> k\<lparr> jd_firstException := jd_firstException j,
     jd_exceptionWorkerId := jd_exceptionWorkerId j, jd_nextBlock := jd_nextBlock j \<rparr> = j"

lemma goto_simps [simp]:
  "pt_job (goto s r l) = pt_job s" "pt_tokens (goto s r l) = pt_tokens s"
  "pt_pc (goto s r l) = (pt_pc s)(r := l)" "pt_claimed (goto s r l) = pt_claimed s"
  "pt_ran (goto s r l) = pt_ran s" "pt_drained (goto s r l) = pt_drained s"
  "pt_threw (goto s r l) = pt_threw s" "pt_winner (goto s r l) = pt_winner s"
  by (simp_all add: goto_def)

lemma thread_step_shape:
  "thread_step cfg s r out = Some t \<Longrightarrow> same_shape (pt_job s) (pt_job t)"
  by (auto simp: thread_step_def claim_step_def body_step_def capture_step_def same_shape_def
      Let_def split: ploc.splits option.splits if_splits prod.splits)

lemma part_step_shape: "part_step cfg s a = Some t \<Longrightarrow> same_shape (pt_job s) (pt_job t)"
  by (cases a)
    (auto dest: thread_step_shape simp: same_shape_def split: if_splits prod.splits bool.splits)

lemma same_shape_simps:
  assumes "same_shape j k"
  shows "jd_participants k = jd_participants j" "jd_blockCount k = jd_blockCount j"
    "jd_chunk k = jd_chunk j" "jd_first k = jd_first j" "jd_last k = jd_last j"
    "jd_token k = jd_token j" "block_lo k = block_lo j" "block_hi k = block_hi j"
  using assms by (cases j; cases k; auto simp: same_shape_def block_lo_def block_hi_def)+

lemma same_shape_refl [simp]: "same_shape j j"
  by (simp add: same_shape_def)

lemma same_shape_trans: "same_shape i j \<Longrightarrow> same_shape j k \<Longrightarrow> same_shape i k"
  by (cases i; cases j; cases k) (auto simp: same_shape_def)

lemma run_shape: "run (part_step cfg) s as = Some t \<Longrightarrow> same_shape (pt_job s) (pt_job t)"
proof (induction as arbitrary: s)
  case (Cons a as)
  then obtain u where "part_step cfg s a = Some u" "run (part_step cfg) u as = Some t"
    by (auto split: option.splits)
  then show ?case using Cons.IH part_step_shape same_shape_trans by blast
qed simp

text \<open>A stop request stays visible, and so does a captured exception.\<close>

definition stopped :: "part \<Rightarrow> bool" where
  "stopped s = stop_requested (pt_tokens s) (jd_token (pt_job s))"

definition failed :: "part \<Rightarrow> bool" where
  "failed s = (jd_firstException (pt_job s) \<noteq> None)"

lemma thread_step_sticky:
  assumes "thread_step cfg s r out = Some t"
  shows "stopped t = stopped s" "failed s \<Longrightarrow> failed t" "pt_tokens t = pt_tokens s"
    "\<And>q. q \<noteq> r \<Longrightarrow> pt_pc t q = pt_pc s q \<and> pt_claimed t q = pt_claimed s q \<and>
      pt_ran t q = pt_ran s q \<and> pt_drained t q = pt_drained s q \<and> pt_threw t q = pt_threw s q"
  using assms
  by (auto simp: thread_step_def claim_step_def body_step_def capture_step_def stopped_def
      failed_def Let_def split: ploc.splits option.splits if_splits prod.splits)

section \<open>The claim invariant\<close>

definition claim_ok :: "part \<Rightarrow> nat \<Rightarrow> bool" where
  "claim_ok s r = (case pt_pc s r of
       EntryExc \<Rightarrow> pt_claimed s r = [] \<and> pt_ran s r = [] \<and> \<not> pt_drained s r
     | ClaimNext prev \<Rightarrow> pt_claimed s r = pt_ran s r \<and> prev = last_block (pt_ran s r)
         \<and> \<not> pt_drained s r
     | CheckExc b \<Rightarrow> pt_claimed s r = pt_ran s r @ [b] \<and> \<not> pt_drained s r
     | CheckTok b \<Rightarrow> pt_claimed s r = pt_ran s r @ [b] \<and> \<not> pt_drained s r
     | RunBody b \<Rightarrow> pt_claimed s r = pt_ran s r @ [b] \<and> \<not> pt_drained s r
     | Capture e \<Rightarrow> pt_claimed s r = pt_ran s r \<and> \<not> pt_drained s r
     | StoreWorkerId \<Rightarrow> pt_claimed s r = pt_ran s r \<and> \<not> pt_drained s r \<and> failed s
     | Finished \<Rightarrow> (pt_drained s r \<and> pt_claimed s r = pt_ran s r) \<or>
         ((\<exists>bs. pt_claimed s r = pt_ran s r @ bs) \<and> (failed s \<or> stopped s)))"

definition drained_set :: "part \<Rightarrow> nat set" where
  "drained_set s = {r. r < jd_participants (pt_job s) \<and> pt_drained s r}"

definition part_inv ::
  "(nat \<Rightarrow> nat \<Rightarrow> (nat \<Rightarrow> nat list) \<Rightarrow> nat \<Rightarrow> nat set \<Rightarrow> bool) \<Rightarrow> part \<Rightarrow> bool" where
  "part_inv I s \<longleftrightarrow> valid_token (pt_tokens s) (jd_token (pt_job s)) \<and>
     I (jd_blockCount (pt_job s)) (jd_participants (pt_job s)) (pt_claimed s)
       (jd_nextBlock (pt_job s)) (drained_set s) \<and>
     (\<forall>r<jd_participants (pt_job s). claim_ok s r)"

text \<open>
  The dispatcher publishes with no captured exception and, for the dynamic balance with more
  blocks than ranks, the counter at \<open>participants\<close>.
\<close>

definition part_init :: "pcfg \<Rightarrow> part \<Rightarrow> bool" where
  "part_init cfg s \<longleftrightarrow> (\<exists>j h. s = part_start cfg j h \<and> jd_firstException j = None \<and>
     valid_token h (jd_token j) \<and>
     (pc_shared cfg \<longrightarrow> jd_participants j < jd_blockCount j \<longrightarrow>
       jd_nextBlock j = jd_participants j) \<and>
     no_wrap (jd_blockCount j) (jd_participants j))"

definition loc_weight :: "ploc \<Rightarrow> nat" where
  "loc_weight l = (case l of EntryExc \<Rightarrow> 2 | ClaimNext p \<Rightarrow> 1 | CheckExc b \<Rightarrow> 6 | CheckTok b \<Rightarrow> 5
     | RunBody b \<Rightarrow> 4 | Capture e \<Rightarrow> 2 | StoreWorkerId \<Rightarrow> 1 | Finished \<Rightarrow> 0)"

text \<open>Six steps per block that can still be claimed, the steps in flight, one stop request.\<close>

definition part_fuel :: "part \<Rightarrow> nat" where
  "part_fuel s = 6 * (jd_blockCount (pt_job s)
       - (\<Sum>r<jd_participants (pt_job s). length (pt_claimed s r)))
     + (\<Sum>r<jd_participants (pt_job s). loc_weight (pt_pc s r)) + (if stopped s then 0 else 1)"

lemma claim_ok_other:
  assumes "thread_step cfg s r out = Some t" "q \<noteq> r" "claim_ok s q"
  shows "claim_ok t q"
  using thread_step_sticky [OF assms(1)] assms(2,3)
  by (auto simp: claim_ok_def split: ploc.splits)

lemma claim_ok_self:
  assumes "thread_step cfg s r out = Some t" "claim_ok s r"
  shows "claim_ok t r"
  using assms
  by (cases "pt_pc s r")
    (auto simp: step_defs claim_ok_def failed_def stopped_def last_block_def Let_def
      split: option.splits if_splits prod.splits)

lemma sum_change:
  fixes f g :: "nat \<Rightarrow> nat"
  assumes "r < n" "\<And>q. q \<noteq> r \<Longrightarrow> g q = f q"
  shows "(\<Sum>q<n. g q) + f r = (\<Sum>q<n. f q) + g r"
proof -
  have "(\<Sum>q<n. g q) = (\<Sum>q\<in>{..<n} - {r}. g q) + g r"
    using assms(1) by (simp add: sum.remove [of _ r])
  moreover have "(\<Sum>q<n. f q) = (\<Sum>q\<in>{..<n} - {r}. f q) + f r"
    using assms(1) by (simp add: sum.remove [of _ r])
  moreover have "(\<Sum>q\<in>{..<n} - {r}. g q) = (\<Sum>q\<in>{..<n} - {r}. f q)"
    using assms(2) by (intro sum.cong) auto
  ultimately show ?thesis by simp
qed

text \<open>What one thread step does to the claims: at most one new block, or the end of the rank.\<close>

lemma claim_step_facts:
  assumes "pc_next cfg (jd_blockCount (pt_job s)) (jd_participants (pt_job s)) r prev
      (jd_nextBlock (pt_job s)) = (b, c')"
  shows "jd_nextBlock (pt_job (claim_step cfg s r prev)) = c'"
    "b = kNoBlock \<Longrightarrow> pt_claimed (claim_step cfg s r prev) = pt_claimed s"
    "b = kNoBlock \<Longrightarrow> pt_drained (claim_step cfg s r prev) = (pt_drained s)(r := True)"
    "b = kNoBlock \<Longrightarrow> pt_pc (claim_step cfg s r prev) r = Finished"
    "b \<noteq> kNoBlock \<Longrightarrow>
      pt_claimed (claim_step cfg s r prev) = (pt_claimed s)(r := pt_claimed s r @ [b])"
    "b \<noteq> kNoBlock \<Longrightarrow> pt_drained (claim_step cfg s r prev) = pt_drained s"
    "b \<noteq> kNoBlock \<Longrightarrow> loc_weight (pt_pc (claim_step cfg s r prev) r) \<le> 6"
  using assms
  by (simp_all add: claim_step_def Let_def loc_weight_def loc_claimed_def loc_tok_def)

lemma thread_step_claim:
  assumes "thread_step cfg s r out = Some t" "pt_pc s r = ClaimNext prev"
  shows "t = claim_step cfg s r prev"
  using assms by (simp add: thread_step_def split: if_splits)

lemma thread_step_other:
  assumes "thread_step cfg s r out = Some t" "\<And>prev. pt_pc s r \<noteq> ClaimNext prev"
  shows "jd_nextBlock (pt_job t) = jd_nextBlock (pt_job s) \<and> pt_claimed t = pt_claimed s \<and>
    pt_drained t = pt_drained s \<and> loc_weight (pt_pc t r) < loc_weight (pt_pc s r)"
  using assms
  by (cases "pt_pc s r")
    (auto simp: thread_step_def body_step_def capture_step_def loc_tok_def loc_weight_def Let_def
      split: option.splits if_splits)

lemma sum_mset_mono_nat:
  "(\<And>r. r < n \<Longrightarrow> f r \<subseteq># g r) \<Longrightarrow> (\<Sum>r<n. f r) \<subseteq># (\<Sum>r<(n::nat). g r)"
  by (induction n) (auto intro: subset_mset.add_mono)

lemma distinct_mset_subset:
  "mset xs \<subseteq># mset ys \<Longrightarrow> distinct ys \<Longrightarrow> distinct xs"
proof -
  assume "mset xs \<subseteq># mset ys" "distinct ys"
  from this(1) obtain Z where "mset ys = mset xs + Z" by (auto simp: subset_mset.le_iff_add)
  moreover obtain zs where "mset zs = Z" using ex_mset by blast
  ultimately have "mset ys = mset (xs @ zs)" by simp
  with \<open>distinct ys\<close> have "distinct (xs @ zs)" using mset_eq_imp_distinct_iff by blast
  then show "distinct xs" by simp
qed

context block_claim
begin

lemma inv_thread:
  assumes nx: "pc_next cfg = nxt" and inv: "part_inv I s"
    and r: "r < jd_participants (pt_job s)" and st: "thread_step cfg s r out = Some t"
  shows "part_inv I t"
proof -
  let ?N = "jd_blockCount (pt_job s)" and ?P = "jd_participants (pt_job s)"
  note sh = same_shape_simps [OF thread_step_shape [OF st]]
  have ok: "\<forall>q<?P. claim_ok t q"
    using inv claim_ok_self [OF st] claim_ok_other [OF st] by (metis part_inv_def)
  have D: "drained_set s \<subseteq> {..<?P}" by (auto simp: drained_set_def)
  have Is: "I ?N ?P (pt_claimed s) (jd_nextBlock (pt_job s)) (drained_set s)"
    using inv by (simp add: part_inv_def)
  have "I ?N ?P (pt_claimed t) (jd_nextBlock (pt_job t)) (drained_set t)"
  proof (cases "\<exists>prev. pt_pc s r = ClaimNext prev")
    case True
    then obtain prev where pc: "pt_pc s r = ClaimNext prev" by blast
    obtain b c' where c: "nxt ?N ?P r prev (jd_nextBlock (pt_job s)) = (b, c')" by fastforce
    from inv r pc have p: "prev = last_block (pt_claimed s r)" "r \<notin> drained_set s"
      by (auto simp: part_inv_def claim_ok_def drained_set_def)
    note t = thread_step_claim [OF st pc]
    note facts = claim_step_facts [of cfg s r prev b c', unfolded nx, OF c, folded t]
    show ?thesis
    proof (cases "b = kNoBlock")
      case True
      then have "drained_set t = insert r (drained_set s)" "pt_claimed t = pt_claimed s"
        using facts r sh(1) by (auto simp: drained_set_def)
      then show ?thesis using claim_none [OF Is r p(2) D] c facts(1) p(1) True by simp
    next
      case False
      then have "drained_set t = drained_set s"
        "pt_claimed t = (pt_claimed s)(r := pt_claimed s r @ [b])"
        using facts sh(1) by (auto simp: drained_set_def)
      then show ?thesis using claim_block [OF Is r p(2) D] c facts(1) p(1) False by simp
    qed
  next
    case False
    with thread_step_other [OF st] Is sh(1) show ?thesis by (simp add: drained_set_def)
  qed
  with ok inv show ?thesis by (simp add: part_inv_def sh thread_step_sticky(3) [OF st])
qed

lemma inv_stop:
  assumes inv: "part_inv I s" and st: "part_step cfg s PRequestStop = Some t"
  shows "part_inv I t"
proof -
  from st obtain h where t: "t = s\<lparr> pt_tokens := h \<rparr>"
    by (auto split: prod.splits bool.splits)
  have "request_stop (pt_tokens s) (jd_token (pt_job s)) = (True, h)"
    using st t by (cases s) (auto split: prod.splits bool.splits)
  then have "stopped s \<Longrightarrow> stopped t"
    using request_stop_mono [of "pt_tokens s" "jd_token (pt_job s)" "jd_token (pt_job s)"]
    by (simp add: stopped_def t)
  then have "claim_ok s r \<Longrightarrow> claim_ok t r" for r
    by (auto simp: claim_ok_def t failed_def split: ploc.splits)
  moreover have "valid_token h (jd_token (pt_job s))"
    using inv \<open>request_stop (pt_tokens s) (jd_token (pt_job s)) = (True, h)\<close>
      request_stop_length [of "pt_tokens s" "jd_token (pt_job s)"]
    by (auto simp: part_inv_def valid_token_def split: option.splits)
  ultimately show ?thesis using inv by (simp add: part_inv_def t drained_set_def)
qed

lemma inv_step:
  "pc_next cfg = nxt \<Longrightarrow> part_inv I s \<Longrightarrow> part_step cfg s a = Some t \<Longrightarrow> part_inv I t"
  by (cases a) (auto intro: inv_thread inv_stop simp del: part_step.simps(2) split: if_splits)

lemma inv_init:
  assumes sh: "pc_shared cfg = shared" and "part_init cfg s"
  shows "part_inv I s"
proof -
  from assms obtain j h where s: "s = part_start cfg j h"
    and j: "valid_token h (jd_token j)" "no_wrap (jd_blockCount j) (jd_participants j)"
      "shared \<Longrightarrow> jd_participants j < jd_blockCount j \<Longrightarrow> jd_nextBlock j = jd_participants j"
    by (auto simp: part_init_def)
  have "I (jd_blockCount j) (jd_participants j) (\<lambda>r. []) (jd_nextBlock j) {}"
    using j(2,3) by (rule claim_init)
  then show ?thesis
    using j by (simp add: part_inv_def s part_start_def drained_set_def claim_ok_def entry_loc_def
      last_block_def)
qed

lemma inv_claimed_le:
  "part_inv I s \<Longrightarrow>
    (\<Sum>r<jd_participants (pt_job s). length (pt_claimed s r)) \<le> jd_blockCount (pt_job s)"
  by (rule claim_count [of _ _ _ "jd_nextBlock (pt_job s)" "drained_set s"])
    (auto simp: part_inv_def drained_set_def)

lemma fuel_thread:
  assumes nx: "pc_next cfg = nxt" and inv: "part_inv I s"
    and r: "r < jd_participants (pt_job s)" and st: "thread_step cfg s r out = Some t"
  shows "part_fuel t < part_fuel s"
proof -
  let ?N = "jd_blockCount (pt_job s)" and ?P = "jd_participants (pt_job s)"
  note sh = same_shape_simps [OF thread_step_shape [OF st]]
  note stick = thread_step_sticky [OF st]
  have w: "(\<Sum>q<?P. loc_weight (pt_pc t q)) + loc_weight (pt_pc s r)
      = (\<Sum>q<?P. loc_weight (pt_pc s q)) + loc_weight (pt_pc t r)"
    using r stick(4) by (intro sum_change) auto
  have le: "(\<Sum>q<?P. length (pt_claimed t q)) \<le> ?N"
    using inv_claimed_le [OF inv_thread [OF nx inv r st]] sh by simp
  show ?thesis
  proof (cases "\<exists>prev. pt_pc s r = ClaimNext prev")
    case True
    then obtain prev where pc: "pt_pc s r = ClaimNext prev" by blast
    obtain b c' where c: "nxt ?N ?P r prev (jd_nextBlock (pt_job s)) = (b, c')" by fastforce
    note t = thread_step_claim [OF st pc]
    note facts = claim_step_facts [of cfg s r prev b c', unfolded nx, OF c, folded t]
    have ws: "loc_weight (pt_pc s r) = 1" using pc by (simp add: loc_weight_def)
    show ?thesis
    proof (cases "b = kNoBlock")
      case True
      then have "loc_weight (pt_pc t r) = 0" "pt_claimed t = pt_claimed s"
        using facts by (auto simp: loc_weight_def)
      then show ?thesis using w ws sh stick(1) by (simp add: part_fuel_def)
    next
      case False
      then have cl: "pt_claimed t = (pt_claimed s)(r := pt_claimed s r @ [b])"
        and wt: "loc_weight (pt_pc t r) \<le> 6" using facts by auto
      have "(\<Sum>q<?P. length (pt_claimed t q)) + length (pt_claimed s r)
          = (\<Sum>q<?P. length (pt_claimed s q)) + length (pt_claimed t r)"
        using r cl by (intro sum_change) auto
      then have "(\<Sum>q<?P. length (pt_claimed t q)) = Suc (\<Sum>q<?P. length (pt_claimed s q))"
        using cl by simp
      then show ?thesis using le w ws wt sh stick(1) by (simp add: part_fuel_def)
    qed
  next
    case False
    with thread_step_other [OF st] have "pt_claimed t = pt_claimed s"
      "loc_weight (pt_pc t r) < loc_weight (pt_pc s r)" by auto
    then show ?thesis using w sh stick(1) by (simp add: part_fuel_def)
  qed
qed

lemma fuel_stop:
  assumes "part_inv I s" "part_step cfg s PRequestStop = Some t"
  shows "part_fuel t < part_fuel s"
proof -
  from assms(2) obtain h where rq: "request_stop (pt_tokens s) (jd_token (pt_job s)) = (True, h)"
    and t: "t = s\<lparr> pt_tokens := h \<rparr>"
    by (auto split: prod.splits bool.splits)
  from rq have "\<not> stopped s"
    by (auto simp: request_stop_def stopped_def stop_requested_def split: option.splits if_splits)
  moreover have "stopped t"
    using rq assms(1) by (cases "jd_token (pt_job s)")
      (auto simp: request_stop_def stopped_def stop_requested_def t part_inv_def valid_token_def
        split: if_splits)
  ultimately show ?thesis by (simp add: part_fuel_def t)
qed

lemma inv_fuel:
  "pc_next cfg = nxt \<Longrightarrow> part_inv I s \<Longrightarrow> part_step cfg s a = Some t \<Longrightarrow> part_fuel t < part_fuel s"
  by (cases a) (auto intro: fuel_thread fuel_stop simp del: part_step.simps(2) split: if_splits)

lemma inv_progress:
  assumes "\<not> part_final s"
  shows "\<exists>a t. part_step cfg s a = Some t"
proof -
  from assms obtain r where r: "r < jd_participants (pt_job s)" "pt_pc s r \<noteq> Finished"
    by (auto simp: part_final_def)
  then have "\<exists>t. thread_step cfg s r None = Some t"
    by (auto simp: thread_step_def body_step_def Let_def split: ploc.splits)
  then have "\<exists>t. part_step cfg s (PStep r None) = Some t" using r by simp
  then show ?thesis by blast
qed

text \<open>The loop terminates under every schedule.\<close>

lemma loop_terminates:
  assumes "pc_shared cfg = shared" "pc_next cfg = nxt"
  shows "terminating_system (part_step cfg) (part_init cfg) (part_inv I) part_final part_fuel"
proof
  show "part_init cfg s \<Longrightarrow> part_inv I s" for s
    using assms(1) by (rule inv_init)
  show "part_inv I s \<Longrightarrow> part_step cfg s a = Some t \<Longrightarrow> part_inv I t" for s a t
    using assms(2) by (rule inv_step)
  show "part_inv I s \<Longrightarrow> part_step cfg s a = Some t \<Longrightarrow> part_fuel t < part_fuel s" for s a t
    using assms(2) by (rule inv_fuel)
  show "part_inv I s \<Longrightarrow> \<not> part_final s \<Longrightarrow> \<exists>a t. part_step cfg s a = Some t" for s
    by (rule inv_progress)
qed

text \<open>When every rank has finished without a failure or a stop, every block ran exactly once.\<close>

lemma inv_covers:
  assumes inv: "part_inv I s" and fin: "part_final s" "\<not> failed s" "\<not> stopped s"
  shows "mset (concat (map (pt_ran s) [0..<jd_participants (pt_job s)]))
    = mset [0..<jd_blockCount (pt_job s)]"
proof -
  let ?P = "jd_participants (pt_job s)"
  have each: "pt_drained s r \<and> pt_claimed s r = pt_ran s r" if "r < ?P" for r
    using inv fin that by (auto simp: part_inv_def part_final_def claim_ok_def)
  then have "drained_set s = {..<?P}" by (auto simp: drained_set_def)
  then have "mset (concat (map (pt_claimed s) [0..<?P])) = mset [0..<jd_blockCount (pt_job s)]"
    using inv by (intro claim_mset [of _ _ _ "jd_nextBlock (pt_job s)"]) (simp add: part_inv_def)
  moreover have "map (pt_claimed s) [0..<?P] = map (pt_ran s) [0..<?P]"
    using each by (intro map_cong) auto
  ultimately show ?thesis by simp
qed

text \<open>At every moment, whatever was thrown or cancelled, no block has run twice.\<close>

lemma claim_ok_prefix: "claim_ok s r \<Longrightarrow> \<exists>bs. pt_claimed s r = pt_ran s r @ bs"
  by (auto simp: claim_ok_def split: ploc.splits)

lemma inv_at_most_once:
  assumes inv: "part_inv I s"
  shows "distinct (concat (map (pt_ran s) [0..<jd_participants (pt_job s)])) \<and>
    set (concat (map (pt_ran s) [0..<jd_participants (pt_job s)])) \<subseteq> {..<jd_blockCount (pt_job s)}"
proof -
  let ?P = "jd_participants (pt_job s)" and ?N = "jd_blockCount (pt_job s)"
  have all: "distinct (concat (map (pt_claimed s) [0..<?P])) \<and>
      set (concat (map (pt_claimed s) [0..<?P])) \<subseteq> {..<?N}"
    using inv by (intro claim_distinct [of _ _ _ "jd_nextBlock (pt_job s)" "drained_set s"])
      (auto simp: part_inv_def drained_set_def)
  have sub: "mset (concat (map (pt_ran s) [0..<?P]))
      \<subseteq># mset (concat (map (pt_claimed s) [0..<?P]))"
    unfolding mset_concat_rows
  proof (rule sum_mset_mono_nat)
    fix r assume "r < ?P"
    then obtain bs where "pt_claimed s r = pt_ran s r @ bs"
      using inv claim_ok_prefix by (metis part_inv_def)
    then show "mset (pt_ran s r) \<subseteq># mset (pt_claimed s r)" by simp
  qed
  from sub all show ?thesis
    by (metis distinct_mset_subset mset_subset_eqD set_mset_mset subset_iff)
qed

end

section \<open>First-exception capture\<close>

definition exc_ok :: "part \<Rightarrow> nat \<Rightarrow> bool" where
  "exc_ok s q = (case pt_pc s q of
       Capture e \<Rightarrow> pt_threw s q = Some e
     | StoreWorkerId \<Rightarrow> pt_winner s = Some q
     | Finished \<Rightarrow> pt_threw s q \<noteq> None \<longrightarrow> failed s
     | _ \<Rightarrow> pt_threw s q = None)"

definition winner_ok :: "part \<Rightarrow> bool" where
  "winner_ok s = (case pt_winner s of
       None \<Rightarrow> \<not> failed s
     | Some r \<Rightarrow> r < jd_participants (pt_job s) \<and> failed s \<and>
         pt_threw s r = jd_firstException (pt_job s) \<and>
         (pt_pc s r = StoreWorkerId \<or>
          pt_pc s r = Finished \<and> jd_exceptionWorkerId (pt_job s) = r))"

definition exc_inv :: "part \<Rightarrow> bool" where
  "exc_inv s \<longleftrightarrow> winner_ok s \<and> (\<forall>q<jd_participants (pt_job s). exc_ok s q)"

lemma exc_ok_self:
  assumes "thread_step cfg s r out = Some t" "exc_ok s r" "winner_ok s"
  shows "exc_ok t r"
  using assms
  by (cases "pt_pc s r")
    (auto simp: step_defs exc_ok_def failed_def winner_ok_def Let_def
      split: option.splits if_splits prod.splits)

lemma exc_ok_other:
  assumes st: "thread_step cfg s r out = Some t" and q: "q \<noteq> r" "exc_ok s q" and w: "winner_ok s"
  shows "exc_ok t q"
proof -
  have "pt_winner s = Some q \<Longrightarrow> pt_winner t = Some q"
    using st w by (cases "pt_pc s r")
      (auto simp: step_defs winner_ok_def failed_def Let_def
        split: option.splits if_splits prod.splits)
  then show ?thesis
    using thread_step_sticky [OF st] q by (auto simp: exc_ok_def split: ploc.splits)
qed

lemma winner_frame:
  assumes "thread_step cfg s r out = Some t" "\<And>e. pt_pc s r \<noteq> Capture e" "pt_pc s r \<noteq> StoreWorkerId"
  shows "pt_winner t = pt_winner s" "jd_firstException (pt_job t) = jd_firstException (pt_job s)"
    "jd_exceptionWorkerId (pt_job t) = jd_exceptionWorkerId (pt_job s)" "pt_pc s r \<noteq> Finished"
  using assms
  by (cases "pt_pc s r"; auto simp: thread_step_def claim_step_def body_step_def Let_def
      split: option.splits if_splits prod.splits)+

lemma winner_ok_step:
  assumes st: "thread_step cfg s r out = Some t" and r: "r < jd_participants (pt_job s)"
    and e: "exc_ok s r" and w: "winner_ok s"
  shows "winner_ok t"
proof -
  note sh = same_shape_simps(1) [OF thread_step_shape [OF st]]
  have other: "winner_ok t" if n: "\<And>e. pt_pc s r \<noteq> Capture e" "pt_pc s r \<noteq> StoreWorkerId"
  proof (cases "pt_winner s")
    case None
    then show ?thesis
      using w winner_frame [OF st n] by (simp add: winner_ok_def failed_def)
  next
    case (Some q)
    then have "q \<noteq> r" using w n(2) winner_frame(4) [OF st n] by (auto simp: winner_ok_def)
    then show ?thesis
      using w Some winner_frame [OF st n] thread_step_sticky(4) [OF st, of q] sh
      by (simp add: winner_ok_def failed_def)
  qed
  show ?thesis
  proof (cases "pt_pc s r")
  case (Capture e)
  then show ?thesis
    using st r e w by (cases "jd_firstException (pt_job s)")
      (auto simp: thread_step_def capture_step_def exc_ok_def winner_ok_def failed_def Let_def
        split: option.splits if_splits)
next
  case StoreWorkerId
  then show ?thesis
    using st r e w
    by (auto simp: thread_step_def exc_ok_def winner_ok_def failed_def Let_def split: if_splits)
next
  case Finished
  then show ?thesis using st by (simp add: thread_step_def)
qed (use other in simp_all)
qed

lemma exc_inv_step:
  assumes inv: "exc_inv s" and st: "part_step cfg s a = Some t"
  shows "exc_inv t"
proof (cases a)
  case (PStep r out)
  with st have r: "r < jd_participants (pt_job s)" and th: "thread_step cfg s r out = Some t"
    by (auto split: if_splits)
  from inv have "winner_ok s" "exc_ok s r" using r by (auto simp: exc_inv_def)
  then have "winner_ok t" using winner_ok_step [OF th r] by blast
  moreover have "exc_ok t q" if "q < jd_participants (pt_job s)" for q
    using inv that r exc_ok_self [OF th] exc_ok_other [OF th]
    by (cases "q = r") (simp_all add: exc_inv_def)
  ultimately show ?thesis
    using same_shape_simps [OF thread_step_shape [OF th]] by (simp add: exc_inv_def)
next
  case PRequestStop
  with st obtain h where "t = s\<lparr> pt_tokens := h \<rparr>" by (auto split: prod.splits bool.splits)
  then have t: "pt_job t = pt_job s" "pt_pc t = pt_pc s" "pt_threw t = pt_threw s"
    "pt_winner t = pt_winner s" by simp_all
  have "winner_ok t = winner_ok s" unfolding winner_ok_def failed_def t ..
  moreover have "exc_ok t q = exc_ok s q" for q unfolding exc_ok_def failed_def t ..
  moreover note t(1)
  ultimately show ?thesis using inv by (simp add: exc_inv_def)
qed

interpretation exceptions: step_invariant "part_step cfg" "part_init cfg" exc_inv for cfg
proof
  show "part_init cfg s \<Longrightarrow> exc_inv s" for s
    by (auto simp: part_init_def part_start_def exc_inv_def winner_ok_def exc_ok_def failed_def
      entry_loc_def)
  show "exc_inv s \<Longrightarrow> part_step cfg s a = Some t \<Longrightarrow> exc_inv t" for s a t
    by (rule exc_inv_step)
qed

lemma exc_inv_final:
  assumes "exc_inv s" "part_final s"
  shows "case jd_firstException (pt_job s) of
      None \<Rightarrow> \<forall>r<jd_participants (pt_job s). pt_threw s r = None
    | Some e \<Rightarrow> jd_exceptionWorkerId (pt_job s) < jd_participants (pt_job s) \<and>
        pt_threw s (jd_exceptionWorkerId (pt_job s)) = Some e"
  using assms
  by (auto simp: exc_inv_def winner_ok_def exc_ok_def part_final_def failed_def
    split: option.splits)

section \<open>The runners terminate\<close>

interpretation run_static:
  terminating_system "part_step (runPartition StaticUniform)"
    "part_init (runPartition StaticUniform)" "part_inv static_claims" part_final part_fuel
  by (rule static.loop_terminates) (simp_all add: runner_defs)

interpretation run_dynamic:
  terminating_system "part_step (runPartition DynamicChunked)"
    "part_init (runPartition DynamicChunked)" "part_inv dynamic_claims" part_final part_fuel
  by (rule dynamic.loop_terminates) (simp_all add: runner_defs)

interpretation run_hinted_static:
  terminating_system "part_step (runPartitionTypedHinted StaticUniform ca ne)"
    "part_init (runPartitionTypedHinted StaticUniform ca ne)" "part_inv static_claims"
    part_final part_fuel for ca ne
  by (rule hinted_static.loop_terminates) (simp_all add: runner_defs)

interpretation run_hinted_dynamic:
  terminating_system "part_step (runPartitionTypedHinted DynamicChunked ca ne)"
    "part_init (runPartitionTypedHinted DynamicChunked ca ne)" "part_inv dynamic_claims"
    part_final part_fuel for ca ne
  by (rule hinted_dynamic.loop_terminates) (simp_all add: runner_defs)

interpretation run_contiguous:
  terminating_system "part_step (runContiguousRankPartitionTypedCached ca ne)"
    "part_init (runContiguousRankPartitionTypedCached ca ne)" "part_inv contiguous_claims"
    part_final part_fuel for ca ne
  by (rule contiguous.loop_terminates) (simp_all add: runner_defs)

section \<open>Indices visited\<close>

text \<open>The indices the body was called on, rank by rank and block by block.\<close>

definition visited :: "part \<Rightarrow> nat list" where
  "visited s = concat (map (\<lambda>b. [block_lo (pt_job s) b..<block_hi (pt_job s) b])
     (concat (map (pt_ran s) [0..<jd_participants (pt_job s)])))"

lemma mset_concat_map_cong:
  "mset xs = mset ys \<Longrightarrow> mset (concat (map f xs)) = mset (concat (map f ys))"
proof -
  have "mset (concat (map f zs)) = (\<Sum>z\<in>#mset zs. mset (f z))" for zs :: "'a list"
    by (induction zs) auto
  then show "mset xs = mset ys \<Longrightarrow> ?thesis" by simp
qed

lemma visited_all:
  assumes "mset (concat (map (pt_ran s) [0..<jd_participants (pt_job s)]))
      = mset [0..<jd_blockCount (pt_job s)]"
    and "shaped (pt_job s)"
  shows "mset (visited s) = mset [jd_first (pt_job s)..<jd_last (pt_job s)]"
  unfolding visited_def mset_concat_map_cong [OF assms(1)] blocks_tile [OF assms(2)] ..

lemma blocks_disjoint:
  assumes "shaped j" "b < jd_blockCount j" "b' < jd_blockCount j" "b \<noteq> b'"
  shows "{block_lo j b..<block_hi j b} \<inter> {block_lo j b'..<block_hi j b'} = {}"
proof -
  have "{block_lo j c..<block_hi j c} \<inter> {block_lo j d..<block_hi j d} = {}"
    if "c < d" "c < jd_blockCount j" "d < jd_blockCount j" for c d
  proof -
    have "Suc c * jd_chunk j \<le> d * jd_chunk j" using that(1) by (intro mult_le_mono1) simp
    then show ?thesis
      using block_lo_eq [OF assms(1)] block_hi_eq [OF assms(1)] that by auto
  qed
  then show ?thesis using assms by (metis Int_commute linorder_neq_iff)
qed

lemma visited_distinct:
  assumes "distinct (concat (map (pt_ran s) [0..<jd_participants (pt_job s)]))"
    and "set (concat (map (pt_ran s) [0..<jd_participants (pt_job s)]))
      \<subseteq> {..<jd_blockCount (pt_job s)}"
    and "shaped (pt_job s)"
  shows "distinct (visited s)"
proof -
  have "distinct (concat (map (\<lambda>b. [block_lo j b..<block_hi j b]) bs))"
    if "shaped j" "distinct bs" "set bs \<subseteq> {..<jd_blockCount j}" for j bs
    using that
  proof (induction bs)
    case (Cons b bs)
    then have "{block_lo j b..<block_hi j b} \<inter> {block_lo j c..<block_hi j c} = {}"
      if "c \<in> set bs" for c using that by (intro blocks_disjoint) auto
    then have "{block_lo j b..<block_hi j b}
        \<inter> set (concat (map (\<lambda>b. [block_lo j b..<block_hi j b]) bs)) = {}" by fastforce
    with Cons show ?case by simp
  qed simp
  with assms show ?thesis by (simp add: visited_def)
qed

lemma visited_within:
  assumes "distinct (concat (map (pt_ran s) [0..<jd_participants (pt_job s)])) \<and>
      set (concat (map (pt_ran s) [0..<jd_participants (pt_job s)]))
        \<subseteq> {..<jd_blockCount (pt_job s)}"
    and sh: "shaped (pt_job s)"
  shows "set (visited s) \<subseteq> {jd_first (pt_job s)..<jd_last (pt_job s)}"
proof
  fix x assume "x \<in> set (visited s)"
  then obtain b where b: "b \<in> set (concat (map (pt_ran s) [0..<jd_participants (pt_job s)]))"
    and x: "block_lo (pt_job s) b \<le> x" "x < block_hi (pt_job s) b"
    by (auto simp: visited_def)
  have "b < jd_blockCount (pt_job s)" using assms(1) b by blast
  then show "x \<in> {jd_first (pt_job s)..<jd_last (pt_job s)}"
    using x block_lo_eq [OF sh] block_hi_eq [OF sh] by auto
qed

lemma part_fuel_init:
  assumes "part_init cfg s"
  shows "part_fuel s \<le> 6 * jd_blockCount (pt_job s) + 2 * jd_participants (pt_job s) + 1"
proof -
  from assms obtain j h where s: "s = part_start cfg j h" by (auto simp: part_init_def)
  define q where "q = jd_participants j * loc_weight (entry_loc cfg)"
  have "q \<le> jd_participants j * 2"
    unfolding q_def by (rule mult_le_mono2) (simp add: loc_weight_def entry_loc_def)
  moreover have "part_fuel s = 6 * jd_blockCount j + q + (if stopped s then 0 else 1)"
    unfolding part_fuel_def s by (simp add: part_start_def q_def)
  moreover have "pt_job s = j" by (simp add: s part_start_def)
  ultimately show ?thesis by simp
qed

lemma part_init_run_shape:
  assumes "part_init cfg s" "shaped (pt_job s)" "run (part_step cfg) s as = Some t"
  shows "shaped (pt_job t)"
  using assms(2) same_shape_simps [OF run_shape [OF assms(3)]] by (simp add: shaped_def)

section \<open>The properties of the runners\<close>

definition runners :: "pcfg set" where
  "runners = {cfg. \<exists>B ca ne. cfg = runPartition B \<or> cfg = runPartitionTyped B \<or>
     cfg = runPartitionTypedHinted B ca ne \<or> cfg = runContiguousRankPartitionTypedCached ca ne}"

lemma runner_policy:
  assumes "cfg \<in> runners"
  obtains I where "block_claim (pc_shared cfg) (pc_next cfg) I"
proof -
  from assms obtain B ca ne where "cfg = runPartition B \<or> cfg = runPartitionTyped B \<or>
     cfg = runPartitionTypedHinted B ca ne \<or> cfg = runContiguousRankPartitionTypedCached ca ne"
    by (auto simp: runners_def)
  then have "(pc_shared cfg, pc_next cfg) \<in> {(B = DynamicChunked, nextTypedBlock B),
      (B = DynamicChunked, hintedNext B), (False, contiguousNext)}"
    by (auto simp: runner_defs)
  then show ?thesis
    using that static.block_claim_axioms dynamic.block_claim_axioms
      hinted_static.block_claim_axioms hinted_dynamic.block_claim_axioms
      contiguous.block_claim_axioms
    by (cases B) auto
qed

lemma part_final_code [code]:
  "part_final s = list_all (\<lambda>r. pt_pc s r = Finished) [0..<jd_participants (pt_job s)]"
  by (auto simp: part_final_def list_all_iff)

lemma runner_run_inv:
  assumes "cfg \<in> runners" "part_init cfg s" "run (part_step cfg) s as = Some t"
  obtains I where "block_claim (pc_shared cfg) (pc_next cfg) I" "part_inv I t"
proof -
  from assms(1) obtain I where bc: "block_claim (pc_shared cfg) (pc_next cfg) I" by (rule runner_policy)
  then have "terminating_system (part_step cfg) (part_init cfg) (part_inv I) part_final part_fuel"
    by (rule block_claim.loop_terminates) simp_all
  then have "step_invariant (part_step cfg) (part_init cfg) (part_inv I)"
    by (rule terminating_system.axioms)
  then have "part_inv I t" using assms(2,3) by (rule step_invariant.run_inv)
  with bc that show ?thesis by blast
qed

lemma runner_terminates:
  assumes "cfg \<in> runners"
  obtains I where
    "terminating_system (part_step cfg) (part_init cfg) (part_inv I) part_final part_fuel"
proof -
  from assms obtain I where "block_claim (pc_shared cfg) (pc_next cfg) I" by (rule runner_policy)
  then have "terminating_system (part_step cfg) (part_init cfg) (part_inv I) part_final part_fuel"
    by (rule block_claim.loop_terminates) simp_all
  with that show ?thesis by blast
qed

text \<open>A concrete dispatch: five indices, chunk 2, two ranks, three blocks.\<close>

definition example_job :: job where
  "example_job = fillBlockShape (empty_job\<lparr> jd_first := 10, jd_last := 15, jd_participants := 2,
     jd_balance := DynamicChunked, jd_token := Some 0, jd_nextBlock := 2 \<rparr>) 5 2 2 True"

definition example_start :: part where
  "example_start = part_start (runPartition DynamicChunked) example_job [0]"

lemma example_job_shape: "example_job = empty_job\<lparr> jd_first := 10, jd_last := 15,
    jd_participants := 2, jd_balance := DynamicChunked, jd_token := Some 0, jd_nextBlock := 2,
    jd_chunk := 2, jd_blockCount := 3 \<rparr>"
  by (simp add: example_job_def fillBlockShape_def ceilDiv_def Let_def)

lemma example_init: "part_init (runPartition DynamicChunked) example_start"
  unfolding part_init_def
  by (intro exI [of _ example_job] exI [of _ "[0]"])
    (simp add: example_start_def example_job_shape empty_job_def valid_token_def no_wrap_def)

lemma example_shaped: "shaped (pt_job example_start)"
  by (simp add: example_start_def part_start_def example_job_shape empty_job_def shaped_def
    ceilDiv_def)

lemma example_runner: "runPartition DynamicChunked \<in> runners"
  by (auto simp: runners_def)

definition example_sched :: "pact list" where
  "example_sched = map (\<lambda>r. PStep r None) [0,1,0,1,0,1,0,1,0,0,0,0,0,1]"

definition example_throw :: "pact list" where
  "example_throw = map (\<lambda>r. PStep r None) [0,1,0,1,0,1] @ [PStep 0 (Some 7), PStep 1 (Some 8)]
     @ map (\<lambda>r. PStep r None) [1,0,1]"

definition example_end :: "pact list \<Rightarrow> part" where
  "example_end as = the (run (part_step (runPartition DynamicChunked)) example_start as)"

text \<open>
  C1. Exactly-once coverage: whatever the balance, the hints and the interleaving, when every
  participant has left its runner, nothing was thrown and no stop was requested, the body has
  been called on ranges that list every index of \<open>[first, last)\<close> exactly once.
\<close>

theorem partition_exactly_once:
  assumes "cfg \<in> runners" and "part_init cfg s" and "shaped (pt_job s)"
    and "run (part_step cfg) s as = Some t"
    and "part_final t" and "\<not> failed t" and "\<not> stopped t"
  shows "mset (visited t) = mset [jd_first (pt_job s)..<jd_last (pt_job s)]"
proof -
  from assms(1,2,4) obtain I where "block_claim (pc_shared cfg) (pc_next cfg) I" "part_inv I t"
    by (rule runner_run_inv)
  then have "mset (concat (map (pt_ran t) [0..<jd_participants (pt_job t)]))
      = mset [0..<jd_blockCount (pt_job t)]"
    using assms(5-7) by (rule block_claim.inv_covers)
  moreover have "shaped (pt_job t)" using assms(2-4) by (rule part_init_run_shape)
  ultimately have "mset (visited t) = mset [jd_first (pt_job t)..<jd_last (pt_job t)]"
    by (rule visited_all)
  then show ?thesis using same_shape_simps [OF run_shape [OF assms(4)]] by simp
qed

lemmas example_eval = example_start_def part_start_def example_job_shape empty_job_def
  runner_defs step_defs entry_loc_def Let_def kNoBlock_eq stop_requested_def
  part_final_code upt_rec failed_def stopped_def

lemma example_sched_runs:
  "\<exists>t. run (part_step (runPartition DynamicChunked)) example_start example_sched = Some t \<and>
    part_final t \<and> \<not> failed t \<and> \<not> stopped t \<and> map (pt_ran t) [0, 1] = [[0, 2], [1]]"
  by (simp add: example_sched_def example_eval)

lemma example_throw_runs:
  "\<exists>t. run (part_step (runPartition DynamicChunked)) example_start example_throw = Some t \<and>
    part_final t \<and> jd_firstException (pt_job t) = Some 8 \<and> map (pt_ran t) [0, 1] = [[0], [1]]"
  by (simp add: example_throw_def example_eval)

theorem partition_exactly_once_witness:
  "\<exists>t. run (part_step (runPartition DynamicChunked)) example_start example_sched = Some t \<and>
    map (pt_ran t) [0, 1] = [[0, 2], [1]] \<and> mset (visited t) = mset [10..<15]"
proof -
  from example_sched_runs obtain t
    where t: "run (part_step (runPartition DynamicChunked)) example_start example_sched = Some t"
      "part_final t" "\<not> failed t" "\<not> stopped t" "map (pt_ran t) [0, 1] = [[0, 2], [1]]"
    by (elim exE conjE)
  have "jd_first (pt_job example_start) = 10" "jd_last (pt_job example_start) = 15"
    by (simp_all add: example_start_def part_start_def example_job_shape)
  then have "mset (visited t) = mset [10..<15]"
    using partition_exactly_once
      [OF example_runner example_init example_shaped t(1) t(2) t(3) t(4)] by (simp only:)
  with t(1,5) show ?thesis by (intro exI conjI)
qed

text \<open>
  C2. At most once, always: at every moment of every run, also after throws and cancellation, no
  index has been visited twice and none outside \<open>[first, last)\<close>.
\<close>

theorem partition_at_most_once:
  assumes "cfg \<in> runners" and "part_init cfg s" and "shaped (pt_job s)"
    and "run (part_step cfg) s as = Some t"
  shows "distinct (visited t) \<and> set (visited t) \<subseteq> {jd_first (pt_job s)..<jd_last (pt_job s)}"
proof -
  from assms(1,2,4) obtain I where "block_claim (pc_shared cfg) (pc_next cfg) I" "part_inv I t"
    by (rule runner_run_inv)
  then have once: "distinct (concat (map (pt_ran t) [0..<jd_participants (pt_job t)])) \<and>
    set (concat (map (pt_ran t) [0..<jd_participants (pt_job t)])) \<subseteq> {..<jd_blockCount (pt_job t)}"
    by (rule block_claim.inv_at_most_once)
  have sh: "shaped (pt_job t)" using assms(2-4) by (rule part_init_run_shape)
  have "set (visited t) \<subseteq> {jd_first (pt_job t)..<jd_last (pt_job t)}"
    using once sh by (rule visited_within)
  moreover have "distinct (visited t)" using once sh visited_distinct by blast
  ultimately show ?thesis using same_shape_simps [OF run_shape [OF assms(4)]] by simp
qed

theorem partition_at_most_once_witness:
  "\<exists>t. run (part_step (runPartition DynamicChunked)) example_start example_throw = Some t \<and>
    jd_firstException (pt_job t) = Some 8 \<and> distinct (visited t)"
proof -
  from example_throw_runs obtain t
    where t: "run (part_step (runPartition DynamicChunked)) example_start example_throw = Some t"
      "jd_firstException (pt_job t) = Some 8"
    by (elim exE conjE)
  moreover have "distinct (visited t)"
    using partition_at_most_once [OF example_runner example_init example_shaped t(1)]
    by (rule conjunct1)
  ultimately show ?thesis by (intro exI conjI)
qed

text \<open>
  C3. Termination: no schedule of the runners is longer than the fuel (six steps per block, two
  per participant and one stop request), and every partial run extends to one in which every
  participant has left its runner.
\<close>

theorem partition_terminates:
  assumes "cfg \<in> runners" and "part_init cfg s" and "run (part_step cfg) s as = Some t"
  shows "length as \<le> 6 * jd_blockCount (pt_job s) + 2 * jd_participants (pt_job s) + 1 \<and>
    (\<exists>bs u. run (part_step cfg) s (as @ bs) = Some u \<and> part_final u)"
proof -
  from assms(1) obtain I where
    ts: "terminating_system (part_step cfg) (part_init cfg) (part_inv I) part_final part_fuel"
    by (rule runner_terminates)
  have "length as \<le> part_fuel s" using ts assms(2,3) by (rule terminating_system.run_bounded)
  also have "\<dots> \<le> 6 * jd_blockCount (pt_job s) + 2 * jd_participants (pt_job s) + 1"
    using assms(2) by (rule part_fuel_init)
  finally show ?thesis using terminating_system.run_completes [OF ts assms(2,3)] by blast
qed

theorem partition_terminates_witness:
  "\<exists>bs u. run (part_step (runPartition DynamicChunked)) example_start ([] @ bs) = Some u \<and>
    part_final u"
proof -
  have "run (part_step (runPartition DynamicChunked)) example_start [] = Some example_start"
    by (rule run.simps)
  from partition_terminates [OF example_runner example_init this] show ?thesis
    by (rule conjunct2)
qed

text \<open>
  C4. First-exception capture: when every participant has left its runner, the descriptor holds
  no exception exactly when no body threw, and otherwise the exception that the rank in
  \<open>exceptionWorkerId\<close> threw.
\<close>

theorem partition_first_exception:
  assumes "part_init cfg s" and "run (part_step cfg) s as = Some t" and "part_final t"
  shows "case jd_firstException (pt_job t) of
      None \<Rightarrow> \<forall>r<jd_participants (pt_job t). pt_threw t r = None
    | Some e \<Rightarrow> jd_exceptionWorkerId (pt_job t) < jd_participants (pt_job t) \<and>
        pt_threw t (jd_exceptionWorkerId (pt_job t)) = Some e"
  using exceptions.run_inv [OF assms(1,2)] assms(3) by (rule exc_inv_final)

theorem partition_first_exception_witness:
  "\<exists>t. run (part_step (runPartition DynamicChunked)) example_start example_throw = Some t \<and>
    pt_threw t (jd_exceptionWorkerId (pt_job t)) = Some 8"
proof -
  from example_throw_runs obtain t
    where t: "run (part_step (runPartition DynamicChunked)) example_start example_throw = Some t"
      "part_final t" "jd_firstException (pt_job t) = Some 8"
    by (elim exE conjE)
  from partition_first_exception [OF example_init t(1,2)] t show ?thesis by simp
qed

end
