(* ===== verification/ParallelFor.thy ===== *)
theory ParallelFor
  imports Job "HOL-Library.Monad_Syntax"
begin

text \<open>
  The entry of \<open>parallelFor\<close> (\<open>thread_pool.h\<close>): the calling thread's pool context and the
  fall-through guard, the inline and nested fallbacks, the write-elided descriptor key with its
  block shape, and the reuse protocol between the per-thread descriptors, the pools' record of
  the descriptor published last, and the workers' caches; the reducers' key beside it.
\<close>

section \<open>The calling thread's context\<close>

datatype PoolKind = Standalone | Arena

record ThreadContext =
  tc_slot :: nat
  tc_insidePoolWorker :: bool
  tc_pool :: "nat option"
  tc_kind :: PoolKind
  tc_arenaIndex :: nat

definition empty_context :: ThreadContext where
  "empty_context = \<lparr> tc_slot = 0, tc_insidePoolWorker = False, tc_pool = None,
     tc_kind = Standalone, tc_arenaIndex = 0 \<rparr>"

definition workerIndex :: "ThreadContext \<Rightarrow> nat" where
  "workerIndex ctx = tc_slot ctx"

definition currentArenaIndexHint :: "ThreadContext \<Rightarrow> nat" where
  "currentArenaIndexHint ctx =
     (if \<not> tc_insidePoolWorker ctx \<or> tc_kind ctx \<noteq> Arena then UINT32_MAX else tc_arenaIndex ctx)"

definition shouldFallThroughCrossArena :: "ThreadContext \<Rightarrow> nat \<Rightarrow> bool" where
  "shouldFallThroughCrossArena ctx self =
     (if \<not> tc_insidePoolWorker ctx then False
      else if tc_pool ctx = Some self then True
      else True)"

text \<open>
  \<open>TlsContextScope\<close>: the constructor saves and installs, the destructor restores. The scope runs
  its body on the installed context, whatever the body does to the context meanwhile.
\<close>

definition scope_enter :: "ThreadContext \<Rightarrow> nat \<Rightarrow> PoolKind \<Rightarrow> nat \<Rightarrow> nat \<Rightarrow> ThreadContext" where
  "scope_enter ctx pool kind arenaIndex slot = ctx\<lparr> tc_slot := slot, tc_insidePoolWorker := True,
     tc_pool := Some pool, tc_kind := kind, tc_arenaIndex := arenaIndex \<rparr>"

definition scope_exit :: "ThreadContext \<Rightarrow> ThreadContext \<Rightarrow> ThreadContext" where
  "scope_exit saved ctx = ctx\<lparr> tc_slot := tc_slot saved,
     tc_insidePoolWorker := tc_insidePoolWorker saved, tc_pool := tc_pool saved,
     tc_kind := tc_kind saved, tc_arenaIndex := tc_arenaIndex saved \<rparr>"

lemma scope_restores: "scope_exit ctx c = ctx"
  by (simp add: scope_exit_def)

lemma fall_through_inside: "shouldFallThroughCrossArena ctx self = tc_insidePoolWorker ctx"
  by (simp add: shouldFallThroughCrossArena_def)

section \<open>The inline fallbacks\<close>

text \<open>
  What the fallbacks call the body on. \<open>stop k\<close> is the answer of the \<open>k\<close>-th poll of the token;
  the loop variable wraps, so a loop that does not end is \<open>None\<close>.
\<close>

type_synonym span = "nat \<times> nat"

abbreviation span_indices :: "span list \<Rightarrow> nat list" where
  "span_indices spans \<equiv> concat (map (\<lambda>(lo, hi). [lo..<hi]) spans)"

definition runInline :: "(nat \<Rightarrow> bool) \<Rightarrow> nat \<Rightarrow> nat \<Rightarrow> span list" where
  "runInline stop first last' = (if stop 0 then [] else [(first, last')])"

partial_function (option) inline_loop ::
  "(nat \<Rightarrow> bool) \<Rightarrow> bool \<Rightarrow> nat \<Rightarrow> nat \<Rightarrow> nat \<Rightarrow> nat \<Rightarrow> span list option" where
  "inline_loop stop cancelChecks last' chunk lo k =
     (if \<not> lo < last' then Some []
      else if cancelChecks \<and> stop k then Some []
      else do {
        rest \<leftarrow> inline_loop stop cancelChecks last' chunk (w64 (lo + chunk)) (Suc k);
        Some ((lo, min (w64 (lo + chunk)) last') # rest)
      })"

definition runInlineChunked ::
  "(nat \<Rightarrow> bool) \<Rightarrow> bool \<Rightarrow> nat \<Rightarrow> nat \<Rightarrow> nat \<Rightarrow> span list option" where
  "runInlineChunked stop cancelChecks first last' chunk =
     (if stop 0 then Some []
      else if chunk = 0 \<or> last' - first \<le> chunk then Some [(first, last')]
      else inline_loop stop cancelChecks last' chunk first 1)"

text \<open>Without wrap-around the loop ends and lists a prefix of the range.\<close>

lemma inline_loop_prefix:
  assumes "0 < chunk" "last' + chunk \<le> 2 ^ 64"
  shows "lo \<le> last' + chunk \<Longrightarrow> \<exists>spans m. inline_loop stop cc last' chunk lo k = Some spans \<and>
    span_indices spans = [lo..<m] \<and> m \<le> max lo last' \<and> lo \<le> m \<and> ((\<forall>i. \<not> stop i) \<longrightarrow> last' \<le> m)"
proof (induction "last' - lo" arbitrary: lo k rule: less_induct)
  case less
  show ?case
  proof (cases "lo < last' \<and> \<not> (cc \<and> stop k)")
    case False
    then show ?thesis
      by (intro exI [of _ "[]"] exI [of _ lo]) (subst inline_loop.simps, auto)
  next
    case True
    let ?hi = "min (lo + chunk) last'"
    have w: "w64 (lo + chunk) = lo + chunk" using True assms by simp
    have "last' - (lo + chunk) < last' - lo" using True assms(1) by linarith
    from less.hyps [OF this, of "Suc k"] obtain spans m
      where s: "inline_loop stop cc last' chunk (lo + chunk) (Suc k) = Some spans"
        "span_indices spans = [lo + chunk..<m]" "m \<le> max (lo + chunk) last'" "lo + chunk \<le> m"
        "(\<forall>i. \<not> stop i) \<longrightarrow> last' \<le> m"
      using True by auto
    have e: "inline_loop stop cc last' chunk lo k = Some ((lo, ?hi) # spans)"
      by (subst inline_loop.simps) (use True w s(1) in auto)
    show ?thesis
    proof (cases "lo + chunk \<le> last'")
      case True
      then have "[lo..<?hi] @ [lo + chunk..<m] = [lo..<m]"
        using s(4) upt_add_eq_append [of lo "lo + chunk" "m - (lo + chunk)"] by (simp add: min_def)
      with e s True show ?thesis by (intro exI [of _ "(lo, ?hi) # spans"] exI [of _ m]) auto
    next
      case F: False
      with s have "span_indices spans = []" "last' \<le> m" by auto
      with e F True show ?thesis by (intro exI [of _ "(lo, ?hi) # spans"] exI [of _ last']) auto
    qed
  qed
qed

lemma runInlineChunked_prefix:
  assumes "first < last'" "last' + chunk \<le> 2 ^ 64"
  shows "\<exists>spans m. runInlineChunked stop cc first last' chunk = Some spans \<and>
    span_indices spans = [first..<m] \<and> m \<le> last' \<and> first \<le> m \<and> ((\<forall>i. \<not> stop i) \<longrightarrow> m = last')"
proof (cases "stop 0")
  case True
  with assms(1) show ?thesis
    by (intro exI [of _ "[]"] exI [of _ first]) (simp add: runInlineChunked_def, blast)
next
  case go: False
  show ?thesis
  proof (cases "chunk = 0 \<or> last' - first \<le> chunk")
    case True
    with go assms(1) show ?thesis
      by (intro exI [of _ "[(first, last')]"] exI [of _ last']) (auto simp: runInlineChunked_def)
  next
    case False
    then have "0 < chunk" by simp
    from inline_loop_prefix [OF this assms(2), of first stop cc 1] assms(1)
    obtain spans m where s: "inline_loop stop cc last' chunk first 1 = Some spans"
      "span_indices spans = [first..<m]" "m \<le> last'" "first \<le> m" "(\<forall>i. \<not> stop i) \<longrightarrow> last' \<le> m"
      by auto
    have "runInlineChunked stop cc first last' chunk = Some spans"
      using False go s(1) by (simp add: runInlineChunked_def)
    with s(2-5) show ?thesis by (intro exI [of _ spans] exI [of _ m]) auto
  qed
qed

section \<open>The entry\<close>

text \<open>
  A call of \<open>parallelFor\<close>: the thread and its context, the pool and its participants, the range,
  the hints, the token, and the callable: its address, the worker entry instantiated for it and
  the hints, and whether it is an lvalue and \<open>noexcept\<close>.
\<close>

record 'f call =
  ca_thread :: nat
  ca_context :: ThreadContext
  ca_pool :: nat
  ca_participants :: nat
  ca_first :: nat
  ca_last :: nat
  ca_hints :: "'f Hints"
  ca_token :: token
  ca_fn :: nat
  ca_entry :: "'f Hints \<Rightarrow> nat"
  ca_lvalue :: bool
  ca_noexcept :: bool

text \<open>One guard of the write elision: compare, store on a difference, and clear \<open>keyMatches\<close>.\<close>

definition elide :: "(job \<Rightarrow> 'x) \<Rightarrow> (('x \<Rightarrow> 'x) \<Rightarrow> job \<Rightarrow> job) \<Rightarrow> 'x \<Rightarrow> job \<times> bool \<Rightarrow> job \<times> bool" where
  "elide get upd x s = (if get (fst s) \<noteq> x then (upd (\<lambda>_. x) (fst s), False) else s)"

definition parallelFor_key :: "'f call \<Rightarrow> 'f Hints \<Rightarrow> token \<Rightarrow> job \<Rightarrow> job \<times> bool" where
  "parallelFor_key c h tok desc =
     (let s = (desc, True);
          s = elide jd_first jd_first_update (ca_first c) s;
          s = elide jd_last jd_last_update (ca_last c) s;
          s = elide jd_participants jd_participants_update (ca_participants c) s;
          s = (if h_balance h \<noteq> StaticUniform
               then elide jd_balance jd_balance_update (h_balance h) s else s);
          s = elide jd_priority jd_priority_update (h_priority h) s;
          s = elide jd_preWakeCompletionProbe jd_preWakeCompletionProbe_update True s;
          s = (if h_cancellationChecks h then elide jd_token jd_token_update tok s else s);
          s = elide jd_fnPtr jd_fnPtr_update (Some (ca_fn c)) s;
          s = elide jd_workerEntry jd_workerEntry_update (Some (ca_entry c h)) s
      in elide jd_workerStateBase jd_workerStateBase_update (Some (ca_pool c)) s)"

definition parallelFor_shape :: "'f call \<Rightarrow> 'f Hints \<Rightarrow> job \<times> bool \<Rightarrow> job" where
  "parallelFor_shape c h s =
     (let n = ca_last c - ca_first c; P = ca_participants c;
          desc = (if \<not> snd s \<or> jd_chunk (fst s) = 0 \<or> jd_blockCount (fst s) = 0
                  then fillBlockShape (fst s) n P (h_chunk h) (h_balance h = DynamicChunked)
                  else fst s)
      in if h_balance h = DynamicChunked \<and> P < jd_blockCount desc
         then desc\<lparr> jd_nextBlock := P \<rparr> else desc)"

text \<open>Where a call goes: its blocks, and for a dispatch the reuse hint.\<close>

datatype route =
    PfEmpty
  | PfInline "span list option"
  | PfNested nat nat
  | PfDispatch bool

definition parallelFor_nested :: "'f fp \<Rightarrow> 'f call \<Rightarrow> 'f Hints \<Rightarrow> (nat \<Rightarrow> bool) \<Rightarrow> route" where
  "parallelFor_nested fp c h stop =
     (let first = ca_first c; last' = ca_last c; n = last' - first; P = ca_participants c
      in if shouldRunInlineHinted fp h n P
         then PfInline (runInlineChunked stop (h_cancellationChecks h) first last' (h_chunk h))
         else let chunk = (if h_chunk h = 0
                           then let chunk = ceilDiv n (w64 (P * 2)) in if chunk = 0 then 1 else chunk
                           else h_chunk h);
                  blockCount = ceilDiv n chunk
              in if blockCount \<le> 1 then PfInline (Some (runInline stop first last'))
                 else PfNested chunk blockCount)"

definition reuseEligible :: "'f call \<Rightarrow> 'f Hints \<Rightarrow> bool" where
  "reuseEligible c h \<longleftrightarrow> ca_lvalue c \<and> ca_noexcept c \<and> \<not> h_cancellationChecks h"

definition parallelFor_body :: "'f fp \<Rightarrow> 'f call \<Rightarrow> 'f Hints \<Rightarrow> token \<Rightarrow> (nat \<Rightarrow> bool) \<Rightarrow> job \<Rightarrow>
    job \<times> route" where
  "parallelFor_body fp c h tok stop desc =
     (let first = ca_first c; last' = ca_last c;
          inlined = runInlineChunked stop (h_cancellationChecks h) first last' (h_chunk h)
      in if shouldFallThroughCrossArena (ca_context c) (ca_pool c)
         then (desc, if tc_pool (ca_context c) = Some (ca_pool c)
                     then parallelFor_nested fp c h stop else PfInline inlined)
         else if shouldRunInlineHinted fp h (last' - first) (ca_participants c)
         then (desc, PfInline inlined)
         else let s = parallelFor_key c h tok desc; desc' = parallelFor_shape c h s
              in if jd_blockCount desc' \<le> 1
                 then (desc', PfInline (Some (runInline (if h_cancellationChecks h then stop else (\<lambda>_. False))
                                          first last')))
                 else (desc', PfDispatch (reuseEligible c h \<and> snd s)))"

definition parallelFor :: "'f fp \<Rightarrow> 'f call \<Rightarrow> (nat \<Rightarrow> bool) \<Rightarrow> job \<Rightarrow> job \<times> route" where
  "parallelFor fp c stop desc =
     (if ca_last c \<le> ca_first c then (desc, PfEmpty)
      else if h_cancellationChecks (ca_hints c) \<and> \<not> canStop (ca_token c)
      then parallelFor_body fp c (NoCancellationHints (ca_hints c)) None (\<lambda>_. False) desc
      else parallelFor_body fp c (ca_hints c) (ca_token c) stop desc)"


subsection \<open>The key\<close>

lemma elide_fields:
  "elide jd_first jd_first_update a (d, k) = (d\<lparr> jd_first := a \<rparr>, k \<and> jd_first d = a)"
  "elide jd_last jd_last_update a (d, k) = (d\<lparr> jd_last := a \<rparr>, k \<and> jd_last d = a)"
  "elide jd_participants jd_participants_update a (d, k)
    = (d\<lparr> jd_participants := a \<rparr>, k \<and> jd_participants d = a)"
  "elide jd_chunk jd_chunk_update a (d, k) = (d\<lparr> jd_chunk := a \<rparr>, k \<and> jd_chunk d = a)"
  "elide jd_blockCount jd_blockCount_update a (d, k)
    = (d\<lparr> jd_blockCount := a \<rparr>, k \<and> jd_blockCount d = a)"
  "elide jd_balance jd_balance_update b (d, k) = (d\<lparr> jd_balance := b \<rparr>, k \<and> jd_balance d = b)"
  "elide jd_priority jd_priority_update p (d, k)
    = (d\<lparr> jd_priority := p \<rparr>, k \<and> jd_priority d = p)"
  "elide jd_preWakeCompletionProbe jd_preWakeCompletionProbe_update w (d, k)
    = (d\<lparr> jd_preWakeCompletionProbe := w \<rparr>, k \<and> jd_preWakeCompletionProbe d = w)"
  "elide jd_token jd_token_update t (d, k) = (d\<lparr> jd_token := t \<rparr>, k \<and> jd_token d = t)"
  "elide jd_fnPtr jd_fnPtr_update q (d, k) = (d\<lparr> jd_fnPtr := q \<rparr>, k \<and> jd_fnPtr d = q)"
  "elide jd_workerEntry jd_workerEntry_update q (d, k)
    = (d\<lparr> jd_workerEntry := q \<rparr>, k \<and> jd_workerEntry d = q)"
  "elide jd_workerStateBase jd_workerStateBase_update q (d, k)
    = (d\<lparr> jd_workerStateBase := q \<rparr>, k \<and> jd_workerStateBase d = q)"
  by (auto simp: elide_def intro!: job.equality)

text \<open>What a dispatch means to the workers: the parameters they cache.\<close>

record CachedTypedForJob =
  tj_blockCount :: nat
  tj_participants :: nat
  tj_chunk :: nat
  tj_first :: nat
  tj_last :: nat
  tj_fnPtr :: "nat option"
  tj_workerStateBase :: "nat option"
  tj_entry :: "nat option"

definition cached_params :: "job \<Rightarrow> CachedTypedForJob" where
  "cached_params j = \<lparr> tj_blockCount = jd_blockCount j, tj_participants = jd_participants j,
     tj_chunk = jd_chunk j, tj_first = jd_first j, tj_last = jd_last j, tj_fnPtr = jd_fnPtr j,
     tj_workerStateBase = jd_workerStateBase j, tj_entry = jd_workerEntry j \<rparr>"

lemma parallelFor_key_fields:
  assumes "parallelFor_key c h tok d = (d', km)"
  shows "jd_first d' = ca_first c" "jd_last d' = ca_last c" "jd_participants d' = ca_participants c"
    "jd_fnPtr d' = Some (ca_fn c)" "jd_workerEntry d' = Some (ca_entry c h)"
    "jd_workerStateBase d' = Some (ca_pool c)" "jd_chunk d' = jd_chunk d"
    "jd_blockCount d' = jd_blockCount d" "km \<Longrightarrow> cached_params d' = cached_params d"
  using assms by (auto simp: parallelFor_key_def Let_def elide_fields cached_params_def split: if_splits)

subsection \<open>The blocks of a call\<close>

definition nested_spans :: "nat \<Rightarrow> nat \<Rightarrow> nat \<Rightarrow> nat \<Rightarrow> span list" where
  "nested_spans first last' chunk blockCount =
     filter (\<lambda>(lo, hi). lo < hi)
       (map (\<lambda>b. let lo = w64 (first + w64 (b * chunk)) in (lo, min (w64 (lo + chunk)) last'))
          [0..<blockCount])"

fun route_spans :: "nat \<Rightarrow> nat \<Rightarrow> job \<Rightarrow> route \<Rightarrow> span list option" where
  "route_spans first last' desc PfEmpty = Some []"
| "route_spans first last' desc (PfInline spans) = spans"
| "route_spans first last' desc (PfNested chunk blockCount) =
     Some (nested_spans first last' chunk blockCount)"
| "route_spans first last' desc (PfDispatch reuseHint) =
     Some (map (\<lambda>b. (block_lo desc b, block_hi desc b)) [0..<jd_blockCount desc])"

definition valid_call :: "'f call \<Rightarrow> bool" where
  "valid_call c \<longleftrightarrow> 0 < ca_participants c \<and> ca_participants c * 2 < 2 ^ 64 \<and> ca_last c < 2 ^ 64 \<and>
     ca_last c + (if h_chunk (ca_hints c) = 0 then ca_last c - ca_first c
                  else h_chunk (ca_hints c)) \<le> 2 ^ 64"

text \<open>The invariant of a thread's descriptor: fresh, or carrying the shape of its range.\<close>

definition shape_ok :: "job \<Rightarrow> bool" where
  "shape_ok d \<longleftrightarrow> jd_workerEntry d = None \<or> shaped d"

lemma shaped_cong:
  "cached_params d = cached_params d' \<Longrightarrow> shaped d = shaped d'"
  by (simp add: cached_params_def shaped_def)

lemma parallelFor_shape_shaped:
  assumes "valid_call c" "ca_first c < ca_last c" "h_chunk h = h_chunk (ca_hints c)" "shape_ok d"
    and key: "parallelFor_key c h tok d = (d', km)"
  shows "shaped (parallelFor_shape c h (d', km))"
proof -
  note f = parallelFor_key_fields [OF key]
  let ?fill = "fillBlockShape d' (ca_last c - ca_first c) (ca_participants c) (h_chunk h)
    (h_balance h = DynamicChunked)"
  have "shaped ?fill"
    using assms(1-3) f by (intro fillBlockShape_shaped) (auto simp: valid_call_def)
  moreover have "shaped d'" if "km"
  proof -
    have e: "cached_params d' = cached_params d" by (rule f(9) [OF that])
    then have "jd_workerEntry d = jd_workerEntry d'" by (simp add: cached_params_def)
    with f(5) assms(4) have "shaped d" by (simp add: shape_ok_def)
    with shaped_cong [OF e] show ?thesis by simp
  qed
  moreover have "shaped (j\<lparr> jd_nextBlock := p \<rparr>) = shaped j" for j p by (simp add: shaped_def)
  ultimately show ?thesis by (auto simp: parallelFor_shape_def Let_def)
qed

lemma parallelFor_shape_fields:
  assumes key: "parallelFor_key c h tok d = (d', km)"
  shows "jd_first (parallelFor_shape c h (d', km)) = ca_first c"
    "jd_last (parallelFor_shape c h (d', km)) = ca_last c"
    "jd_participants (parallelFor_shape c h (d', km)) = ca_participants c"
    "jd_fnPtr (parallelFor_shape c h (d', km)) = Some (ca_fn c)"
    "jd_workerEntry (parallelFor_shape c h (d', km)) = Some (ca_entry c h)"
    "jd_workerStateBase (parallelFor_shape c h (d', km)) = Some (ca_pool c)"
  using parallelFor_key_fields [OF key]
  by (simp_all add: parallelFor_shape_def fillBlockShape_def Let_def)

lemma parallelFor_shape_reuse:
  assumes "shape_ok d" and key: "parallelFor_key c h tok d = (d', True)"
  shows "cached_params (parallelFor_shape c h (d', True)) = cached_params d"
proof -
  note f = parallelFor_key_fields [OF key]
  have e: "cached_params d' = cached_params d" by (rule f(9)) simp
  then have "jd_workerEntry d = jd_workerEntry d'" by (simp add: cached_params_def)
  with f(5) assms(1) have "shaped d" by (simp add: shape_ok_def)
  then have "jd_chunk d' \<noteq> 0" "jd_blockCount d' \<noteq> 0"
    using ceilDiv_pos [of "jd_chunk d" "jd_last d - jd_first d"] by (simp_all add: f(7,8) shaped_def)
  with e show ?thesis by (simp add: parallelFor_shape_def Let_def cached_params_def)
qed

lemma map_tile:
  "shaped j \<Longrightarrow> span_indices (map (\<lambda>b. (block_lo j b, block_hi j b)) [0..<jd_blockCount j])
    = [jd_first j..<jd_last j]"
  using blocks_tile [of j] by (simp add: comp_def)

lemma span_indices_filter: "span_indices (filter (\<lambda>(lo, hi). lo < hi) spans) = span_indices spans"
  by (induction spans) auto

lemma nested_tile:
  assumes "first < last'" "0 < chunk" "last' + chunk \<le> 2 ^ 64"
  shows "span_indices (nested_spans first last' chunk (ceilDiv (last' - first) chunk)) = [first..<last']"
proof -
  define j where "j = empty_job\<lparr> jd_first := first, jd_last := last', jd_chunk := chunk,
     jd_blockCount := ceilDiv (last' - first) chunk \<rparr>"
  have "shaped j" using assms by (simp add: j_def shaped_def)
  from map_tile [OF this] show ?thesis
    unfolding nested_spans_def span_indices_filter
    by (simp add: j_def block_lo_def block_hi_def Let_def)
qed

lemma inline_tile:
  assumes "first < last'" "last' + chunk \<le> 2 ^ 64" "\<forall>i. \<not> stop i"
  obtains spans where "runInlineChunked stop cc first last' chunk = Some spans"
    "span_indices spans = [first..<last']"
  using runInlineChunked_prefix [OF assms(1,2), of stop cc] assms(3) by blast

lemma parallelFor_nested_tile:
  assumes "valid_call c" "ca_first c < ca_last c" "h_chunk h = h_chunk (ca_hints c)" "\<forall>i. \<not> stop i"
  shows "\<exists>spans. route_spans (ca_first c) (ca_last c) d (parallelFor_nested fp c h stop) = Some spans \<and>
    span_indices spans = [ca_first c..<ca_last c]"
proof -
  let ?n = "ca_last c - ca_first c"
  let ?chunk = "if h_chunk h = 0 then (let k = ceilDiv ?n (w64 (ca_participants c * 2)) in if k = 0 then 1 else k)
    else h_chunk h"
  have b: "ca_last c + h_chunk h \<le> 2 ^ 64" using assms(1,3) by (auto simp: valid_call_def split: if_splits)
  have "0 < ?n" using assms(2) by simp
  moreover have "ceilDiv ?n (w64 (ca_participants c * 2)) \<le> ?n"
    using assms(1) by (intro ceilDiv_le) (simp add: valid_call_def)
  ultimately have k: "0 < ?chunk" "ca_last c + ?chunk \<le> 2 ^ 64"
    using assms(1,3) by (auto simp: valid_call_def Let_def)
  obtain spans where "runInlineChunked stop (h_cancellationChecks h) (ca_first c) (ca_last c) (h_chunk h)
      = Some spans" "span_indices spans = [ca_first c..<ca_last c]"
    by (rule inline_tile [OF assms(2) b assms(4)])
  moreover note nested_tile [OF assms(2) k]
  ultimately show ?thesis using assms(4)
    by (auto simp: parallelFor_nested_def Let_def runInline_def)
qed

lemma parallelFor_body_tile:
  assumes "valid_call c" "ca_first c < ca_last c" "h_chunk h = h_chunk (ca_hints c)" "\<forall>i. \<not> stop i"
    and "shape_ok d" "parallelFor_body fp c h tok stop d = (d', r)"
  shows "shape_ok d' \<and> (\<exists>spans. route_spans (ca_first c) (ca_last c) d' r = Some spans \<and>
    span_indices spans = [ca_first c..<ca_last c])"
proof -
  have st: "stop = (\<lambda>_. False)" using assms(4) by auto
  have b: "ca_last c + h_chunk h \<le> 2 ^ 64" using assms(1,3) by (auto simp: valid_call_def split: if_splits)
  obtain inl where inl: "runInlineChunked stop (h_cancellationChecks h) (ca_first c) (ca_last c) (h_chunk h)
      = Some inl" "span_indices inl = [ca_first c..<ca_last c]"
    by (rule inline_tile [OF assms(2) b assms(4)])
  obtain k km where key: "parallelFor_key c h tok d = (k, km)" by fastforce
  note sh = parallelFor_shape_shaped [OF assms(1-3,5) key]
  note f = parallelFor_shape_fields [OF key]
  have "shape_ok (parallelFor_shape c h (k, km))" using sh by (simp add: shape_ok_def)
  then show ?thesis
    using assms(5,6) inl map_tile [OF sh] parallelFor_nested_tile [OF assms(1-4), of d' fp]
    by (auto simp: parallelFor_body_def Let_def key f runInline_def st split: if_splits)
qed

text \<open>
  C16. Every call of \<open>parallelFor\<close> that is not stopped covers its range exactly: on every path
  (empty, inline, chunked inline, nested inside a body of the same pool, from a worker of another
  pool, dispatched) the spans the body is called on exist, and list \<open>[first, last)\<close> in order; the
  thread's descriptor keeps a shape that fits its range.
\<close>

theorem parallelFor_tiles:
  assumes "valid_call c" and "\<forall>i. \<not> stop i" and "shape_ok d"
    and "parallelFor fp c stop d = (d', r)"
  shows "shape_ok d' \<and> (\<exists>spans. route_spans (ca_first c) (ca_last c) d' r = Some spans \<and>
    span_indices spans = [ca_first c..<ca_last c])"
proof (cases "ca_first c < ca_last c")
  case False
  with assms(3,4) show ?thesis by (auto simp: parallelFor_def)
next
  case True
  note tile = parallelFor_body_tile [OF assms(1) True _ _ assms(3)]
  show ?thesis
  proof (cases "h_cancellationChecks (ca_hints c) \<and> \<not> canStop (ca_token c)")
    case no: True
    with True assms(4) have "parallelFor_body fp c (NoCancellationHints (ca_hints c)) None
      (\<lambda>_. False) d = (d', r)" by (simp add: parallelFor_def)
    then show ?thesis by (rule tile [rotated 2]) (simp_all add: NoCancellationHints_def)
  next
    case False
    with True assms(4) have "parallelFor_body fp c (ca_hints c) (ca_token c) stop d = (d', r)"
      by (auto simp: parallelFor_def)
    then show ?thesis by (rule tile [rotated 2]) (use assms(2) in simp_all)
  qed
qed

text \<open>The sibling with runtime hints: a fresh descriptor, no nesting, no reuse.\<close>

definition parallelForRuntime :: "'f fp \<Rightarrow> 'f call \<Rightarrow> (nat \<Rightarrow> bool) \<Rightarrow> job \<times> route" where
  "parallelForRuntime fp c stop =
     (let first = ca_first c; last' = ca_last c; h = ca_hints c; n = last' - first;
          P = ca_participants c;
          tok = (if h_cancellationChecks h then ca_token c else None);
          polls = (if h_cancellationChecks h then stop else (\<lambda>_. False));
          inlined = PfInline (runInlineChunked polls (h_cancellationChecks h) first last' (h_chunk h))
      in if last' \<le> first then (empty_job, PfEmpty)
         else if shouldFallThroughCrossArena (ca_context c) (ca_pool c) then (empty_job, inlined)
         else if shouldRunInline fp n P (h_estimatedItemNs h) (h_minTaskUs h) then (empty_job, inlined)
         else let desc = fillBlockShape (empty_job\<lparr> jd_first := first, jd_last := last',
                    jd_participants := P, jd_balance := h_balance h, jd_priority := h_priority h,
                    jd_preWakeCompletionProbe := True, jd_body := ca_fn c, jd_token := tok \<rparr>)
                    n P (h_chunk h) True
              in if jd_blockCount desc \<le> 1 then (desc, inlined)
                 else (if h_balance h = DynamicChunked \<and> P < jd_blockCount desc
                       then desc\<lparr> jd_nextBlock := P \<rparr> else desc, PfDispatch False))"

lemma parallelForRuntime_tiles:
  assumes "valid_call c" and "\<forall>i. \<not> stop i" and "parallelForRuntime fp c stop = (d, r)"
  shows "\<exists>spans. route_spans (ca_first c) (ca_last c) d r = Some spans \<and>
    span_indices spans = [ca_first c..<ca_last c]"
proof (cases "ca_first c < ca_last c")
  case False
  with assms(3) show ?thesis by (auto simp: parallelForRuntime_def Let_def)
next
  case True
  let ?h = "ca_hints c"
  have st: "stop = (\<lambda>_. False)" using assms(2) by auto
  have b: "ca_last c + h_chunk ?h \<le> 2 ^ 64" using assms(1) by (auto simp: valid_call_def split: if_splits)
  obtain inl where inl: "runInlineChunked (\<lambda>_. False) (h_cancellationChecks ?h) (ca_first c) (ca_last c)
      (h_chunk ?h) = Some inl" "span_indices inl = [ca_first c..<ca_last c]"
    using inline_tile [OF True b, of "\<lambda>_. False"] by blast
  define j where "j = fillBlockShape (empty_job\<lparr> jd_first := ca_first c, jd_last := ca_last c,
     jd_participants := ca_participants c, jd_balance := h_balance ?h, jd_priority := h_priority ?h,
     jd_preWakeCompletionProbe := True, jd_body := ca_fn c,
     jd_token := (if h_cancellationChecks ?h then ca_token c else None) \<rparr>)
     (ca_last c - ca_first c) (ca_participants c) (h_chunk ?h) True"
  have "shaped j" unfolding j_def
    by (rule fillBlockShape_shaped) (use True assms(1) in \<open>auto simp: valid_call_def\<close>)
  moreover have "jd_first j = ca_first c" "jd_last j = ca_last c"
    by (simp_all add: j_def fillBlockShape_def Let_def)
  ultimately have t: "span_indices (map (\<lambda>b. (block_lo j b, block_hi j b)) [0..<jd_blockCount j])
      = [ca_first c..<ca_last c]" using map_tile [of j] by simp
  have u: "block_lo (j\<lparr> jd_nextBlock := p \<rparr>) b = block_lo j b"
    "block_hi (j\<lparr> jd_nextBlock := p \<rparr>) b = block_hi j b" for p b
    by (simp_all add: block_lo_def block_hi_def)
  show ?thesis
    using assms(3) True inl t
    unfolding parallelForRuntime_def Let_def st j_def [symmetric]
    by (auto simp: u split: if_splits)
qed

section \<open>Reuse of the workers' caches\<close>

text \<open>
  The reducers' key: the same guards on the thread's reduce descriptor, without the pool's worker
  array, which this dispatch does not use.
\<close>

record 'f reduce_call =
  rc_thread :: nat
  rc_pool :: nat
  rc_participants :: nat
  rc_first :: nat
  rc_last :: nat
  rc_chunk :: nat
  rc_chunks :: nat
  rc_hints :: "'f Hints"
  rc_token :: token
  rc_body :: nat
  rc_entry :: "'f Hints \<Rightarrow> nat"

definition dispatchReduceJobTyped :: "'f reduce_call \<Rightarrow> job \<Rightarrow> job \<times> bool" where
  "dispatchReduceJobTyped c desc =
     (let h = rc_hints c;
          s = (desc, True);
          s = elide jd_first jd_first_update (rc_first c) s;
          s = elide jd_last jd_last_update (rc_last c) s;
          s = elide jd_participants jd_participants_update (rc_participants c) s;
          s = elide jd_balance jd_balance_update StaticUniform s;
          s = elide jd_priority jd_priority_update (h_priority h) s;
          s = elide jd_preWakeCompletionProbe jd_preWakeCompletionProbe_update True s;
          s = elide jd_chunk jd_chunk_update (rc_chunk c) s;
          s = elide jd_blockCount jd_blockCount_update (rc_chunks c) s;
          s = elide jd_fnPtr jd_fnPtr_update (Some (rc_body c)) s;
          s = elide jd_workerEntry jd_workerEntry_update (Some (rc_entry c h)) s;
          s = elide jd_workerStateBase jd_workerStateBase_update None s;
          s = (if h_cancellationChecks h then elide jd_token jd_token_update (rc_token c) s else s)
      in (fst s, \<not> h_cancellationChecks h \<and> snd s))"

text \<open>
  The threads' two descriptors, each pool's \<open>m_lastPublishedDesc\<close> (the thread, and whether its
  reduce descriptor), and what the workers of each pool have cached (the workers of a pool refresh their
  caches at the same dispatches; the cache of each instantiation is one here, the entry is a field). The calls of a schedule are
  in the order in which they pass the pools' gates; the descriptors are thread-local. The last
  component is the history: what the workers of the pool ran for each dispatch.
\<close>

text \<open>
  \<open>OtherDispatch\<close> is any dispatch of a pool with a descriptor of its own (runtime hints, scan, chain,
  plex, fork-join): it carries no reuse hint, and \<open>m_lastPublishedDesc\<close> names neither descriptor after it.
\<close>

datatype 'f entry_call =
    ForCall "'f call"
  | ReduceCall "'f reduce_call"
  | OtherDispatch nat CachedTypedForJob

record 'f reuse_state =
  ru_for :: "nat \<Rightarrow> job"
  ru_reduce :: "nat \<Rightarrow> job"
  ru_lastPublished :: "nat \<Rightarrow> (nat \<times> bool) option"
  ru_cache :: "nat \<Rightarrow> CachedTypedForJob"
  ru_ran :: "('f entry_call \<times> CachedTypedForJob) list"

definition reuse_start :: "'f reuse_state" where
  "reuse_start = \<lparr> ru_for = (\<lambda>_. empty_job), ru_reduce = (\<lambda>_. empty_job),
     ru_lastPublished = (\<lambda>_. None), ru_cache = (\<lambda>_. cached_params empty_job), ru_ran = [] \<rparr>"

definition publish :: "nat \<Rightarrow> nat \<times> bool \<Rightarrow> job \<Rightarrow> bool \<Rightarrow> 'f entry_call \<Rightarrow> 'f reuse_state \<Rightarrow> 'f reuse_state" where
  "publish pool ident desc reuseHint c s =
     (if reuseHint \<and> ru_lastPublished s pool = Some ident
      then s\<lparr> ru_ran := ru_ran s @ [(c, ru_cache s pool)] \<rparr>
      else s\<lparr> ru_lastPublished := (ru_lastPublished s)(pool := Some ident),
              ru_cache := (ru_cache s)(pool := cached_params desc),
              ru_ran := ru_ran s @ [(c, cached_params desc)] \<rparr>)"

fun entry_step :: "'f fp \<Rightarrow> 'f reuse_state \<Rightarrow> 'f entry_call \<Rightarrow> 'f reuse_state" where
  "entry_step fp s (ForCall c) =
     (let (desc, r) = parallelFor fp c (\<lambda>_. False) (ru_for s (ca_thread c));
          s' = s\<lparr> ru_for := (ru_for s)(ca_thread c := desc) \<rparr>
      in case r of PfDispatch reuseHint \<Rightarrow>
           publish (ca_pool c) (ca_thread c, False) desc reuseHint (ForCall c) s'
         | _ \<Rightarrow> s')"
| "entry_step fp s (ReduceCall c) =
     (let (desc, reuseHint) = dispatchReduceJobTyped c (ru_reduce s (rc_thread c))
      in publish (rc_pool c) (rc_thread c, True) desc reuseHint (ReduceCall c)
           (s\<lparr> ru_reduce := (ru_reduce s)(rc_thread c := desc) \<rparr>))"
| "entry_step fp s (OtherDispatch pool params) =
     s\<lparr> ru_lastPublished := (ru_lastPublished s)(pool := None), ru_cache := (ru_cache s)(pool := params) \<rparr>"

definition reuse_run :: "'f fp \<Rightarrow> 'f entry_call list \<Rightarrow> 'f reuse_state" where
  "reuse_run fp cs = foldl (entry_step fp) reuse_start cs"

text \<open>What the workers of a \<open>parallelFor\<close> must run.\<close>

definition effective_hints :: "'f call \<Rightarrow> 'f Hints" where
  "effective_hints c = (if h_cancellationChecks (ca_hints c) \<and> \<not> canStop (ca_token c)
     then NoCancellationHints (ca_hints c) else ca_hints c)"

definition runs_call :: "'f call \<Rightarrow> CachedTypedForJob \<Rightarrow> bool" where
  "runs_call c p \<longleftrightarrow> tj_first p = ca_first c \<and> tj_last p = ca_last c \<and>
     tj_participants p = ca_participants c \<and> tj_fnPtr p = Some (ca_fn c) \<and>
     tj_entry p = Some (ca_entry c (effective_hints c)) \<and>
     tj_workerStateBase p = Some (ca_pool c) \<and> 0 < tj_chunk p \<and>
     tj_blockCount p = ceilDiv (tj_last p - tj_first p) (tj_chunk p)"

definition valid_entry :: "'f entry_call \<Rightarrow> bool" where
  "valid_entry e = (case e of ForCall c \<Rightarrow> valid_call c | _ \<Rightarrow> True)"

text \<open>
  A pool whose last publish was a thread's descriptor has its parameters in the caches, as long
  as the descriptor still names this pool and more than one block.
\<close>

definition reuse_inv :: "'f reuse_state \<Rightarrow> bool" where
  "reuse_inv s \<longleftrightarrow> (\<forall>t. shape_ok (ru_for s t)) \<and>
     (\<forall>p t. ru_lastPublished s p = Some (t, False) \<longrightarrow>
        jd_workerStateBase (ru_for s t) = Some p \<longrightarrow> 1 < jd_blockCount (ru_for s t) \<longrightarrow>
        ru_cache s p = cached_params (ru_for s t)) \<and>
     (\<forall>c q. (ForCall c, q) \<in> set (ru_ran s) \<longrightarrow> runs_call c q)"

lemma shape_ok_empty: "shape_ok empty_job"
  by (simp add: shape_ok_def empty_job_def)

lemma reuse_inv_start: "reuse_inv reuse_start"
  by (simp add: reuse_inv_def reuse_start_def shape_ok_empty)

lemma shaped_runs_call:
  assumes "shaped d" "jd_first d = ca_first c" "jd_last d = ca_last c"
    "jd_participants d = ca_participants c" "jd_fnPtr d = Some (ca_fn c)"
    "jd_workerEntry d = Some (ca_entry c (effective_hints c))"
    "jd_workerStateBase d = Some (ca_pool c)"
  shows "runs_call c (cached_params d)"
  using assms by (simp add: runs_call_def cached_params_def shaped_def)

text \<open>
  What a call does to the thread's descriptor: nothing, or a key without a dispatch, or a dispatch
  of a fitting descriptor, whose reuse hint means that the parameters are those found.
\<close>

definition call_effect :: "'f call \<Rightarrow> job \<Rightarrow> job \<Rightarrow> route \<Rightarrow> bool" where
  "call_effect c d d' r \<longleftrightarrow> (case r of PfDispatch hint \<Rightarrow>
       shaped d' \<and> runs_call c (cached_params d') \<and> 1 < jd_blockCount d' \<and>
       (hint \<longrightarrow> cached_params d' = cached_params d)
     | _ \<Rightarrow> d' = d \<or> shaped d' \<and> jd_blockCount d' \<le> 1)"

lemma parallelFor_nested_no_dispatch: "parallelFor_nested fp c h stop \<noteq> PfDispatch b"
  by (simp add: parallelFor_nested_def Let_def)

lemma parallelFor_body_effect:
  assumes "valid_call c" "ca_first c < ca_last c" "h = effective_hints c" "shape_ok d"
    "parallelFor_body fp c h tok stop d = (d', r)"
  shows "call_effect c d d' r"
proof -
  obtain k km where key: "parallelFor_key c h tok d = (k, km)" by fastforce
  have hc: "h_chunk h = h_chunk (ca_hints c)"
    using assms(3) by (simp add: effective_hints_def NoCancellationHints_def)
  let ?d = "parallelFor_shape c h (k, km)"
  note sh = parallelFor_shape_shaped [OF assms(1,2) hc assms(4) key]
  note f = parallelFor_shape_fields [OF key]
  have "runs_call c (cached_params ?d)" using f assms(3) by (intro shaped_runs_call [OF sh]) simp_all
  moreover have "cached_params ?d = cached_params d" if "km"
    using parallelFor_shape_reuse [OF assms(4), of c h tok k] key that by simp
  ultimately show ?thesis
    using assms(5) sh parallelFor_nested_no_dispatch [of fp c h stop]
    by (auto simp: parallelFor_body_def Let_def key call_effect_def split: if_splits route.splits)
qed

lemma parallelFor_effect:
  assumes "valid_call c" "shape_ok d" "parallelFor fp c stop d = (d', r)"
  shows "call_effect c d d' r"
proof (cases "ca_first c < ca_last c")
  case False
  with assms(3) show ?thesis by (auto simp: parallelFor_def call_effect_def)
next
  case True
  then obtain tok st where "parallelFor_body fp c (effective_hints c) tok st d = (d', r)"
    using assms(3) by (auto simp: parallelFor_def effective_hints_def split: if_splits)
  with assms(1) True assms(2) show ?thesis by (intro parallelFor_body_effect) simp_all
qed

lemma entry_step_inv:
  assumes inv: "reuse_inv s" and v: "valid_entry e"
  shows "reuse_inv (entry_step fp s e)"
proof (cases e)
  case (ReduceCall c)
  then show ?thesis using inv
    by (auto simp: reuse_inv_def publish_def Let_def split: prod.splits)
next
  case (OtherDispatch pool params)
  then show ?thesis using inv by (auto simp: reuse_inv_def)
next
  case (ForCall c)
  let ?t = "ca_thread c"
  obtain d' r where pf: "parallelFor fp c (\<lambda>_. False) (ru_for s ?t) = (d', r)" by fastforce
  have ok: "shape_ok (ru_for s ?t)" using inv by (simp add: reuse_inv_def)
  have vc: "valid_call c" using v ForCall by (simp add: valid_entry_def)
  note eff = parallelFor_effect [OF vc ok pf]
  have ok': "shape_ok d'" using eff ok by (auto simp: call_effect_def shape_ok_def split: route.splits)
  show ?thesis
  proof (cases "\<exists>b. r = PfDispatch b")
    case False
    then have "entry_step fp s e = s\<lparr> ru_for := (ru_for s)(?t := d') \<rparr>"
      using ForCall pf by (cases r) (auto simp: Let_def)
    moreover have "d' = ru_for s ?t \<or> jd_blockCount d' \<le> 1"
      using eff False by (auto simp: call_effect_def split: route.splits)
    ultimately show ?thesis using inv ok' by (auto simp: reuse_inv_def)
  next
    case True
    then obtain b where r: "r = PfDispatch b" by blast
    have e: "shaped d'" "runs_call c (cached_params d')" "1 < jd_blockCount d'"
      "b \<Longrightarrow> cached_params d' = cached_params (ru_for s ?t)"
      using eff r by (auto simp: call_effect_def)
    have base: "jd_workerStateBase d' = Some (ca_pool c)"
      using e(2) by (simp add: runs_call_def cached_params_def)
    show ?thesis
    proof (cases "b \<and> ru_lastPublished s (ca_pool c) = Some (?t, False)")
      case F: False
      then show ?thesis using inv ok' e(2) base ForCall pf r
        by (auto simp: reuse_inv_def publish_def)
    next
      case reuse: True
      then have same: "cached_params d' = cached_params (ru_for s ?t)" by (intro e(4)) simp
      then have "jd_workerStateBase (ru_for s ?t) = Some (ca_pool c)"
        "1 < jd_blockCount (ru_for s ?t)"
        using base e(3) by (simp_all add: cached_params_def)
      with reuse inv have "ru_cache s (ca_pool c) = cached_params d'"
        unfolding same by (simp add: reuse_inv_def)
      moreover have "entry_step fp s e = s\<lparr> ru_for := (ru_for s)(?t := d'),
          ru_ran := ru_ran s @ [(ForCall c, ru_cache s (ca_pool c))] \<rparr>"
        using ForCall pf r reuse by (simp add: publish_def)
      ultimately show ?thesis using inv ok' e(2) same base
        by (auto simp: reuse_inv_def cached_params_def)
    qed
  qed
qed

lemma reuse_run_inv:
  assumes "\<forall>e\<in>set cs. valid_entry e"
  shows "reuse_inv (reuse_run fp cs)"
proof -
  have "reuse_inv s \<Longrightarrow> \<forall>e\<in>set cs. valid_entry e \<Longrightarrow> reuse_inv (foldl (entry_step fp) s cs)" for s cs
    by (induction cs arbitrary: s) (simp_all add: entry_step_inv)
  with assms show ?thesis by (simp add: reuse_run_def reuse_inv_start)
qed

text \<open>
  C17. Reuse is sound for \<open>parallelFor\<close>: after any sequence of calls of \<open>parallelFor\<close> and of the
  reducers and of dispatches with other descriptors, by any threads on any pools, the workers of every dispatched \<open>parallelFor\<close> have run
  exactly its parameters (range, block shape, callable, entry, pool), whether they read the
  descriptor or kept their cache.
\<close>

theorem parallelFor_reuse_sound:
  assumes "\<forall>e\<in>set cs. valid_entry e" and "(ForCall c, p) \<in> set (ru_ran (reuse_run fp cs))"
  shows "runs_call c p"
  using reuse_run_inv [OF assms(1), of fp] assms(2) by (simp add: reuse_inv_def)


subsection \<open>The reducers on one pool per thread and participant count\<close>

text \<open>The parameters a reduction means, and those its slots have: slot 0 reads the descriptor, a worker its cache.\<close>

definition reduce_params :: "'f reduce_call \<Rightarrow> CachedTypedForJob" where
  "reduce_params c = \<lparr> tj_blockCount = rc_chunks c, tj_participants = rc_participants c,
     tj_chunk = rc_chunk c, tj_first = rc_first c, tj_last = rc_last c, tj_fnPtr = Some (rc_body c),
     tj_workerStateBase = None, tj_entry = Some (rc_entry c (rc_hints c)) \<rparr>"

definition reduce_slot_params :: "'f fp \<Rightarrow> 'f entry_call list \<Rightarrow> 'f reduce_call \<Rightarrow> nat \<Rightarrow> CachedTypedForJob" where
  "reduce_slot_params fp cs c slot =
     (let s = entry_step fp (reuse_run fp cs) (ReduceCall c)
      in if slot = 0 then cached_params (ru_reduce s (rc_thread c)) else ru_cache s (rc_pool c))"

text \<open>
  The key holds the participants but not the pool; it names the pool if each thread reduces on one
  pool per participant count.
\<close>

definition pools_fixed :: "'f entry_call list \<Rightarrow> bool" where
  "pools_fixed cs \<longleftrightarrow> (\<forall>e \<in> set cs. \<forall>e' \<in> set cs. case (e, e') of
     (ReduceCall c, ReduceCall c') \<Rightarrow> rc_thread c = rc_thread c' \<longrightarrow>
       rc_participants c = rc_participants c' \<longrightarrow> rc_pool c = rc_pool c'
   | _ \<Rightarrow> True)"

lemma pools_fixedD:
  assumes "pools_fixed cs" "ReduceCall c \<in> set cs" "ReduceCall c' \<in> set cs"
    and "rc_thread c = rc_thread c'" "rc_participants c = rc_participants c'"
  shows "rc_pool c = rc_pool c'"
  using assms unfolding pools_fixed_def by fastforce

lemma dispatchReduceJobTyped_effect:
  assumes "dispatchReduceJobTyped c d = (d', hint)"
  shows "cached_params d' = reduce_params c" "hint \<Longrightarrow> cached_params d' = cached_params d"
  using assms
  by (auto simp: dispatchReduceJobTyped_def Let_def elide_fields cached_params_def reduce_params_def split: if_splits)

text \<open>
  A pool that a thread's reduce descriptor was published on last has its parameters in the caches, as
  long as the descriptor's participants are those of that thread's calls on that pool.
\<close>

definition reduce_inv :: "'f entry_call list \<Rightarrow> 'f reuse_state \<Rightarrow> bool" where
  "reduce_inv cs s \<longleftrightarrow> (\<forall>c. ReduceCall c \<in> set cs \<longrightarrow>
     ru_lastPublished s (rc_pool c) = Some (rc_thread c, True) \<longrightarrow>
     tj_participants (cached_params (ru_reduce s (rc_thread c))) = rc_participants c \<longrightarrow>
     ru_cache s (rc_pool c) = cached_params (ru_reduce s (rc_thread c)))"

lemma reduce_inv_other:
  assumes "reduce_inv cs s" "ru_reduce s' = ru_reduce s"
    and "\<And>p. ru_lastPublished s' p = ru_lastPublished s p \<and> ru_cache s' p = ru_cache s p \<or>
      (\<forall>t. ru_lastPublished s' p \<noteq> Some (t, True))"
  shows "reduce_inv cs s'"
  using assms unfolding reduce_inv_def by metis

lemma reduce_call_step:
  fixes c :: "'f reduce_call"
  assumes fixed: "pools_fixed cs" and c: "ReduceCall c \<in> set cs" and inv: "reduce_inv cs s"
  shows "reduce_inv cs (entry_step fp s (ReduceCall c))"
    and "cached_params (ru_reduce (entry_step fp s (ReduceCall c)) (rc_thread c)) = reduce_params c"
    and "ru_cache (entry_step fp s (ReduceCall c)) (rc_pool c) = reduce_params c"
proof -
  let ?t = "rc_thread c" and ?p = "rc_pool c" and ?u = "entry_step fp s (ReduceCall c)"
  obtain d' hint where d: "dispatchReduceJobTyped c (ru_reduce s ?t) = (d', hint)" by fastforce
  note e = dispatchReduceJobTyped_effect [OF d]
  have red: "ru_reduce ?u = (ru_reduce s)(?t := d')" using d by (simp add: publish_def)
  then show params: "cached_params (ru_reduce ?u ?t) = reduce_params c" using e(1) by simp
  have pub: "ru_lastPublished ?u = (ru_lastPublished s)(?p := Some (?t, True))"
    "ru_cache ?u = (ru_cache s)(?p := reduce_params c)"
  proof -
    have "ru_cache s ?p = reduce_params c" if "hint" "ru_lastPublished s ?p = Some (?t, True)"
    proof -
      have same: "cached_params (ru_reduce s ?t) = reduce_params c" using e that(1) by simp
      then have "tj_participants (cached_params (ru_reduce s ?t)) = rc_participants c" by (simp add: reduce_params_def)
      with inv c that(2) same show ?thesis by (simp add: reduce_inv_def)
    qed
    then show "ru_lastPublished ?u = (ru_lastPublished s)(?p := Some (?t, True))"
      "ru_cache ?u = (ru_cache s)(?p := reduce_params c)"
      using d e(1) by (auto simp: publish_def)
  qed
  then show "ru_cache ?u ?p = reduce_params c" by simp
  have "ru_cache ?u (rc_pool b) = cached_params (ru_reduce ?u (rc_thread b))"
    if b: "ReduceCall b \<in> set cs" "ru_lastPublished ?u (rc_pool b) = Some (rc_thread b, True)"
      "tj_participants (cached_params (ru_reduce ?u (rc_thread b))) = rc_participants b" for b
  proof (cases "rc_thread b = ?t")
    case True
    then have "rc_participants b = rc_participants c" using b(3) params by (simp add: reduce_params_def)
    then have "rc_pool b = ?p" using pools_fixedD [OF fixed b(1) c True] by simp
    then show ?thesis using True params pub by simp
  next
    case False
    then have "rc_pool b \<noteq> ?p" using b(2) pub by auto
    then show ?thesis using b inv False pub red by (simp add: reduce_inv_def)
  qed
  then show "reduce_inv cs ?u" unfolding reduce_inv_def by blast
qed

lemma entry_step_reduce_inv:
  assumes "pools_fixed cs" "e \<in> set cs" "reduce_inv cs s"
  shows "reduce_inv cs (entry_step fp s e)"
proof (cases e)
  case (ReduceCall c)
  with reduce_call_step(1) [OF assms(1) _ assms(3)] assms(2) show ?thesis by simp
next
  case (OtherDispatch pool params)
  then show ?thesis by (intro reduce_inv_other [OF assms(3)]) auto
next
  case (ForCall c)
  then show ?thesis
    by (intro reduce_inv_other [OF assms(3)]) (auto simp: publish_def Let_def split: prod.splits route.splits)
qed

lemma reuse_run_reduce_inv:
  assumes "pools_fixed (cs @ es)"
  shows "reduce_inv (cs @ es) (reuse_run fp cs)"
proof -
  have "reduce_inv xs s \<Longrightarrow> set ys \<subseteq> set xs \<Longrightarrow> pools_fixed xs \<Longrightarrow> reduce_inv xs (foldl (entry_step fp) s ys)" for xs ys s
    by (induction ys arbitrary: s) (simp_all add: entry_step_reduce_inv)
  moreover have "reduce_inv (cs @ es) reuse_start" by (simp add: reduce_inv_def reuse_start_def)
  ultimately show ?thesis using assms by (simp add: reuse_run_def)
qed

text \<open>Then all slots have the call's parameters, whether they were published or reused.\<close>

lemma reduce_slot_params_sound:
  assumes "pools_fixed (cs @ [ReduceCall c])"
  shows "reduce_slot_params fp cs c slot = reduce_params c"
  using reduce_call_step(2,3) [OF assms _ reuse_run_reduce_inv [OF assms], of c fp]
  by (simp add: reduce_slot_params_def Let_def)

text \<open>The blocks a slot computes from its parameters.\<close>

definition params_lo :: "CachedTypedForJob \<Rightarrow> nat \<Rightarrow> nat" where
  "params_lo p b = w64 (tj_first p + w64 (b * tj_chunk p))"

definition params_hi :: "CachedTypedForJob \<Rightarrow> nat \<Rightarrow> nat" where
  "params_hi p b = min (w64 (params_lo p b + tj_chunk p)) (tj_last p)"

text \<open>Two calls of one thread with the same callable on a pool of four: the second is a reuse.\<close>

definition example_call :: "nat \<Rightarrow> nat call" where
  "example_call pool = \<lparr> ca_thread = 0, ca_context = empty_context, ca_pool = pool,
     ca_participants = 4, ca_first = 0, ca_last = 10,
     ca_hints = \<lparr> h_balance = StaticUniform, h_determinism = FixedBlockOrder,
       h_affinity = PerCluster, h_stealPolicy = ClusterLocal, h_priority = Throughput,
       h_estimatedItemNs = 0, h_minTaskUs = 0, h_chunk = 0, h_cancellationChecks = False \<rparr>,
     ca_token = None, ca_fn = 7, ca_entry = (\<lambda>_. 9), ca_lvalue = True, ca_noexcept = True \<rparr>"

definition call_fp :: "nat fp" where
  "call_fp = \<lparr> fp_zero = 0, fp_milli = 1, fp_of_nat = id, fp_add = (+), fp_sub = (-),
     fp_mul = (*), fp_neg = id, fp_le = (\<le>), fp_lt = (<) \<rparr>"

lemmas parallelFor_eval = parallelFor_def parallelFor_body_def parallelFor_key_def
  parallelFor_shape_def fillBlockShape_def elide_fields shouldRunInlineHinted_def
  shouldRunInline_def shouldFallThroughCrossArena_def reuseEligible_def ceilDiv_def Let_def

lemma example_call_valid: "valid_call (example_call pool)"
  by (simp add: valid_call_def example_call_def)

lemma example_dispatch:
  "\<exists>d'. parallelFor call_fp (example_call pool) (\<lambda>_. False) empty_job = (d', PfDispatch False)"
  by (simp add: parallelFor_eval example_call_def call_fp_def empty_context_def empty_job_def)

theorem parallelFor_tiles_witness:
  "\<exists>d' r. parallelFor call_fp (example_call 1) (\<lambda>_. False) empty_job = (d', r) \<and> shape_ok d' \<and>
     (\<exists>spans. route_spans 0 10 d' r = Some spans \<and> span_indices spans = [0..<10])"
proof -
  obtain d' where d: "parallelFor call_fp (example_call 1) (\<lambda>_. False) empty_job = (d', PfDispatch False)"
    using example_dispatch by blast
  have "\<forall>i::nat. \<not> False" by simp
  from parallelFor_tiles [OF example_call_valid this shape_ok_empty d]
  have "shape_ok d' \<and> (\<exists>spans. route_spans 0 10 d' (PfDispatch False) = Some spans \<and>
    span_indices spans = [0..<10])" by (simp add: example_call_def)
  with d show ?thesis by blast
qed

lemma example_reuse:
  "ru_ran (reuse_run call_fp [ForCall (example_call 1), ForCall (example_call 1)]) \<noteq> [] \<and>
   fst (hd (ru_ran (reuse_run call_fp [ForCall (example_call 1), ForCall (example_call 1)])))
     = ForCall (example_call 1)"
  by (simp add: reuse_run_def reuse_start_def publish_def parallelFor_eval example_call_def
    call_fp_def empty_context_def empty_job_def cached_params_def)

theorem parallelFor_reuse_sound_witness:
  "\<exists>p. (ForCall (example_call 1), p)
     \<in> set (ru_ran (reuse_run call_fp [ForCall (example_call 1), ForCall (example_call 1)])) \<and>
   runs_call (example_call 1) p"
proof -
  let ?cs = "[ForCall (example_call 1), ForCall (example_call 1)]"
  obtain p where p: "(ForCall (example_call 1), p) \<in> set (ru_ran (reuse_run call_fp ?cs))"
    using example_reuse by (metis list.set_sel(1) prod.collapse)
  have "\<forall>e\<in>set ?cs. valid_entry e" by (simp add: valid_entry_def example_call_valid)
  from parallelFor_reuse_sound [OF this p] p show ?thesis by blast
qed

definition stale_reduce :: "nat \<Rightarrow> nat \<Rightarrow> nat entry_call" where
  "stale_reduce pool last' = ReduceCall \<lparr> rc_thread = 0, rc_pool = pool, rc_participants = 4,
     rc_first = 0, rc_last = last', rc_chunk = 10, rc_chunks = ceilDiv last' 10,
     rc_hints = ca_hints (example_call 0), rc_token = None, rc_body = 5, rc_entry = (\<lambda>_. 6) \<rparr>"

text \<open>
  C18. Reuse is not sound for the reducers: one thread reduces \<open>[0, 100)\<close> on a pool, \<open>[0, 200)\<close> on
  another pool of as many participants, and \<open>[0, 200)\<close> on the first: the third dispatch is
  published as a reuse, and the workers of the first pool run the ten blocks of \<open>[0, 100)\<close> they
  have cached instead of the twenty of the call.
\<close>

theorem reduce_reuse_stale:
  "let ran = ru_ran (reuse_run call_fp [stale_reduce 1 100, stale_reduce 2 200, stale_reduce 1 200])
   in length ran = 3 \<and> fst (ran ! 2) = stale_reduce 1 200 \<and>
      tj_last (snd (ran ! 2)) = 100 \<and> tj_blockCount (snd (ran ! 2)) = 10"
  by (simp add: reuse_run_def reuse_start_def publish_def stale_reduce_def dispatchReduceJobTyped_def
    elide_fields example_call_def empty_job_def cached_params_def ceilDiv_def Let_def)

end
