(* ===== verification/Reduce.thy ===== *)
theory Reduce
  imports Engine ParallelFor
begin

text \<open>
  Reductions: the chunk-id pairwise tree of \<open>reduce_tree.h\<close>, the compensated pair of \<open>kahan.h\<close>,
  the deterministic chunk schedule, the inline and the parallel reducer and the entry point
  \<open>parallelReduce\<close>. A dispatch is any completed run of the runners of \<open>Engine\<close> on the parameters its
  slots hold after the reuse protocol of \<open>ParallelFor\<close>. The map and the combiner are the user's functions; a cancelled reduction is
  a value of the result type, as \<open>cancelled_value_exception\<close> carries it.
\<close>

section \<open>The pairwise tree\<close>

text \<open>
  The in-place loops of \<open>pairwiseTreeCombine\<close>. The loop variable \<open>step\<close> starts at 1 and doubles,
  so the model carries its exponent \<open>k\<close>; \<open>stride\<close> is \<open>2 ^ Suc k\<close>.
\<close>

function tree_inner :: "('a \<Rightarrow> 'a \<Rightarrow> 'a) \<Rightarrow> nat \<Rightarrow> nat \<Rightarrow> 'a list \<Rightarrow> 'a list" where
  "tree_inner combine k i partials =
     (if i + 2 ^ k < length partials
      then tree_inner combine k (i + 2 ^ Suc k)
             (partials[i := combine (partials ! i) (partials ! (i + 2 ^ k))])
      else partials)"
  by pat_completeness auto
termination
  by (relation "measure (\<lambda>(_, k, i, partials). length partials - i)")
    (auto intro!: diff_less_mono2)

declare tree_inner.simps [simp del]

lemma length_tree_inner [simp]: "length (tree_inner f k i xs) = length xs"
  by (induction f k i xs rule: tree_inner.induct) (subst tree_inner.simps, simp)

function tree_outer :: "('a \<Rightarrow> 'a \<Rightarrow> 'a) \<Rightarrow> nat \<Rightarrow> 'a list \<Rightarrow> 'a list" where
  "tree_outer combine k partials =
     (if 2 ^ k < length partials then tree_outer combine (Suc k) (tree_inner combine k 0 partials)
      else partials)"
  by pat_completeness auto
termination
  by (relation "measure (\<lambda>(_, k, partials). length partials - 2 ^ k)")
    (auto intro!: diff_less_mono2)

declare tree_outer.simps [simp del]

definition pairwiseTreeCombine :: "'a \<Rightarrow> ('a \<Rightarrow> 'a \<Rightarrow> 'a) \<Rightarrow> 'a list \<Rightarrow> 'a" where
  "pairwiseTreeCombine dflt combine partials =
     (if partials = [] then dflt else tree_outer combine 0 partials ! 0)"

text \<open>
  The reference: a balanced split at the largest power of two below the length. Its shape
  depends on the number of partials only.
\<close>

fun tree_spec :: "('a \<Rightarrow> 'a \<Rightarrow> 'a) \<Rightarrow> nat \<Rightarrow> 'a list \<Rightarrow> 'a" where
  "tree_spec f 0 xs = hd xs"
| "tree_spec f (Suc k) xs =
     (if length xs \<le> 2 ^ k then tree_spec f k xs
      else f (tree_spec f k (take (2 ^ k) xs)) (tree_spec f k (drop (2 ^ k) xs)))"

lemma tree_inner_nth:
  assumes "i mod 2 ^ Suc k = 0" "p < length xs"
  shows "tree_inner f k i xs ! p =
    (if i \<le> p \<and> p mod 2 ^ Suc k = 0 \<and> p + 2 ^ k < length xs
     then f (xs ! p) (xs ! (p + 2 ^ k)) else xs ! p)"
  using assms
proof (induction f k i xs rule: tree_inner.induct)
  case (1 f k i xs)
  show ?case
  proof (cases "i + 2 ^ k < length xs")
    case False
    then have "\<not> (i \<le> p \<and> p + 2 ^ k < length xs)" by auto
    then show ?thesis using False by (subst tree_inner.simps) auto
  next
    case True
    let ?ys = "xs[i := f (xs ! i) (xs ! (i + 2 ^ k))]"
    have m: "(i + 2 ^ Suc k) mod 2 ^ Suc k = 0" using 1(2) by simp
    have "tree_inner f k i xs ! p = tree_inner f k (i + 2 ^ Suc k) ?ys ! p"
      using True by (subst tree_inner.simps) simp
    also have "\<dots> = (if i + 2 ^ Suc k \<le> p \<and> p mod 2 ^ Suc k = 0 \<and> p + 2 ^ k < length xs
        then f (?ys ! p) (?ys ! (p + 2 ^ k)) else ?ys ! p)"
      using 1(1) [OF True m] 1(3) by simp
    also have "\<dots> = (if i \<le> p \<and> p mod 2 ^ Suc k = 0 \<and> p + 2 ^ k < length xs
        then f (xs ! p) (xs ! (p + 2 ^ k)) else xs ! p)"
    proof (cases "p = i")
      case True
      then show ?thesis using \<open>i + 2 ^ k < length xs\<close> 1(2,3) by simp
    next
      case False
      have "i \<le> p \<Longrightarrow> p mod 2 ^ Suc k = 0 \<Longrightarrow> i + 2 ^ Suc k \<le> p"
      proof -
        assume a: "i \<le> p" "p mod 2 ^ Suc k = 0"
        from a(1) False have "i < p" by simp
        moreover have "2 ^ Suc k dvd p - i"
          using a 1(2) by (simp only: dvd_diff_nat mod_0_imp_dvd)
        ultimately have "2 ^ Suc k \<le> p - i" by (intro dvd_imp_le) auto
        then show ?thesis using \<open>i < p\<close> by simp
      qed
      moreover have "i + 2 ^ Suc k \<le> p \<Longrightarrow> p + 2 ^ k \<noteq> i"
        using zero_less_power [of "2 :: nat" k] by linarith
      ultimately show ?thesis using False by auto
    qed
    finally show ?thesis .
  qed
qed

lemma tree_spec_pad:
  "length xs \<le> 2 ^ k \<Longrightarrow> k \<le> m \<Longrightarrow> tree_spec f m xs = tree_spec f k xs"
proof (induction m)
  case (Suc m)
  show ?case
  proof (cases "k \<le> m")
    case True
    then have "(2::nat) ^ k \<le> 2 ^ m" by simp
    with Suc.prems(1) have "length xs \<le> 2 ^ m" by linarith
    then show ?thesis using Suc True by simp
  next
    case False
    with Suc.prems have "k = Suc m" by simp
    then show ?thesis by simp
  qed
qed simp

lemma tree_outer_spec:
  assumes "length xs = length ys" "length xs \<le> 2 ^ m" "xs \<noteq> []" "k \<le> m"
    and "\<And>p. p < length xs \<Longrightarrow> p mod 2 ^ k = 0 \<Longrightarrow>
      ys ! p = tree_spec f k (take (2 ^ k) (drop p xs))"
  shows "tree_outer f k ys ! 0 = tree_spec f m xs"
  using assms
proof (induction f k ys rule: tree_outer.induct)
  case (1 f k ys)
  show ?case
  proof (cases "2 ^ k < length ys")
    case False
    have "tree_outer f k ys ! 0 = ys ! 0" using False by (subst tree_outer.simps) simp
    also have "\<dots> = tree_spec f k (take (2 ^ k) (drop 0 xs))" using 1(4,6) by simp
    also have "\<dots> = tree_spec f k xs" using False 1(2) by simp
    also have "\<dots> = tree_spec f m xs"
      using False 1(2,5) by (intro tree_spec_pad [symmetric]) simp_all
    finally show ?thesis .
  next
    case True
    have "k < m"
    proof (rule ccontr)
      assume "\<not> k < m"
      with 1(5) have "k = m" by simp
      with True 1(2,3) show False by simp
    qed
    have "tree_outer f k ys ! 0 = tree_outer f (Suc k) (tree_inner f k 0 ys) ! 0"
      using True by (subst tree_outer.simps) simp
    also have "\<dots> = tree_spec f m xs"
    proof (rule 1(1) [OF True])
      show "length xs = length (tree_inner f k 0 ys)" using 1(2) by simp
      show "length xs \<le> 2 ^ m" "xs \<noteq> []" by fact+
      show "Suc k \<le> m" using \<open>k < m\<close> by simp
      fix p assume p: "p < length xs" "p mod 2 ^ Suc k = 0"
      have pk: "p mod 2 ^ k = 0"
      proof -
        from p(2) have "2 * 2 ^ k dvd p" by (simp add: mod_eq_0_iff_dvd)
        then have "2 ^ k dvd p" by (rule dvd_mult_right)
        then show ?thesis by (rule dvd_imp_mod_0)
      qed
      then have qk: "(p + 2 ^ k) mod 2 ^ k = 0" by simp
      have yp: "ys ! p = tree_spec f k (take (2 ^ k) (drop p xs))" by (rule 1(6) [OF p(1) pk])
      show "tree_inner f k 0 ys ! p = tree_spec f (Suc k) (take (2 ^ Suc k) (drop p xs))"
      proof (cases "p + 2 ^ k < length xs")
        case True
        have yq: "ys ! (p + 2 ^ k) = tree_spec f k (take (2 ^ k) (drop (p + 2 ^ k) xs))" by (rule 1(6) [OF True qk])
        have "tree_inner f k 0 ys ! p = f (ys ! p) (ys ! (p + 2 ^ k))"
          using tree_inner_nth [of 0 k p ys f] p True 1(2) by simp
        moreover have "\<not> length (take (2 ^ Suc k) (drop p xs)) \<le> 2 ^ k"
          using True by (auto simp: min_def)
        moreover have "take (2 ^ k) (take (2 ^ Suc k) (drop p xs)) = take (2 ^ k) (drop p xs)"
          by simp
        moreover have "drop (2 ^ k) (take (2 ^ Suc k) (drop p xs))
            = take (2 ^ k) (drop (p + 2 ^ k) xs)" by (simp add: drop_take add.commute)
        ultimately show ?thesis using yp yq by simp
      next
        case False
        then have l: "length (drop p xs) \<le> 2 ^ k" by simp
        have "tree_inner f k 0 ys ! p = ys ! p"
          using tree_inner_nth [of 0 k p ys f] p False 1(2) by simp
        then show ?thesis using yp l by simp
      qed
    qed
    finally show ?thesis .
  qed
qed

lemma pairwiseTreeCombine_spec:
  assumes "xs \<noteq> []" "length xs \<le> 2 ^ m"
  shows "pairwiseTreeCombine d f xs = tree_spec f m xs"
proof -
  have "tree_outer f 0 xs ! 0 = tree_spec f m xs"
  proof (rule tree_outer_spec)
    fix p assume "p < length xs"
    then show "xs ! p = tree_spec f 0 (take (2 ^ 0) (drop p xs))"
      by (simp add: take_Suc hd_drop_conv_nth)
  qed (use assms in simp_all)
  then show ?thesis using assms(1) by (simp add: pairwiseTreeCombine_def)
qed

lemma foldl_glue:
  assumes "\<And>a b c. f (f a b) c = f a (f b c)" "ys \<noteq> []"
  shows "f a (foldl f (hd ys) (tl ys)) = foldl f a ys"
proof -
  have "f a (foldl f b zs) = foldl f (f a b) zs" for b zs
    by (induction zs arbitrary: b) (simp_all add: assms(1))
  then show ?thesis using assms(2) by (cases ys) auto
qed

lemma tree_spec_foldl:
  assumes "\<And>a b c. f (f a b) c = f a (f b c)" "xs \<noteq> []" "length xs \<le> 2 ^ m"
  shows "tree_spec f m xs = foldl f (hd xs) (tl xs)"
  using assms(2,3)
proof (induction m arbitrary: xs)
  case 0
  then show ?case by (cases xs) auto
next
  case (Suc m)
  show ?case
  proof (cases "length xs \<le> 2 ^ m")
    case False
    let ?l = "take (2 ^ m) xs" and ?r = "drop (2 ^ m) xs"
    have "?l \<noteq> []" "?r \<noteq> []" "length ?l \<le> 2 ^ m" "length ?r \<le> 2 ^ m"
      using False Suc.prems by auto
    then have "tree_spec f (Suc m) xs = f (foldl f (hd ?l) (tl ?l)) (foldl f (hd ?r) (tl ?r))"
      using Suc.IH [of ?l] Suc.IH [of ?r] False by simp
    also have "\<dots> = foldl f (foldl f (hd ?l) (tl ?l)) ?r"
      using foldl_glue [OF assms(1) \<open>?r \<noteq> []\<close>] .
    also have "\<dots> = foldl f (hd ?l) (tl ?l @ ?r)" by simp
    also have "tl ?l @ ?r = tl xs" using \<open>?l \<noteq> []\<close> by (metis append_take_drop_id tl_append2)
    also have "hd ?l = hd xs" using \<open>?l \<noteq> []\<close> by (metis append_take_drop_id hd_append2)
    finally show ?thesis .
  qed (use Suc in simp)
qed

section \<open>Compensated pairs\<close>

record 'f KahanPair =
  kp_sum :: 'f
  kp_c :: 'f

definition kahan_zero :: "'f fp \<Rightarrow> 'f KahanPair" where
  "kahan_zero fp = \<lparr> kp_sum = fp_zero fp, kp_c = fp_zero fp \<rparr>"

definition kahanAdd :: "'f fp \<Rightarrow> 'f KahanPair \<Rightarrow> 'f \<Rightarrow> 'f KahanPair" where
  "kahanAdd fp a x =
     (let y = fp_sub fp x (kp_c a);
          t = fp_add fp (kp_sum a) y
      in \<lparr> kp_sum = t, kp_c = fp_sub fp (fp_sub fp t (kp_sum a)) y \<rparr>)"

definition kahanCombine :: "'f fp \<Rightarrow> 'f KahanPair \<Rightarrow> 'f KahanPair \<Rightarrow> 'f KahanPair" where
  "kahanCombine fp a b =
     (let afterSum = kahanAdd fp a (kp_sum b)
      in kahanAdd fp afterSum (fp_neg fp (kp_c b)))"

section \<open>The chunk schedule\<close>

definition kReduceMaxChunks :: nat where
  "kReduceMaxChunks = 64"

definition reduceChunkSize :: "nat \<Rightarrow> nat \<Rightarrow> nat" where
  "reduceChunkSize n hintChunk =
     (if hintChunk \<noteq> 0 then hintChunk
      else if n \<le> kReduceMaxChunks then 1
      else ceilDiv n kReduceMaxChunks)"

definition chunk_lo :: "nat \<Rightarrow> nat \<Rightarrow> nat \<Rightarrow> nat" where
  "chunk_lo first chunk b = w64 (first + w64 (b * chunk))"

definition chunk_hi :: "nat \<Rightarrow> nat \<Rightarrow> nat \<Rightarrow> nat \<Rightarrow> nat" where
  "chunk_hi first last' chunk b = min (w64 (chunk_lo first chunk b + chunk)) last'"

lemma reduceChunkSize_pos: "0 < n \<Longrightarrow> 0 < reduceChunkSize n h"
  by (simp add: reduceChunkSize_def kReduceMaxChunks_def ceilDiv_pos)

lemma reduceChunkSize_bound: "ceilDiv n (reduceChunkSize n 0) \<le> kReduceMaxChunks"
proof (cases "n \<le> kReduceMaxChunks")
  case True
  then show ?thesis by (simp add: reduceChunkSize_def ceilDiv_def)
next
  case False
  let ?c = "ceilDiv n kReduceMaxChunks"
  have "0 < ?c" using False by (intro ceilDiv_pos) (auto simp: kReduceMaxChunks_def)
  have "n \<le> ?c * kReduceMaxChunks" by (rule ceilDiv_upper) (simp add: kReduceMaxChunks_def)
  then have "\<not> kReduceMaxChunks < ceilDiv n ?c"
    using ceilDiv_lower [OF \<open>0 < ?c\<close>, of kReduceMaxChunks n] by (auto simp: mult.commute)
  then show ?thesis using False by (simp add: reduceChunkSize_def)
qed

section \<open>The user's operations and the result\<close>

record ('a, 'f) reduce_ops =
  ro_map :: "nat \<Rightarrow> nat \<Rightarrow> 'a"
  ro_combine :: "'a \<Rightarrow> 'a \<Rightarrow> 'a"
  ro_toDouble :: "'a \<Rightarrow> 'f"
  ro_ofDouble :: "'f \<Rightarrow> 'a"
  ro_default :: 'a                    \<comment> \<open>\<open>T{}\<close>\<close>

datatype 'a reduce_result =
    Value 'a
  | CancelledValue 'a                 \<comment> \<open>\<open>cancelled_value_exception\<close> with its partial value\<close>
  | Rethrown nat                      \<comment> \<open>the dispatch rethrew a captured exception\<close>

text \<open>One chunk's partial, uncompensated and compensated: of the bounds a body is called with, and of a chunk id.\<close>

definition kahan_map :: "'f fp \<Rightarrow> ('a, 'f) reduce_ops \<Rightarrow> nat \<Rightarrow> nat \<Rightarrow> 'f KahanPair" where
  "kahan_map fp ops lo hi = kahanAdd fp (kahan_zero fp) (ro_toDouble ops (ro_map ops lo hi))"

definition plain_partial :: "('a, 'f) reduce_ops \<Rightarrow> nat \<Rightarrow> nat \<Rightarrow> nat \<Rightarrow> nat \<Rightarrow> 'a" where
  "plain_partial ops first last' chunk b =
     ro_map ops (chunk_lo first chunk b) (chunk_hi first last' chunk b)"

definition kahan_partial ::
  "'f fp \<Rightarrow> ('a, 'f) reduce_ops \<Rightarrow> nat \<Rightarrow> nat \<Rightarrow> nat \<Rightarrow> nat \<Rightarrow> 'f KahanPair" where
  "kahan_partial fp ops first last' chunk b =
     kahan_map fp ops (chunk_lo first chunk b) (chunk_hi first last' chunk b)"

definition plain_tree :: "('a, 'f) reduce_ops \<Rightarrow> 'a list \<Rightarrow> 'a" where
  "plain_tree ops ps = pairwiseTreeCombine (ro_default ops) (ro_combine ops) ps"

definition kahan_tree :: "'f fp \<Rightarrow> ('a, 'f) reduce_ops \<Rightarrow> 'f KahanPair list \<Rightarrow> 'a" where
  "kahan_tree fp ops ps =
     ro_ofDouble ops (kp_sum (pairwiseTreeCombine (kahan_zero fp) (kahanCombine fp) ps))"

text \<open>
  The common tail: no partial gives \<open>init\<close> back as a cancelled value; otherwise the tree is
  combined with \<open>init\<close>, and a missing chunk makes the result a cancelled value.
\<close>

definition reduce_finish ::
  "('a, 'f) reduce_ops \<Rightarrow> ('p list \<Rightarrow> 'a) \<Rightarrow> 'a \<Rightarrow> 'p list \<Rightarrow> nat \<Rightarrow> 'a reduce_result" where
  "reduce_finish ops tree init ps nChunks =
     (if ps = [] then CancelledValue init
      else let combined = ro_combine ops init (tree ps)
           in if length ps < nChunks then CancelledValue combined else Value combined)"

section \<open>The inline reducer\<close>

text \<open>The chunk loop: \<open>stops b\<close> is what the poll before chunk \<open>b\<close> answers.\<close>

fun inline_partials :: "(nat \<Rightarrow> 'p) \<Rightarrow> (nat \<Rightarrow> bool) \<Rightarrow> nat \<Rightarrow> nat \<Rightarrow> 'p list" where
  "inline_partials partial stops b 0 = []"
| "inline_partials partial stops b (Suc m) =
     (if stops b then [] else partial b # inline_partials partial stops (Suc b) m)"

definition runReduceInlineImpl ::
  "'f fp \<Rightarrow> ('a, 'f) reduce_ops \<Rightarrow> nat \<Rightarrow> nat \<Rightarrow> 'a \<Rightarrow> nat \<Rightarrow> Determinism \<Rightarrow>
   bool \<Rightarrow> bool \<Rightarrow> (nat \<Rightarrow> bool) \<Rightarrow> 'a reduce_result" where
  "runReduceInlineImpl fp ops first last' init chunkHint determinism mayStop stopAtEntry stopAt =
     (if stopAtEntry then CancelledValue init
      else let n = last' - first;
               chunk = reduceChunkSize n chunkHint;
               nChunks = ceilDiv n chunk;
               stops = (\<lambda>b. mayStop \<and> stopAt b)
           in if determinism = KahanCompensated
              then reduce_finish ops (kahan_tree fp ops) init
                     (inline_partials (kahan_partial fp ops first last' chunk) stops 0 nChunks)
                     nChunks
              else reduce_finish ops (plain_tree ops) init
                     (inline_partials (plain_partial ops first last' chunk) stops 0 nChunks)
                     nChunks)"

section \<open>The parallel reducers\<close>

text \<open>
  What a dispatch leaves: the exception it rethrows, or the calls of the worker body, as block id and
  bounds. A slot computes the bounds of the blocks it ran from the parameters it has, the descriptor's
  or those a worker kept in its cache.
\<close>

type_synonym body_call = "nat \<times> nat \<times> nat"

definition slot_calls :: "CachedTypedForJob \<Rightarrow> nat list \<Rightarrow> body_call list" where
  "slot_calls p bs = map (\<lambda>b. (b, params_lo p b, params_hi p b)) bs"

definition dispatch_result :: "(nat \<Rightarrow> CachedTypedForJob) \<Rightarrow> part \<Rightarrow> nat + body_call list" where
  "dispatch_result params t = (case jd_firstException (pt_job t) of
       Some e \<Rightarrow> Inl e
     | None \<Rightarrow> Inr (concat (map (\<lambda>i. slot_calls (params i) (pt_ran t i)) [0..<jd_participants (pt_job t)])))"

text \<open>
  \<open>partials\<close>: each call of the body stores its partial under its block id and sets the \<open>done\<close> flag;
  \<open>None\<close> is an element no call has written. A store past the end is undefined in C++ and left out.
\<close>

definition store_partials :: "(nat \<Rightarrow> nat \<Rightarrow> 'p) \<Rightarrow> nat \<Rightarrow> body_call list \<Rightarrow> 'p option list" where
  "store_partials partial nChunks calls =
     foldl (\<lambda>ps (b, lo, hi). ps[b := Some (partial lo hi)]) (replicate nChunks None) calls"

text \<open>
  \<open>runReduceParallel\<close>: without active cancellation the tree reads every element in place, one that was
  not written as the \<open>T{}\<close> of the vector (in the stack array it is indeterminate); with it the
  completed ones are collected into \<open>flat\<close> first.
\<close>

definition all_partials :: "'p \<Rightarrow> 'p option list \<Rightarrow> 'p list" where
  "all_partials dflt ps = map (\<lambda>p. case p of Some v \<Rightarrow> v | None \<Rightarrow> dflt) ps"

definition flat_partials :: "'p option list \<Rightarrow> 'p list" where
  "flat_partials ps = map the (filter (\<lambda>p. p \<noteq> None) ps)"

definition runReduceParallel ::
  "'f fp \<Rightarrow> ('a, 'f) reduce_ops \<Rightarrow> nat \<Rightarrow> nat \<Rightarrow> 'a \<Rightarrow> nat \<Rightarrow> Determinism \<Rightarrow> bool \<Rightarrow>
   (nat \<Rightarrow> nat \<Rightarrow> nat + body_call list) \<Rightarrow> 'a reduce_result" where
  "runReduceParallel fp ops first last' init chunkHint determinism cancellationActive dispatch =
     (let n = last' - first;
          chunk = reduceChunkSize n chunkHint;
          nChunks = ceilDiv n chunk
      in case dispatch chunk nChunks of
           Inl e \<Rightarrow> Rethrown e
         | Inr calls \<Rightarrow>
             if determinism = KahanCompensated
             then let ps = store_partials (kahan_map fp ops) nChunks calls
                  in if \<not> cancellationActive
                     then Value (ro_combine ops init (kahan_tree fp ops (all_partials (kahan_zero fp) ps)))
                     else reduce_finish ops (kahan_tree fp ops) init (flat_partials ps) nChunks
             else let ps = store_partials (ro_map ops) nChunks calls
                  in if \<not> cancellationActive
                     then Value (ro_combine ops init (plain_tree ops (all_partials (ro_default ops) ps)))
                     else reduce_finish ops (plain_tree ops) init (flat_partials ps) nChunks)"

text \<open>
  The runtime sibling always collects; its hints are a value, and its body recovers the block id from
  the bounds.
\<close>

definition block_ids :: "nat \<Rightarrow> nat \<Rightarrow> body_call list \<Rightarrow> body_call list" where
  "block_ids first chunk calls = map (\<lambda>(_, lo, hi). (w64 (lo + (2 ^ 64 - first)) div chunk, lo, hi)) calls"

definition runReduceParallelRuntime ::
  "'f fp \<Rightarrow> ('a, 'f) reduce_ops \<Rightarrow> nat \<Rightarrow> nat \<Rightarrow> 'a \<Rightarrow> 'f Hints \<Rightarrow>
   (nat \<Rightarrow> nat \<Rightarrow> nat + body_call list) \<Rightarrow> 'a reduce_result" where
  "runReduceParallelRuntime fp ops first last' init hints dispatch =
     (let n = last' - first;
          chunk = reduceChunkSize n (h_chunk hints);
          nChunks = ceilDiv n chunk
      in case dispatch chunk nChunks of
           Inl e \<Rightarrow> Rethrown e
         | Inr calls \<Rightarrow>
             let calls = block_ids first chunk calls
             in if h_determinism hints = KahanCompensated
                then reduce_finish ops (kahan_tree fp ops) init
                       (flat_partials (store_partials (kahan_map fp ops) nChunks calls)) nChunks
                else reduce_finish ops (plain_tree ops) init
                       (flat_partials (store_partials (ro_map ops) nChunks calls)) nChunks)"

section \<open>The entry points\<close>

text \<open>
  What a call finds: whether the caller is already inside a worker, the pool's participants, the
  token and what its polls answer, and the outcome of the dispatch.
\<close>

record reduce_env =
  re_fallThrough :: bool
  re_participants :: nat
  re_canStop :: bool
  re_stopAtEntry :: bool
  re_stopAt :: "nat \<Rightarrow> bool"
  re_dispatch :: "nat \<Rightarrow> nat \<Rightarrow> nat + body_call list"

definition reduce_hints :: "'f Hints \<Rightarrow> bool \<Rightarrow> 'f Hints" where
  "reduce_hints hints tokenCanStop =
     (if h_cancellationChecks hints \<and> \<not> tokenCanStop then NoCancellationHints hints else hints)"

definition parallelReduce ::
  "'f fp \<Rightarrow> ('a, 'f) reduce_ops \<Rightarrow> 'f Hints \<Rightarrow> nat \<Rightarrow> nat \<Rightarrow> 'a \<Rightarrow> reduce_env \<Rightarrow>
   'a reduce_result" where
  "parallelReduce fp ops hints first last' init env =
     (if last' \<le> first then Value init
      else let H = reduce_hints hints (re_canStop env);
               inlined = runReduceInlineImpl fp ops first last' init (h_chunk H) (h_determinism H)
                           (re_canStop env) (re_stopAtEntry env) (re_stopAt env);
               n = last' - first
           in if re_fallThrough env then inlined
              else if shouldRunInlineHinted fp H n (re_participants env) then inlined
              else if ceilDiv n (reduceChunkSize n (h_chunk H)) \<le> 1 then inlined
              else runReduceParallel fp ops first last' init (h_chunk H) (h_determinism H)
                     (h_cancellationChecks H) (re_dispatch env))"

definition parallelReduceRuntime ::
  "'f fp \<Rightarrow> ('a, 'f) reduce_ops \<Rightarrow> 'f Hints \<Rightarrow> nat \<Rightarrow> nat \<Rightarrow> 'a \<Rightarrow> reduce_env \<Rightarrow>
   'a reduce_result" where
  "parallelReduceRuntime fp ops hints first last' init env =
     (if last' \<le> first then Value init
      else let inlined = runReduceInlineImpl fp ops first last' init (h_chunk hints)
                           (h_determinism hints) (re_canStop env) (re_stopAtEntry env)
                           (re_stopAt env);
               n = last' - first
           in if re_fallThrough env then inlined
              else if shouldRunInline fp n (re_participants env) (h_estimatedItemNs hints)
                        (h_minTaskUs hints) then inlined
              else if ceilDiv n (reduceChunkSize n (h_chunk hints)) \<le> 1 then inlined
              else runReduceParallelRuntime fp ops first last' init hints (re_dispatch env))"

text \<open>The descriptor of the reduce dispatches.\<close>

definition dispatchReduceJob :: "nat \<Rightarrow> nat \<Rightarrow> token \<Rightarrow> nat \<Rightarrow> nat \<Rightarrow> nat \<Rightarrow> job" where
  "dispatchReduceJob first last' tok participants chunk nChunks =
     empty_job\<lparr> jd_first := first, jd_last := last', jd_participants := participants,
       jd_balance := StaticUniform, jd_priority := Throughput,
       jd_preWakeCompletionProbe := True, jd_token := tok, jd_chunk := chunk,
       jd_blockCount := nChunks \<rparr>"

text \<open>The call of \<open>dispatchReduceJobTyped\<close> that \<open>runReduceParallel\<close> makes.\<close>

definition typed_reduce_call :: "nat \<Rightarrow> nat \<Rightarrow> token \<Rightarrow> nat \<Rightarrow> ('f Hints \<Rightarrow> nat) \<Rightarrow> 'f Hints \<Rightarrow>
    nat \<Rightarrow> nat \<Rightarrow> nat \<Rightarrow> 'f reduce_call" where
  "typed_reduce_call thread pool tok body entry H first last' participants =
     (let n = last' - first; chunk = reduceChunkSize n (h_chunk H)
      in \<lparr> rc_thread = thread, rc_pool = pool, rc_participants = participants, rc_first = first,
           rc_last = last', rc_chunk = chunk, rc_chunks = ceilDiv n chunk, rc_hints = H, rc_token = tok,
           rc_body = body, rc_entry = entry \<rparr>)"

section \<open>The reference value\<close>

definition reduce_reference ::
  "'f fp \<Rightarrow> ('a, 'f) reduce_ops \<Rightarrow> nat \<Rightarrow> nat \<Rightarrow> 'a \<Rightarrow> nat \<Rightarrow> Determinism \<Rightarrow> 'a" where
  "reduce_reference fp ops first last' init chunkHint determinism =
     (let n = last' - first; chunk = reduceChunkSize n chunkHint; nChunks = ceilDiv n chunk
      in if determinism = KahanCompensated
         then ro_combine ops init (ro_ofDouble ops (kp_sum (tree_spec (kahanCombine fp) 64
                (map (kahan_partial fp ops first last' chunk) [0..<nChunks]))))
         else ro_combine ops init (tree_spec (ro_combine ops) 64
                (map (plain_partial ops first last' chunk) [0..<nChunks])))"

lemma inline_partials_all:
  "(\<And>i. \<not> stops i) \<Longrightarrow> inline_partials partial stops b m = map partial [b..<b + m]"
  by (induction m arbitrary: b) (simp_all add: upt_rec)

lemma inline_partials_until:
  assumes "\<And>i. b \<le> i \<Longrightarrow> i < b + k \<Longrightarrow> \<not> stops i" "stops (b + k)" "k < m"
  shows "inline_partials partial stops b m = map partial [b..<b + k]"
  using assms
proof (induction k arbitrary: b m)
  case 0
  then show ?case by (cases m) auto
next
  case (Suc k)
  then obtain m' where m: "m = Suc m'" by (cases m) auto
  have "inline_partials partial stops (Suc b) m' = map partial [Suc b..<Suc b + k]"
    using Suc.prems m by (intro Suc.IH) auto
  moreover have "\<not> stops b" using Suc.prems(1) [of b] by simp
  ultimately show ?case by (simp add: m upt_rec [of b])
qed

lemma partial_fun:
  "plain_partial ops first last' chunk
    = (\<lambda>b. ro_map ops (chunk_lo first chunk b) (chunk_hi first last' chunk b))"
  "kahan_partial fp ops first last' chunk
    = (\<lambda>b. kahan_map fp ops (chunk_lo first chunk b) (chunk_hi first last' chunk b))"
  by (simp_all add: fun_eq_iff plain_partial_def kahan_partial_def)

text \<open>The calls of a dispatch that ran every chunk, in any order, with the chunk's bounds.\<close>

definition chunk_calls :: "nat \<Rightarrow> nat \<Rightarrow> nat \<Rightarrow> nat \<Rightarrow> body_call list \<Rightarrow> bool" where
  "chunk_calls first last' chunk n calls \<longleftrightarrow> fst ` set calls = {..<n} \<and>
     (\<forall>(b, lo, hi) \<in> set calls. lo = chunk_lo first chunk b \<and> hi = chunk_hi first last' chunk b)"

lemma store_partials_step:
  assumes "\<forall>(b, lo, hi) \<in> set calls. partial lo hi = f b"
  shows "length (foldl (\<lambda>ps (b, lo, hi). ps[b := Some (partial lo hi)]) ps calls) = length ps \<and>
    (\<forall>i<length ps. foldl (\<lambda>ps (b, lo, hi). ps[b := Some (partial lo hi)]) ps calls ! i
      = (if i \<in> fst ` set calls then Some (f i) else ps ! i))"
  using assms by (induction calls arbitrary: ps) (simp, force simp: nth_list_update)

lemma store_partials_all:
  assumes "chunk_calls first last' chunk n calls"
  shows "store_partials partial n calls
    = map (\<lambda>b. Some (partial (chunk_lo first chunk b) (chunk_hi first last' chunk b))) [0..<n]"
proof -
  let ?f = "\<lambda>b. partial (chunk_lo first chunk b) (chunk_hi first last' chunk b)"
  have "\<forall>(b, lo, hi) \<in> set calls. partial lo hi = ?f b" using assms by (auto simp: chunk_calls_def)
  from store_partials_step [OF this, of "replicate n None"] assms show ?thesis
    by (intro nth_equalityI) (auto simp: store_partials_def chunk_calls_def)
qed

lemma partials_all:
  "all_partials dflt (map (\<lambda>b. Some (f b)) bs) = map f bs"
  "flat_partials (map (\<lambda>b. Some (f b)) bs) = map f bs"
  by (simp_all add: all_partials_def flat_partials_def comp_def)

text \<open>The runtime sibling recovers the ids: the start of a chunk of the range does not wrap.\<close>

lemma block_ids_chunks:
  assumes "chunk_calls first last' chunk n calls" "n = ceilDiv (last' - first) chunk" "0 < chunk"
    and "first < last'" "last' < 2 ^ 64"
  shows "block_ids first chunk calls = calls"
  unfolding block_ids_def
proof (rule map_idI)
  fix x assume x: "x \<in> set calls"
  obtain b lo hi where [simp]: "x = (b, lo, hi)" by (cases x) auto
  from x assms(1) have "b < n" "lo = chunk_lo first chunk b" by (force simp: chunk_calls_def)+
  moreover have "b * chunk < last' - first" using assms(2,3) \<open>b < n\<close> by (simp add: ceilDiv_lower)
  ultimately have "lo = first + b * chunk" "b * chunk < 2 ^ 64"
    using assms(4,5) by (simp_all add: chunk_lo_def)
  then have "lo + (2 ^ 64 - first) = b * chunk + 2 ^ 64" using assms(4,5) by simp
  then have "w64 (lo + (2 ^ 64 - first)) = b * chunk" using \<open>b * chunk < 2 ^ 64\<close> by (simp add: w64_def)
  then show "(case x of (_, lo, hi) \<Rightarrow> (w64 (lo + (2 ^ 64 - first)) div chunk, lo, hi)) = x"
    using assms(3) by simp
qed

lemma plain_tree_spec:
  "ps \<noteq> [] \<Longrightarrow> length ps \<le> 2 ^ 64 \<Longrightarrow> plain_tree ops ps = tree_spec (ro_combine ops) 64 ps"
  unfolding plain_tree_def by (rule pairwiseTreeCombine_spec)

lemma kahan_tree_spec:
  "ps \<noteq> [] \<Longrightarrow> length ps \<le> 2 ^ 64 \<Longrightarrow>
    kahan_tree fp ops ps = ro_ofDouble ops (kp_sum (tree_spec (kahanCombine fp) 64 ps))"
  unfolding kahan_tree_def by (subst pairwiseTreeCombine_spec) auto

lemma chunks_bounds:
  assumes "first < last'" "last' < 2 ^ 64"
  shows "0 < ceilDiv (last' - first) (reduceChunkSize (last' - first) h)"
    "ceilDiv (last' - first) (reduceChunkSize (last' - first) h) \<le> 2 ^ 64"
proof -
  have c: "0 < reduceChunkSize (last' - first) h" using assms by (simp add: reduceChunkSize_pos)
  show "0 < ceilDiv (last' - first) (reduceChunkSize (last' - first) h)"
    using assms(1) by (intro ceilDiv_pos c) simp
  have "ceilDiv (last' - first) (reduceChunkSize (last' - first) h) \<le> last' - first"
    using c by (rule ceilDiv_le)
  then show "ceilDiv (last' - first) (reduceChunkSize (last' - first) h) \<le> 2 ^ 64"
    using assms(2) by simp
qed

lemma finish_all:
  assumes "ps = map partial [0..<n]" "0 < n" "tree ps = v"
  shows "reduce_finish ops tree init ps n = Value (ro_combine ops init v)"
  using assms by (auto simp: reduce_finish_def Let_def)

lemma inline_reference:
  assumes "first < last'" "last' < 2 ^ 64" "\<not> e" "\<And>b. \<not> (m \<and> stopAt b)"
  shows "runReduceInlineImpl fp ops first last' init h det m e stopAt
    = Value (reduce_reference fp ops first last' init h det)"
  using assms(3,4) chunks_bounds [OF assms(1,2), of h]
  by (auto simp: runReduceInlineImpl_def reduce_reference_def Let_def inline_partials_all
      intro!: finish_all kahan_tree_spec plain_tree_spec)

lemma parallel_reference:
  assumes "first < last'" "last' < 2 ^ 64"
    and "dispatch (reduceChunkSize (last' - first) h)
        (ceilDiv (last' - first) (reduceChunkSize (last' - first) h)) = Inr calls"
    and "chunk_calls first last' (reduceChunkSize (last' - first) h)
        (ceilDiv (last' - first) (reduceChunkSize (last' - first) h)) calls"
  shows "runReduceParallel fp ops first last' init h det ca dispatch
    = Value (reduce_reference fp ops first last' init h det)"
  using assms(3) chunks_bounds [OF assms(1,2), of h]
  by (auto simp: runReduceParallel_def reduce_reference_def Let_def store_partials_all [OF assms(4)]
      partials_all partial_fun plain_tree_spec kahan_tree_spec intro!: finish_all)

lemma parallel_runtime_reference:
  assumes "first < last'" "last' < 2 ^ 64"
    and "dispatch (reduceChunkSize (last' - first) (h_chunk H))
        (ceilDiv (last' - first) (reduceChunkSize (last' - first) (h_chunk H))) = Inr calls"
    and "chunk_calls first last' (reduceChunkSize (last' - first) (h_chunk H))
        (ceilDiv (last' - first) (reduceChunkSize (last' - first) (h_chunk H))) calls"
  shows "runReduceParallelRuntime fp ops first last' init H dispatch
    = Value (reduce_reference fp ops first last' init (h_chunk H) (h_determinism H))"
proof -
  have "0 < reduceChunkSize (last' - first) (h_chunk H)" using assms(1) by (simp add: reduceChunkSize_pos)
  note ids = block_ids_chunks [OF assms(4) refl this assms(1,2)]
  show ?thesis using assms(3) chunks_bounds [OF assms(1,2), of "h_chunk H"]
    by (auto simp: runReduceParallelRuntime_def reduce_reference_def Let_def ids
        store_partials_all [OF assms(4)] partials_all partial_fun plain_tree_spec kahan_tree_spec intro!: finish_all)
qed

text \<open>
  A dispatch that completes: some runner of \<open>Engine\<close>, in some interleaving, on the parameters the
  workers have, ran to the end without a throw and without a stop, and left these calls.
\<close>

definition completed_dispatch :: "(nat \<Rightarrow> CachedTypedForJob) \<Rightarrow> nat + body_call list \<Rightarrow> bool" where
  "completed_dispatch params outcome \<longleftrightarrow> (\<exists>cfg s as t. cfg \<in> runners \<and> part_init cfg s \<and>
     cached_params (pt_job s) = params 1 \<and> run (part_step cfg) s as = Some t \<and> part_final t \<and>
     \<not> failed t \<and> \<not> stopped t \<and> outcome = dispatch_result params t)"

lemma dispatch_completes:
  assumes "completed_dispatch params outcome" "\<And>i. params i = p"
  obtains calls where "outcome = Inr calls"
    "chunk_calls (tj_first p) (tj_last p) (tj_chunk p) (tj_blockCount p) calls"
proof -
  from assms obtain cfg s as t where run: "cfg \<in> runners" "part_init cfg s"
      "run (part_step cfg) s as = Some t" "part_final t" "\<not> failed t" "\<not> stopped t"
    and job: "cached_params (pt_job s) = p" and out: "outcome = dispatch_result (\<lambda>_. p) t"
    unfolding completed_dispatch_def by (metis ext)
  define bs where "bs = concat (map (pt_ran t) [0..<jd_participants (pt_job t)])"
  from run(1-3) obtain I where "block_claim (pc_shared cfg) (pc_next cfg) I" "part_inv I t"
    by (rule runner_run_inv)
  then have "mset bs = mset [0..<jd_blockCount (pt_job t)]"
    unfolding bs_def using run(4-6) by (rule block_claim.inv_covers)
  then have "set bs = set [0..<jd_blockCount (pt_job t)]" by (rule mset_eq_setD)
  moreover have "jd_blockCount (pt_job t) = jd_blockCount (pt_job s)"
    using same_shape_simps [OF run_shape [OF run(3)]] by simp
  moreover have "tj_blockCount p = jd_blockCount (pt_job s)" using job by (auto simp: cached_params_def)
  ultimately have bs: "set bs = {..<tj_blockCount p}" by (simp add: lessThan_atLeast0)
  have "concat (map (\<lambda>i. slot_calls p (pt_ran t i)) [0..<jd_participants (pt_job t)]) = slot_calls p bs"
    by (simp add: slot_calls_def bs_def map_concat comp_def)
  then have "outcome = Inr (slot_calls p bs)"
    using out run(5) by (simp add: dispatch_result_def failed_def)
  moreover have "chunk_calls (tj_first p) (tj_last p) (tj_chunk p) (tj_blockCount p) (slot_calls p bs)"
    using bs by (auto simp: chunk_calls_def slot_calls_def params_lo_def params_hi_def chunk_lo_def
      chunk_hi_def image_image)
  ultimately show ?thesis by (rule that)
qed

text \<open>Reductions with an associative combiner are folds.\<close>

lemma chunk_block:
  "chunk_lo first c b = block_lo (dispatchReduceJob first l tok p c n) b"
  "chunk_hi first l c b = block_hi (dispatchReduceJob first l tok p c n) b"
  by (simp_all add: chunk_lo_def chunk_hi_def block_lo_def block_hi_def dispatchReduceJob_def)

lemma foldl_concat_glue:
  assumes "\<And>a b c. f (f a b) c = f a (f b c)" "\<And>xs. xs \<in> set xss \<Longrightarrow> xs \<noteq> []"
  shows "foldl f a (map (\<lambda>xs. foldl f (hd xs) (tl xs)) xss) = foldl f a (concat xss)"
  using assms(2)
proof (induction xss arbitrary: a)
  case (Cons xs xss)
  then have "xs \<noteq> []" by simp
  have "f a (foldl f (hd xs) (tl xs)) = foldl f a xs"
    using assms(1) \<open>xs \<noteq> []\<close> by (rule foldl_glue)
  then show ?case using Cons by simp
qed simp

lemma reduce_reference_foldl:
  assumes assoc: "\<And>a b c. ro_combine ops (ro_combine ops a b) c
      = ro_combine ops a (ro_combine ops b c)"
    and map: "\<And>lo hi. lo < hi \<Longrightarrow>
      ro_map ops lo hi = foldl (ro_combine ops) (g lo) (map g [Suc lo..<hi])"
    and range: "first < last'"
      "last' + reduceChunkSize (last' - first) h \<le> 2 ^ 64"
    and det: "det = FixedBlockOrder"
  shows "reduce_reference fp ops first last' init h det
    = foldl (ro_combine ops) init (map g [first..<last'])"
proof -
  let ?n = "last' - first" and ?c = "reduceChunkSize (last' - first) h"
  let ?N = "ceilDiv ?n ?c" and ?f = "ro_combine ops"
  let ?j = "dispatchReduceJob first last' None 1 ?c ?N"
  have c: "0 < ?c" using range by (simp add: reduceChunkSize_pos)
  have sh: "shaped ?j"
    using range c by (simp add: shaped_def dispatchReduceJob_def)
  have lt: "block_lo ?j b < block_hi ?j b" if "b < ?N" for b
  proof -
    have "b < jd_blockCount ?j" using that by (simp add: dispatchReduceJob_def)
    then show ?thesis using block_lo_eq [OF sh] block_hi_eq [OF sh] c
      by (auto simp: dispatchReduceJob_def)
  qed
  define xss where "xss = map (\<lambda>b. map g [block_lo ?j b..<block_hi ?j b]) [0..<?N]"
  have ne: "xs \<noteq> []" if "xs \<in> set xss" for xs
  proof -
    from that obtain b where "b < ?N" "xs = map g [block_lo ?j b..<block_hi ?j b]"
      by (auto simp: xss_def)
    with lt [of b] show ?thesis by simp
  qed
  have parts: "map (plain_partial ops first last' ?c) [0..<?N]
      = map (\<lambda>xs. foldl ?f (hd xs) (tl xs)) xss"
    using lt by (auto simp: xss_def plain_partial_def chunk_block [of first ?c _ last' None 1 ?N]
      chunk_block(2) [of first last' ?c _ None 1 ?N] map upt_conv_Cons)
  have N: "0 < ?N" "?N \<le> 2 ^ 64"
    using chunks_bounds [of first last' h] range c by auto
  then have "map (plain_partial ops first last' ?c) [0..<?N] \<noteq> []" by simp
  then have "tree_spec ?f 64 (map (plain_partial ops first last' ?c) [0..<?N])
      = foldl ?f (hd (map (plain_partial ops first last' ?c) [0..<?N]))
          (tl (map (plain_partial ops first last' ?c) [0..<?N]))"
    using N by (intro tree_spec_foldl assoc) simp_all
  then have "reduce_reference fp ops first last' init h det
      = foldl ?f init (map (plain_partial ops first last' ?c) [0..<?N])"
    using foldl_glue [of ?f "map (plain_partial ops first last' ?c) [0..<?N]" init, OF assoc] N
    by (simp add: reduce_reference_def Let_def det)
  also have "\<dots> = foldl ?f init (concat xss)"
    unfolding parts using assoc ne by (rule foldl_concat_glue)
  also have "concat xss = map g (concat (map (\<lambda>b. [block_lo ?j b..<block_hi ?j b]) [0..<?N]))"
    by (simp add: xss_def map_concat comp_def)
  also have "concat (map (\<lambda>b. [block_lo ?j b..<block_hi ?j b]) [0..<?N]) = [first..<last']"
    using blocks_tile [OF sh] by (simp add: dispatchReduceJob_def)
  finally show ?thesis .
qed

section \<open>The properties of reductions\<close>

lemma reduce_hints_fields [simp]:
  "h_chunk (reduce_hints H b) = h_chunk H" "h_determinism (reduce_hints H b) = h_determinism H"
  by (simp_all add: reduce_hints_def NoCancellationHints_def)

lemma undisturbed_inline:
  assumes "first < last'" "last' < 2 ^ 64" "\<not> re_stopAtEntry env" "\<And>b. \<not> re_stopAt env b"
  shows "runReduceInlineImpl fp ops first last' init (h_chunk H) (h_determinism H)
      m (re_stopAtEntry env) (re_stopAt env)
    = Value (reduce_reference fp ops first last' init (h_chunk H) (h_determinism H))"
  using assms(1-3) by (rule inline_reference) (simp add: assms(4))

lemma parallelReduce_reference:
  assumes "first < last'" "last' < 2 ^ 64"
    and c: "c = typed_reduce_call thread pool tok body entry (reduce_hints H (re_canStop env))
        first last' (re_participants env)"
    and fixed: "pools_fixed (cs @ [ReduceCall c])"
    and d: "completed_dispatch (reduce_slot_params fp cs c) (re_dispatch env (rc_chunk c) (rc_chunks c))"
    and "\<not> re_stopAtEntry env" "\<And>b. \<not> re_stopAt env b"
  shows "parallelReduce fp ops H first last' init env
      = Value (reduce_reference fp ops first last' init (h_chunk H) (h_determinism H))"
proof -
  have "runReduceParallel fp ops first last' init (h_chunk H) (h_determinism H) ca (re_dispatch env)
    = Value (reduce_reference fp ops first last' init (h_chunk H) (h_determinism H))" for ca
  proof -
    from dispatch_completes [OF d reduce_slot_params_sound [OF fixed]] obtain calls
      where "re_dispatch env (rc_chunk c) (rc_chunks c) = Inr calls"
        "chunk_calls (rc_first c) (rc_last c) (rc_chunk c) (rc_chunks c) calls"
      by (auto simp: reduce_params_def)
    then show ?thesis
      using assms(1,2) by (intro parallel_reference) (simp_all add: c typed_reduce_call_def Let_def)
  qed
  then show ?thesis
    using assms(1) by (simp add: parallelReduce_def Let_def undisturbed_inline [OF assms(1,2,6,7)])
qed

lemma parallelReduceRuntime_reference:
  assumes "first < last'" "last' < 2 ^ 64"
    and j: "j = dispatchReduceJob first last' tok (re_participants env)
        (reduceChunkSize (last' - first) (h_chunk H))
        (ceilDiv (last' - first) (reduceChunkSize (last' - first) (h_chunk H)))"
    and d: "completed_dispatch (\<lambda>_. cached_params j) (re_dispatch env (jd_chunk j) (jd_blockCount j))"
    and "\<not> re_stopAtEntry env" "\<And>b. \<not> re_stopAt env b"
  shows "parallelReduceRuntime fp ops H first last' init env
      = Value (reduce_reference fp ops first last' init (h_chunk H) (h_determinism H))"
proof -
  from dispatch_completes [OF d refl] obtain calls
    where "re_dispatch env (jd_chunk j) (jd_blockCount j) = Inr calls"
      "chunk_calls (jd_first j) (jd_last j) (jd_chunk j) (jd_blockCount j) calls"
    by (auto simp: cached_params_def)
  then have "runReduceParallelRuntime fp ops first last' init H (re_dispatch env)
    = Value (reduce_reference fp ops first last' init (h_chunk H) (h_determinism H))"
    using assms(1,2) by (intro parallel_runtime_reference) (simp_all add: j dispatchReduceJob_def)
  then show ?thesis
    using assms(1) by (simp add: parallelReduceRuntime_def Let_def undisturbed_inline [OF assms(1,2,5,6)])
qed

definition example_fp :: "nat fp" where
  "example_fp = \<lparr> fp_zero = 0, fp_milli = 1, fp_of_nat = id, fp_add = (+), fp_sub = (-),
     fp_mul = (*), fp_neg = id, fp_le = (\<le>), fp_lt = (<) \<rparr>"

definition example_ops :: "(nat, nat) reduce_ops" where
  "example_ops = \<lparr> ro_map = (\<lambda>lo hi. foldl (+) lo [Suc lo..<hi]), ro_combine = (+),
     ro_toDouble = id, ro_ofDouble = id, ro_default = 0 \<rparr>"

definition example_hints :: "nat Hints" where
  "example_hints = (HintsDefaults example_fp)\<lparr> h_chunk := 2 \<rparr>"

definition example_env :: reduce_env where
  "example_env = \<lparr> re_fallThrough = False, re_participants = 2, re_canStop = False,
     re_stopAtEntry = False, re_stopAt = (\<lambda>b. False),
     re_dispatch = (\<lambda>c n. Inr [(0, 10, 12), (1, 12, 14), (2, 14, 15)]) \<rparr>"

text \<open>
  The call comes after an equal one, so its dispatch is a reuse: its workers keep their caches. Two slots
  run the three blocks.
\<close>

definition example_reduce :: "nat reduce_call" where
  "example_reduce = typed_reduce_call 0 1 None 5 (\<lambda>_. 6) (reduce_hints example_hints False) 10 15 2"

definition reduce_job :: job where
  "reduce_job = empty_job\<lparr> jd_first := 10, jd_last := 15, jd_participants := 2, jd_priority := Throughput,
     jd_preWakeCompletionProbe := True, jd_chunk := 2, jd_blockCount := 3 \<rparr>"

definition slot_steps :: "pact list" where
  "slot_steps = map (\<lambda>r. PStep r None) [0,1,0,1,0,1,0,0]"

lemma example_partials:
  "map (plain_partial example_ops 10 15 2) [0..<3] = [21, 25, 14]"
  by (simp add: example_ops_def plain_partial_def chunk_lo_def chunk_hi_def upt_rec)

lemma example_reference:
  "reduce_reference example_fp example_ops 10 15 1 2 FixedBlockOrder = 61"
proof -
  have "ceilDiv (15 - 10) (reduceChunkSize (15 - 10) 2) = 3"
    by (simp add: ceilDiv_def reduceChunkSize_def)
  moreover have "reduceChunkSize (15 - 10) 2 = 2" by (simp add: reduceChunkSize_def)
  moreover have "tree_spec (+) 64 [21, 25, 14 :: nat] = tree_spec (+) 2 [21, 25, 14]"
    by (rule tree_spec_pad) simp_all
  moreover have "tree_spec (+) 2 [21, 25, 14 :: nat] = 60"
    by (simp add: numeral_2_eq_2)
  moreover have "ro_combine example_ops = (+)" by (simp add: example_ops_def)
  ultimately show ?thesis by (simp add: reduce_reference_def Let_def example_partials)
qed

text \<open>
  C5. The in-place doubling loop of the pairwise tree computes the balanced tree whose shape
  depends on the number of partials only, for every combiner.
\<close>

theorem pairwise_tree_shape:
  assumes "xs \<noteq> []" and "length xs \<le> 2 ^ m"
  shows "pairwiseTreeCombine d f xs = tree_spec f m xs"
  using assms by (rule pairwiseTreeCombine_spec)

theorem pairwise_tree_shape_witness:
  "pairwiseTreeCombine 0 (-) [9, 3, 5, 2, 1 :: int] = tree_spec (-) 3 [9, 3, 5, 2, 1]
    \<and> tree_spec (-) 3 [9, 3, 5, 2, 1 :: int] = 2"
  using pairwise_tree_shape [of "[9, 3, 5, 2, 1 :: int]" 3 0 "(-)"]
  by (simp add: numeral_3_eq_3)

text \<open>
  C6. Deterministic reduction: whichever path \<open>parallelReduce\<close> and \<open>parallelReduceRuntime\<close> take (inline,
  typed or runtime dispatch, published or reused, any participant count, any interleaving), a reduction
  that is not cancelled and in which no body throws returns the same value, a function of the range and
  the hints only. Each thread must reduce on one pool per participant count: C18 shows what the
  reuse of the typed dispatch does otherwise. \<open>cs\<close> is everything that was called before.
\<close>

theorem reduce_deterministic:
  assumes "first < last'" and "last' < 2 ^ 64"
    and "\<not> re_stopAtEntry env" and "\<And>b. \<not> re_stopAt env b"
    and "c = typed_reduce_call thread pool tok body entry (reduce_hints H (re_canStop env))
        first last' (re_participants env)"
    and "pools_fixed (cs @ [ReduceCall c])"
    and "completed_dispatch (reduce_slot_params fp cs c) (re_dispatch env (rc_chunk c) (rc_chunks c))"
    and "j = dispatchReduceJob first last' tok (re_participants env) (rc_chunk c) (rc_chunks c)"
    and "completed_dispatch (\<lambda>_. cached_params j) (dispatch (rc_chunk c) (rc_chunks c))"
  shows "parallelReduce fp ops H first last' init env
      = Value (reduce_reference fp ops first last' init (h_chunk H) (h_determinism H)) \<and>
    parallelReduceRuntime fp ops H first last' init (env\<lparr> re_dispatch := dispatch \<rparr>)
      = Value (reduce_reference fp ops first last' init (h_chunk H) (h_determinism H))"
proof -
  have "parallelReduceRuntime fp ops H first last' init (env\<lparr> re_dispatch := dispatch \<rparr>)
      = Value (reduce_reference fp ops first last' init (h_chunk H) (h_determinism H))"
    by (rule parallelReduceRuntime_reference [where tok = tok, OF assms(1,2) refl])
      (use assms in \<open>simp_all add: typed_reduce_call_def Let_def dispatchReduceJob_def\<close>)
  then show ?thesis by (intro conjI parallelReduce_reference [OF assms(1,2,5,6,7,3,4)])
qed

lemma example_reduce_params:
  "reduce_params example_reduce = (cached_params reduce_job)\<lparr> tj_fnPtr := Some 5, tj_entry := Some 6 \<rparr>"
  by (simp add: reduce_params_def example_reduce_def typed_reduce_call_def reduce_job_def cached_params_def
    example_hints_def HintsDefaults_def reduceChunkSize_def ceilDiv_def empty_job_def Let_def)

lemma example_completed:
  assumes "params = (\<lambda>_. (cached_params reduce_job)\<lparr> tj_fnPtr := q, tj_entry := e \<rparr>)"
  shows "completed_dispatch params (Inr [(0, 10, 12), (1, 12, 14), (2, 14, 15)])"
proof -
  let ?cfg = "runContiguousRankPartitionTypedCached False True"
  let ?s = "part_start ?cfg (reduce_job\<lparr> jd_fnPtr := q, jd_workerEntry := e \<rparr>) []"
  have "?cfg \<in> runners" by (auto simp: runners_def)
  moreover have "part_init ?cfg ?s"
    unfolding part_init_def
    by (intro exI [of _ "reduce_job\<lparr> jd_fnPtr := q, jd_workerEntry := e \<rparr>"] exI [of _ "[]"])
      (simp add: reduce_job_def empty_job_def valid_token_def no_wrap_def runner_defs)
  moreover have "cached_params (pt_job ?s) = params 1"
    by (simp add: assms part_start_def cached_params_def)
  moreover have "\<exists>t. run (part_step ?cfg) ?s slot_steps = Some t \<and> part_final t \<and> \<not> failed t \<and> \<not> stopped t \<and>
      dispatch_result params t = Inr [(0, 10, 12), (1, 12, 14), (2, 14, 15)]"
    by (simp add: slot_steps_def reduce_job_def part_start_def empty_job_def runner_defs step_defs
      entry_loc_def Let_def kNoBlock_eq stop_requested_def part_final_code upt_rec failed_def stopped_def
      dispatch_result_def slot_calls_def params_lo_def params_hi_def assms cached_params_def
      contiguousNext_def contiguousRankBlockSpan_def)
  ultimately show ?thesis unfolding completed_dispatch_def by metis
qed

lemma example_dispatches:
  "pools_fixed ([ReduceCall example_reduce] @ [ReduceCall example_reduce])"
  "completed_dispatch (reduce_slot_params example_fp [ReduceCall example_reduce] example_reduce)
    (Inr [(0, 10, 12), (1, 12, 14), (2, 14, 15)])"
  "completed_dispatch (\<lambda>_. cached_params (dispatchReduceJob 10 15 None 2 2 3))
    (Inr [(0, 10, 12), (1, 12, 14), (2, 14, 15)])"
proof -
  show fixed: "pools_fixed ([ReduceCall example_reduce] @ [ReduceCall example_reduce])"
    by (simp add: pools_fixed_def)
  show "completed_dispatch (reduce_slot_params example_fp [ReduceCall example_reduce] example_reduce)
      (Inr [(0, 10, 12), (1, 12, 14), (2, 14, 15)])"
    by (rule example_completed [where q = "Some 5" and e = "Some 6"])
      (simp add: fun_eq_iff reduce_slot_params_sound [OF fixed] example_reduce_params)
  show "completed_dispatch (\<lambda>_. cached_params (dispatchReduceJob 10 15 None 2 2 3))
      (Inr [(0, 10, 12), (1, 12, 14), (2, 14, 15)])"
    by (rule example_completed [where q = None and e = None])
      (simp add: fun_eq_iff cached_params_def dispatchReduceJob_def reduce_job_def empty_job_def)
qed

lemma example_env_fields:
  "\<not> re_stopAtEntry example_env" "\<not> re_stopAt example_env b" "re_participants example_env = 2"
  "re_dispatch example_env k n = Inr [(0, 10, 12), (1, 12, 14), (2, 14, 15)]"
  by (simp_all add: example_env_def)

lemma example_reduce_call: "example_reduce = typed_reduce_call 0 1 None 5 (\<lambda>_. 6)
    (reduce_hints example_hints (re_canStop example_env)) 10 15 (re_participants example_env)"
  by (simp add: example_reduce_def example_env_def)

lemma example_reduce_chunks: "rc_chunk example_reduce = 2" "rc_chunks example_reduce = 3"
  by (simp_all add: example_reduce_def typed_reduce_call_def example_hints_def reduceChunkSize_def
    ceilDiv_def Let_def)

theorem reduce_deterministic_witness:
  "snd (dispatchReduceJobTyped example_reduce
     (ru_reduce (reuse_run example_fp [ReduceCall example_reduce]) 0)) \<and>
   parallelReduce example_fp example_ops example_hints 10 15 1 example_env = Value 61 \<and>
   parallelReduceRuntime example_fp example_ops example_hints 10 15 1 example_env = Value 61"
proof -
  have same: "example_env\<lparr> re_dispatch := re_dispatch example_env \<rparr> = example_env" by simp
  have ref: "reduce_reference example_fp example_ops 10 15 1 (h_chunk example_hints)
      (h_determinism example_hints) = 61"
    using example_reference by (simp add: example_hints_def HintsDefaults_def)
  have "parallelReduce example_fp example_ops example_hints 10 15 1 example_env
      = Value (reduce_reference example_fp example_ops 10 15 1 (h_chunk example_hints)
          (h_determinism example_hints)) \<and>
    parallelReduceRuntime example_fp example_ops example_hints 10 15 1
        (example_env\<lparr> re_dispatch := re_dispatch example_env \<rparr>)
      = Value (reduce_reference example_fp example_ops 10 15 1 (h_chunk example_hints)
          (h_determinism example_hints))"
    by (rule reduce_deterministic [OF _ _ _ _ example_reduce_call example_dispatches(1) _ refl])
      (simp_all add: example_reduce_chunks example_dispatches(2,3) [simplified] example_env_fields)
  then show ?thesis unfolding same ref
    by (simp add: reuse_run_def reuse_start_def publish_def dispatchReduceJobTyped_def elide_fields
      example_reduce_def typed_reduce_call_def reduce_hints_def NoCancellationHints_def example_hints_def
      HintsDefaults_def Let_def)
qed

text \<open>
  C7. A reduction in the \<open>FixedBlockOrder\<close> mode with an associative combiner over per-chunk folds is the
  left fold over the whole range, whichever path the call takes and for every chunk size with which no
  chunk end wraps, when no stop is requested, no body throws, and each thread reduces on one pool per
  participant count.
\<close>

theorem reduce_is_fold:
  assumes "first < last'" and "last' + reduceChunkSize (last' - first) (h_chunk H) \<le> 2 ^ 64"
    and "h_determinism H = FixedBlockOrder"
    and "\<And>a b c. ro_combine ops (ro_combine ops a b) c = ro_combine ops a (ro_combine ops b c)"
    and "\<And>lo hi. lo < hi \<Longrightarrow>
      ro_map ops lo hi = foldl (ro_combine ops) (g lo) (map g [Suc lo..<hi])"
    and "\<not> re_stopAtEntry env" and "\<And>b. \<not> re_stopAt env b"
    and "c = typed_reduce_call thread pool tok body entry (reduce_hints H (re_canStop env))
        first last' (re_participants env)"
    and "pools_fixed (cs @ [ReduceCall c])"
    and "completed_dispatch (reduce_slot_params fp cs c) (re_dispatch env (rc_chunk c) (rc_chunks c))"
  shows "parallelReduce fp ops H first last' init env
    = Value (foldl (ro_combine ops) init (map g [first..<last']))"
proof -
  have lt: "last' < 2 ^ 64"
    using assms(1,2) reduceChunkSize_pos [of "last' - first" "h_chunk H"] by simp
  show ?thesis
    by (simp add: parallelReduce_reference [OF assms(1) lt assms(8-10,6,7)]
      reduce_reference_foldl [OF assms(4,5,1,2,3)])
qed

theorem reduce_is_fold_witness:
  "parallelReduce example_fp example_ops example_hints 10 15 1 example_env
    = Value (foldl (+) 1 [10, 11, 12, 13, 14])"
proof -
  have "parallelReduce example_fp example_ops example_hints 10 15 1 example_env
    = Value (foldl (ro_combine example_ops) 1 (map (\<lambda>x. x) [10..<15]))"
    by (rule reduce_is_fold [OF _ _ _ _ _ _ _ example_reduce_call example_dispatches(1)])
      (simp_all add: example_reduce_chunks example_dispatches(2) [simplified] example_env_fields
        example_ops_def example_hints_def HintsDefaults_def reduceChunkSize_def)
  moreover have "map (\<lambda>x. x) [10..<15] = [10, 11, 12, 13, 14]" by (simp add: upt_rec)
  ultimately show ?thesis by (simp add: example_ops_def)
qed

lemma inline_cancel_prefix:
  assumes "first < last'" and "last' + chunk \<le> 2 ^ 64" and chunk: "reduceChunkSize (last' - first) hint = chunk"
    and pos: "0 < chunk"
    and k: "k < ceilDiv (last' - first) chunk" and stops: "\<And>i. i < k \<Longrightarrow> \<not> stopAt i" "stopAt k"
  shows "runReduceInlineImpl fp ops first last' init hint det True False stopAt =
    (if k = 0 then CancelledValue init
     else CancelledValue (reduce_reference fp ops first (first + k * chunk) init chunk det))"
proof -
  let ?N = "ceilDiv (last' - first) chunk"
  have kc: "k * chunk < last' - first" using pos k by (rule ceilDiv_lower)
  have cs: "reduceChunkSize n chunk = chunk" for n using pos by (simp add: reduceChunkSize_def)
  have part: "inline_partials p (\<lambda>b. True \<and> stopAt b) 0 ?N = map p [0..<k]"
    for p :: "nat \<Rightarrow> 'x"
    using inline_partials_until [of 0 k "\<lambda>b. True \<and> stopAt b" ?N p] k stops by simp
  show ?thesis
  proof (cases "k = 0")
    case True
    then show ?thesis
      by (simp add: runReduceInlineImpl_def Let_def chunk cs part [simplified] reduce_finish_def)
  next
    case False
    have n: "ceilDiv (first + k * chunk - first) chunk = k"
      using pos by (simp add: ceilDiv_def)
    have chunks: "chunk_lo first chunk b = first + b * chunk"
      "chunk_hi first last' chunk b = first + Suc b * chunk"
      "chunk_hi first (first + k * chunk) chunk b = first + Suc b * chunk" if "b < k" for b
    proof -
      have "Suc b * chunk \<le> k * chunk" using that by (intro mult_le_mono1) simp
      then have le: "b * chunk + chunk \<le> k * chunk" by simp
      then show "chunk_lo first chunk b = first + b * chunk"
        using kc assms(2) by (simp add: chunk_lo_def)
      then show "chunk_hi first last' chunk b = first + Suc b * chunk"
        "chunk_hi first (first + k * chunk) chunk b = first + Suc b * chunk"
        using kc assms(2) le by (simp_all add: chunk_hi_def)
    qed
    have pp: "map (plain_partial ops first last' chunk) [0..<k]
        = map (plain_partial ops first (first + k * chunk) chunk) [0..<k]"
      using chunks by (simp add: plain_partial_def)
    have kp: "map (kahan_partial fp ops first last' chunk) [0..<k]
        = map (kahan_partial fp ops first (first + k * chunk) chunk) [0..<k]"
      using chunks by (simp add: kahan_partial_def plain_partial_def)
    have small: "k \<le> 2 ^ 64"
    proof -
      have "k * 1 \<le> k * chunk" using pos by (intro mult_le_mono2) simp
      then show ?thesis using kc assms(2) by linarith
    qed
    show ?thesis
      using False k small
      by (simp add: runReduceInlineImpl_def Let_def chunk cs part [simplified] reduce_finish_def pp kp
        reduce_reference_def n [simplified] plain_tree_spec kahan_tree_spec)
  qed
qed

text \<open>
  C8. Cancellation of the inline reducer, for every chunk hint, the default 0 included: a stop first
  seen before chunk \<open>k\<close> gives a cancelled value that is exactly the reduction of the completed
  prefix \<open>[first, first + k * chunk)\<close> with the chunk size of the whole call, as long as the end of a
  chunk does not wrap; before the first chunk it is \<open>init\<close> unchanged.
\<close>

theorem reduce_cancel_prefix:
  assumes "first < last'" and "last' + reduceChunkSize (last' - first) hint \<le> 2 ^ 64"
    and "k < ceilDiv (last' - first) (reduceChunkSize (last' - first) hint)"
    and "\<And>i. i < k \<Longrightarrow> \<not> stopAt i" and "stopAt k"
  shows "runReduceInlineImpl fp ops first last' init hint det True False stopAt =
    (if k = 0 then CancelledValue init
     else CancelledValue (reduce_reference fp ops first
       (first + k * reduceChunkSize (last' - first) hint) init (reduceChunkSize (last' - first) hint) det))"
  using assms reduceChunkSize_pos [of "last' - first" hint] by (intro inline_cancel_prefix) simp_all

theorem reduce_cancel_prefix_witness:
  "runReduceInlineImpl example_fp example_ops 10 15 1 2 FixedBlockOrder True False (\<lambda>i. i = 1)
    = CancelledValue (reduce_reference example_fp example_ops 10 12 1 2 FixedBlockOrder) \<and>
   runReduceInlineImpl example_fp example_ops 0 130 1 0 FixedBlockOrder True False (\<lambda>i. i = 2)
    = CancelledValue (reduce_reference example_fp example_ops 0 6 1 3 FixedBlockOrder)"
  using reduce_cancel_prefix [of 10 15 2 1 "\<lambda>i. i = 1" example_fp example_ops 1 FixedBlockOrder]
    reduce_cancel_prefix [of 0 130 0 2 "\<lambda>i. i = 2" example_fp example_ops 1 FixedBlockOrder]
  by (simp add: ceilDiv_def reduceChunkSize_def kReduceMaxChunks_def)

text \<open>
  C9. A chunk hint that exceeds the room above the range wraps the end of a block: the inline
  reducer of a one-chunk range then maps an empty range instead of \<open>[first, last)\<close>.
\<close>

theorem reduce_chunk_wraps:
  "runReduceInlineImpl fp ops 1 11 init (2 ^ 64 - 1) FixedBlockOrder False False (\<lambda>b. False)
    = Value (ro_combine ops init (ro_map ops 1 0))"
proof -
  have "ceilDiv 10 (2 ^ 64 - 1) = 1" by (simp add: ceilDiv_def)
  moreover have "plain_partial ops 1 11 (2 ^ 64 - 1) 0 = ro_map ops 1 0"
    by (simp add: plain_partial_def chunk_lo_def chunk_hi_def w64_def)
  moreover have "plain_tree ops [x] = x" for x
    by (simp add: plain_tree_def pairwiseTreeCombine_def tree_outer.simps)
  ultimately show ?thesis
    by (simp add: runReduceInlineImpl_def reduceChunkSize_def reduce_finish_def)
qed

end
