(* ===== verification/Deque.thy ===== *)
theory Deque
  imports Arith
begin

text \<open>
  The work-stealing deque of \<open>chase_lev_deque.h\<close>: one owner pushes and pops at the bottom,
  thieves steal at the top, the ring buffer grows while thieves may hold an old buffer.

  A step is one atomic operation of one thread under sequential consistency. A load of a
  location that only the loading thread writes (the owner's loads of \<open>m_bottom\<close>, \<open>m_array\<close> and of
  the slots) is taken together with its next step. Indices are the \<open>int64_t\<close> counters as
  integers and the capacity a natural number: neither wraps in fewer than \<open>2 ^ 63\<close> pushes. The history fields \<open>dq_pushed\<close> and \<open>dq_taken\<close> record what was published and what the
  operations returned.
\<close>

section \<open>Ring buffers\<close>

record 'a dq_array =
  ar_capacity :: nat
  ar_mask :: nat
  ar_next :: "nat option"
  ar_slots :: "'a list"

definition allocateArray :: "'a \<Rightarrow> nat \<Rightarrow> 'a dq_array" where
  "allocateArray dflt cap = \<lparr> ar_capacity = cap, ar_mask = cap - 1, ar_next = None,
     ar_slots = replicate cap dflt \<rparr>"

definition arr_index :: "'a dq_array \<Rightarrow> int \<Rightarrow> nat" where
  "arr_index arr i = nat (i AND int (ar_mask arr))"

definition arr_store :: "'a dq_array \<Rightarrow> int \<Rightarrow> 'a \<Rightarrow> 'a dq_array" where
  "arr_store arr i v = arr\<lparr> ar_slots := (ar_slots arr)[arr_index arr i := v] \<rparr>"

definition arr_load :: "'a dq_array \<Rightarrow> int \<Rightarrow> 'a" where
  "arr_load arr i = ar_slots arr ! arr_index arr i"

definition arr_wf :: "'a dq_array \<Rightarrow> bool" where
  "arr_wf arr \<longleftrightarrow> (\<exists>k. ar_capacity arr = 2 ^ k) \<and> ar_mask arr = ar_capacity arr - 1 \<and>
     length (ar_slots arr) = ar_capacity arr"

lemma arr_index_mod:
  assumes "arr_wf arr"
  shows "arr_index arr i = nat (i mod int (ar_capacity arr))"
proof -
  from assms obtain k where k: "ar_capacity arr = 2 ^ k" "ar_mask arr = 2 ^ k - 1"
    by (auto simp: arr_wf_def)
  then have "int (ar_mask arr) = mask k" by (simp add: mask_eq_exp_minus_1 of_nat_diff)
  then have "i AND int (ar_mask arr) = i mod 2 ^ k"
    by (simp add: take_bit_eq_mask [symmetric] take_bit_eq_mod)
  then show ?thesis using k by (simp add: arr_index_def)
qed

lemma arr_wf_pos: "arr_wf arr \<Longrightarrow> 0 < ar_capacity arr"
  by (auto simp: arr_wf_def)

lemma arr_index_less: "arr_wf arr \<Longrightarrow> arr_index arr i < length (ar_slots arr)"
  using arr_wf_pos [of arr] by (simp add: arr_index_mod arr_wf_def nat_less_iff)

lemma arr_store_wf: "arr_wf arr \<Longrightarrow> arr_wf (arr_store arr i v)"
  by (simp add: arr_wf_def arr_store_def)

lemma arr_index_store [simp]: "arr_index (arr_store arr i v) j = arr_index arr j"
  by (simp add: arr_index_def arr_store_def)

lemma arr_capacity_store [simp]: "ar_capacity (arr_store arr i v) = ar_capacity arr"
  by (simp add: arr_store_def)

lemma arr_load_same: "arr_wf arr \<Longrightarrow> arr_load (arr_store arr i v) i = v"
  using arr_index_less [of arr i] by (simp add: arr_load_def arr_store_def arr_index_def)

text \<open>Two indices less than a capacity apart use different slots.\<close>

lemma arr_index_neq:
  assumes "arr_wf arr" "i < j" "j < i + int (ar_capacity arr)"
  shows "arr_index arr i \<noteq> arr_index arr j"
proof
  let ?c = "int (ar_capacity arr)"
  have c: "0 < ?c" using arr_wf_pos [OF assms(1)] by simp
  assume "arr_index arr i = arr_index arr j"
  then have "i mod ?c = j mod ?c"
    using c by (simp add: arr_index_mod [OF assms(1)] nat_eq_iff)
  then have "?c dvd j - i" by (metis mod_eq_dvd_iff)
  moreover have "0 < j - i" "j - i < ?c" using assms by auto
  ultimately show False using zdvd_not_zless by blast
qed

lemma arr_load_other:
  assumes "arr_wf arr" "i < j" "j < i + int (ar_capacity arr)"
  shows "arr_load (arr_store arr j v) i = arr_load arr i"
  using arr_index_neq [OF assms] by (simp add: arr_load_def arr_store_def arr_index_def)

lemma allocateArray_wf: "arr_wf (allocateArray d (2 ^ k))"
  by (auto simp: arr_wf_def allocateArray_def)

text \<open>The copy loop of \<open>grow\<close> and \<open>reserveOwner\<close>: \<open>for (i = t; i < b; ++i)\<close>.\<close>

function copy_live :: "'a dq_array \<Rightarrow> int \<Rightarrow> int \<Rightarrow> 'a dq_array \<Rightarrow> 'a dq_array" where
  "copy_live src i b dst =
     (if i < b then copy_live src (i + 1) b (arr_store dst i (arr_load src i)) else dst)"
  by pat_completeness auto
termination
  by (relation "measure (\<lambda>(src, i, b, dst). nat (b - i))") auto

declare copy_live.simps [simp del]

lemma copy_live_facts:
  assumes "arr_wf dst" "b - t \<le> int (ar_capacity dst)" "t \<le> i"
    and "\<And>j. t \<le> j \<Longrightarrow> j < i \<Longrightarrow> arr_load dst j = arr_load src j"
  shows "arr_wf (copy_live src i b dst) \<and> ar_capacity (copy_live src i b dst) = ar_capacity dst \<and>
    (\<forall>j. t \<le> j \<and> j < b \<longrightarrow> arr_load (copy_live src i b dst) j = arr_load src j)"
  using assms
proof (induction src i b dst rule: copy_live.induct)
  case (1 src i b dst)
  show ?case
  proof (cases "i < b")
    case False
    then show ?thesis using 1(2,5) by (subst (1 2 3) copy_live.simps) auto
  next
    case True
    let ?d = "arr_store dst i (arr_load src i)"
    have "arr_load ?d j = arr_load src j" if "t \<le> j" "j < i + 1" for j
    proof (cases "j = i")
      case False
      then show ?thesis
        using arr_load_other [of dst j i] that 1(2,3,5) True by simp
    qed (simp add: arr_load_same 1(2))
    then have "arr_wf (copy_live src (i + 1) b ?d) \<and>
        ar_capacity (copy_live src (i + 1) b ?d) = ar_capacity ?d \<and>
        (\<forall>j. t \<le> j \<and> j < b \<longrightarrow> arr_load (copy_live src (i + 1) b ?d) j = arr_load src j)"
      using 1(2,3,4) True by (intro 1(1)) (simp_all add: arr_store_wf)
    then show ?thesis using True by (subst (1 2 3) copy_live.simps) simp
  qed
qed

text \<open>\<open>while (newCap < needed + 1) newCap *= 2\<close>, from a positive capacity.\<close>

function reserve_cap :: "nat \<Rightarrow> nat \<Rightarrow> nat" where
  "reserve_cap newCap needed =
     (if newCap < needed + 1 \<and> 0 < newCap then reserve_cap (newCap * 2) needed else newCap)"
  by pat_completeness auto
termination
  by (relation "measure (\<lambda>(newCap, needed). needed + 1 - newCap)") auto

declare reserve_cap.simps [simp del]

lemma reserve_cap_facts:
  "reserve_cap (2 ^ k) needed \<ge> needed + 1 \<and> reserve_cap (2 ^ k) needed \<ge> 2 ^ k \<and>
    (\<exists>m. reserve_cap (2 ^ k) needed = 2 ^ m)"
proof (induction "2 ^ k :: nat" needed arbitrary: k rule: reserve_cap.induct)
  case (1 needed)
  show ?case
  proof (cases "2 ^ k < needed + 1")
    case True
    then have "reserve_cap (2 ^ k) needed = reserve_cap (2 ^ Suc k) needed"
      by (subst reserve_cap.simps) (simp add: mult.commute)
    moreover have "reserve_cap (2 ^ Suc k) needed \<ge> needed + 1 \<and>
        reserve_cap (2 ^ Suc k) needed \<ge> 2 ^ Suc k \<and> (\<exists>m. reserve_cap (2 ^ Suc k) needed = 2 ^ m)"
      using True by (intro 1) (simp_all add: mult.commute)
    ultimately show ?thesis by auto
  next
    case False
    then show ?thesis by (subst (1 2 3) reserve_cap.simps) auto
  qed
qed

section \<open>State\<close>

datatype 'a owner_pc =
    OIdle
  | OPushTop 'a                     \<comment> \<open>about to load \<open>m_top\<close> in \<open>push\<close>\<close>
  | OReserveTop nat                 \<comment> \<open>about to load \<open>m_top\<close> in \<open>reserveOwner\<close>\<close>
  | OPublishArray nat int "'a option"   \<comment> \<open>new buffer filled, about to store \<open>m_array\<close>\<close>
  | ORetire nat int "'a option"     \<comment> \<open>about to chain the old buffer on the freelist\<close>
  | OStore int 'a                   \<comment> \<open>about to store the slot\<close>
  | OPublish int 'a                 \<comment> \<open>about to store \<open>m_bottom = b + 1\<close>\<close>
  | OPopTop int                     \<comment> \<open>\<open>m_bottom = b\<close> stored, about to load \<open>m_top\<close>\<close>
  | OPopCas int 'a                  \<comment> \<open>last element, about to compare-exchange \<open>m_top\<close>\<close>
  | OPopRestore int "'a option"     \<comment> \<open>about to store \<open>m_bottom = b + 1\<close> and return\<close>

datatype 'a thief_pc =
    TIdle
  | TBottom int                     \<comment> \<open>\<open>m_top\<close> loaded, about to load \<open>m_bottom\<close>\<close>
  | TArray int                      \<comment> \<open>about to load \<open>m_array\<close>\<close>
  | TSlot int nat                   \<comment> \<open>about to load the slot from this buffer\<close>
  | TCas int 'a                     \<comment> \<open>about to compare-exchange \<open>m_top\<close>\<close>

datatype 'a dq_call = CallPush 'a | CallPop | CallReserve nat

datatype 'a dq_act =
    OwnerCall "'a dq_call"
  | OwnerStep
  | ThiefStep nat                   \<comment> \<open>the thief's next operation; from \<open>TIdle\<close>, \<open>steal()\<close>\<close>

record 'a deque =
  dq_bottom :: int
  dq_top :: int
  dq_array :: nat
  dq_heap :: "'a dq_array list"
  dq_freelist :: "nat option"
  dq_owner :: "'a owner_pc"
  dq_thieves :: "nat \<Rightarrow> 'a thief_pc"
  dq_default :: 'a
  dq_pushed :: "'a list"
  dq_taken :: "'a list"

abbreviation active :: "'a deque \<Rightarrow> 'a dq_array" where
  "active s \<equiv> dq_heap s ! dq_array s"

definition kInitialCapacity :: nat where
  "kInitialCapacity = 64"

text \<open>The constructor: \<open>initialCapacity\<close> rounded up to a power of two, at least 64.\<close>

definition newDeque :: "'a \<Rightarrow> u64 \<Rightarrow> 'a deque" where
  "newDeque dflt initialCapacity =
     (let cap = max (unat (roundUpPow2 (if 0 < initialCapacity then initialCapacity
                                        else of_nat kInitialCapacity))) kInitialCapacity
      in \<lparr> dq_bottom = 0, dq_top = 0, dq_array = 0, dq_heap = [allocateArray dflt cap],
           dq_freelist = None, dq_owner = OIdle, dq_thieves = (\<lambda>i. TIdle), dq_default = dflt,
           dq_pushed = [], dq_taken = [] \<rparr>)"

definition dq_empty :: "'a deque \<Rightarrow> bool" where
  "dq_empty s = (dq_top s \<ge> dq_bottom s)"

definition dq_size :: "'a deque \<Rightarrow> nat" where
  "dq_size s = (if dq_bottom s > dq_top s then nat (dq_bottom s - dq_top s) else 0)"

definition dq_capacity :: "'a deque \<Rightarrow> nat" where
  "dq_capacity s = ar_capacity (active s)"

section \<open>Steps\<close>

text \<open>A fresh buffer of capacity \<open>cap\<close> holding the live elements \<open>[t, b)\<close>.\<close>

definition grow_buffer :: "'a deque \<Rightarrow> nat \<Rightarrow> int \<Rightarrow> int \<Rightarrow> 'a option \<Rightarrow> 'a deque" where
  "grow_buffer s cap t b k =
     s\<lparr> dq_heap := dq_heap s @ [copy_live (active s) t b (allocateArray (dq_default s) cap)],
        dq_owner := OPublishArray (length (dq_heap s)) b k \<rparr>"

definition push_step :: "'a deque \<Rightarrow> 'a \<Rightarrow> 'a deque" where
  "push_step s v =
     (let b = dq_bottom s; t = dq_top s; size = b - t
      in if size \<ge> int (ar_capacity (active s)) - 1
         then grow_buffer s (ar_capacity (active s) * 2) t b (Some v)
         else s\<lparr> dq_owner := OStore b v \<rparr>)"

definition reserveOwner_step :: "'a deque \<Rightarrow> nat \<Rightarrow> 'a deque" where
  "reserveOwner_step s needed =
     (if needed + 1 \<le> ar_capacity (active s) then s\<lparr> dq_owner := OIdle \<rparr>
      else grow_buffer s (reserve_cap (ar_capacity (active s)) needed) (dq_top s) (dq_bottom s) None)"

definition pop_step :: "'a deque \<Rightarrow> int \<Rightarrow> 'a deque" where
  "pop_step s b =
     (let t = dq_top s
      in if t > b then s\<lparr> dq_owner := OPopRestore b None \<rparr>
         else let value = arr_load (active s) b
              in if t \<noteq> b then s\<lparr> dq_owner := OIdle, dq_taken := dq_taken s @ [value] \<rparr>
                 else s\<lparr> dq_owner := OPopCas b value \<rparr>)"

definition pop_cas_step :: "'a deque \<Rightarrow> int \<Rightarrow> 'a \<Rightarrow> 'a deque" where
  "pop_cas_step s b value =
     (if dq_top s = b
      then s\<lparr> dq_top := b + 1, dq_owner := OPopRestore b (Some value),
              dq_taken := dq_taken s @ [value] \<rparr>
      else s\<lparr> dq_owner := OPopRestore b None \<rparr>)"

definition owner_step :: "'a deque \<Rightarrow> 'a deque option" where
  "owner_step s = (case dq_owner s of
       OIdle \<Rightarrow> None
     | OPushTop v \<Rightarrow> Some (push_step s v)
     | OReserveTop needed \<Rightarrow> Some (reserveOwner_step s needed)
     | OPublishArray a b k \<Rightarrow>
         Some (s\<lparr> dq_array := a, dq_owner := ORetire (dq_array s) b k \<rparr>)
     | ORetire old b k \<Rightarrow>
         Some (s\<lparr> dq_heap := (dq_heap s)[old := (dq_heap s ! old)\<lparr> ar_next := dq_freelist s \<rparr>],
                  dq_freelist := Some old,
                  dq_owner := (case k of Some v \<Rightarrow> OStore b v | None \<Rightarrow> OIdle) \<rparr>)
     | OStore b v \<Rightarrow>
         Some (s\<lparr> dq_heap := (dq_heap s)[dq_array s := arr_store (active s) b v],
                  dq_owner := OPublish b v \<rparr>)
     | OPublish b v \<Rightarrow>
         Some (s\<lparr> dq_bottom := b + 1, dq_owner := OIdle, dq_pushed := dq_pushed s @ [v] \<rparr>)
     | OPopTop b \<Rightarrow> Some (pop_step s b)
     | OPopCas b value \<Rightarrow> Some (pop_cas_step s b value)
     | OPopRestore b r \<Rightarrow> Some (s\<lparr> dq_bottom := b + 1, dq_owner := OIdle \<rparr>))"

definition owner_call :: "'a deque \<Rightarrow> 'a dq_call \<Rightarrow> 'a deque option" where
  "owner_call s c = (if dq_owner s \<noteq> OIdle then None
     else case c of
       CallPush v \<Rightarrow> Some (s\<lparr> dq_owner := OPushTop v \<rparr>)
     | CallReserve needed \<Rightarrow> Some (s\<lparr> dq_owner := OReserveTop needed \<rparr>)
     | CallPop \<Rightarrow> Some (s\<lparr> dq_bottom := dq_bottom s - 1, dq_owner := OPopTop (dq_bottom s - 1) \<rparr>))"

definition thief_goto :: "'a deque \<Rightarrow> nat \<Rightarrow> 'a thief_pc \<Rightarrow> 'a deque" where
  "thief_goto s i l = s\<lparr> dq_thieves := (dq_thieves s)(i := l) \<rparr>"

text \<open>\<open>steal\<close>, one atomic operation at a time.\<close>

definition steal_step :: "'a deque \<Rightarrow> nat \<Rightarrow> 'a deque" where
  "steal_step s i = (case dq_thieves s i of
       TIdle \<Rightarrow> thief_goto s i (TBottom (dq_top s))
     | TBottom t \<Rightarrow> thief_goto s i (if t \<ge> dq_bottom s then TIdle else TArray t)
     | TArray t \<Rightarrow> thief_goto s i (TSlot t (dq_array s))
     | TSlot t a \<Rightarrow> thief_goto s i (TCas t (arr_load (dq_heap s ! a) t))
     | TCas t value \<Rightarrow>
         if dq_top s = t
         then thief_goto (s\<lparr> dq_top := t + 1, dq_taken := dq_taken s @ [value] \<rparr>) i TIdle
         else thief_goto s i TIdle)"

fun deque_step :: "'a deque \<Rightarrow> 'a dq_act \<Rightarrow> 'a deque option" where
  "deque_step s (OwnerCall c) = owner_call s c"
| "deque_step s OwnerStep = owner_step s"
| "deque_step s (ThiefStep i) = Some (steal_step s i)"

section \<open>Abstraction and invariant\<close>

text \<open>
  The logical end of the deque: while a pop is undecided, \<open>m_bottom\<close> is one below it.
\<close>

definition ebot :: "'a deque \<Rightarrow> int" where
  "ebot s = (case dq_owner s of
       OPopTop b \<Rightarrow> b + 1 | OPopCas b v \<Rightarrow> b + 1 | OPopRestore b r \<Rightarrow> b + 1
     | _ \<Rightarrow> dq_bottom s)"

definition dq_abs :: "'a deque \<Rightarrow> 'a list" where
  "dq_abs s = map (arr_load (active s)) [dq_top s..ebot s - 1]"

definition buffers_ok :: "'a deque \<Rightarrow> bool" where
  "buffers_ok s \<longleftrightarrow> dq_array s < length (dq_heap s) \<and> (\<forall>arr\<in>set (dq_heap s). arr_wf arr) \<and>
     dq_top s \<le> ebot s \<and> ebot s - dq_top s \<le> int (dq_capacity s) - 1"

definition room :: "'a deque \<Rightarrow> nat \<Rightarrow> 'a option \<Rightarrow> bool" where
  "room s cap k \<longleftrightarrow> dq_bottom s - dq_top s \<le> int cap - (if k = None then 1 else 2)"

definition owner_ok :: "'a deque \<Rightarrow> bool" where
  "owner_ok s = (case dq_owner s of
       OPublishArray a b k \<Rightarrow> b = dq_bottom s \<and> a < length (dq_heap s) \<and> a \<noteq> dq_array s \<and>
         room s (ar_capacity (dq_heap s ! a)) k \<and>
         (\<forall>j. dq_top s \<le> j \<longrightarrow> j < b \<longrightarrow> arr_load (dq_heap s ! a) j = arr_load (active s) j)
     | ORetire old b k \<Rightarrow> b = dq_bottom s \<and> old < length (dq_heap s) \<and> old \<noteq> dq_array s \<and>
         room s (dq_capacity s) k
     | OStore b v \<Rightarrow> b = dq_bottom s \<and> room s (dq_capacity s) (Some v)
     | OPublish b v \<Rightarrow> b = dq_bottom s \<and> room s (dq_capacity s) (Some v) \<and>
         arr_load (active s) b = v
     | OPopTop b \<Rightarrow> b = dq_bottom s
     | OPopCas b v \<Rightarrow> b = dq_bottom s \<and> b \<le> dq_top s \<and> arr_load (active s) b = v
     | OPopRestore b r \<Rightarrow> b = dq_bottom s \<and> dq_top s = b + 1
     | _ \<Rightarrow> True)"

definition thief_ok :: "'a deque \<Rightarrow> nat \<Rightarrow> bool" where
  "thief_ok s i = (case dq_thieves s i of
       TIdle \<Rightarrow> True
     | TBottom t \<Rightarrow> t \<le> dq_top s
     | TArray t \<Rightarrow> t \<le> dq_top s \<and> (t = dq_top s \<longrightarrow> t < ebot s)
     | TSlot t a \<Rightarrow> t \<le> dq_top s \<and> a < length (dq_heap s) \<and>
         (t = dq_top s \<longrightarrow> t < ebot s \<and> arr_load (dq_heap s ! a) t = arr_load (active s) t)
     | TCas t v \<Rightarrow> t \<le> dq_top s \<and> (t = dq_top s \<longrightarrow> t < ebot s \<and> v = arr_load (active s) t))"

definition deque_inv :: "'a deque \<Rightarrow> bool" where
  "deque_inv s \<longleftrightarrow> buffers_ok s \<and> owner_ok s \<and> (\<forall>i. thief_ok s i)"

lemmas deque_inv_defs = buffers_ok_def owner_ok_def thief_ok_def deque_inv_def ebot_def room_def
  dq_capacity_def

lemma upto_snoc: "lo \<le> hi + 1 \<Longrightarrow> map f [lo..hi + 1] = map f [lo..hi] @ [f (hi + 1)]"
  by (subst upto_rec2) simp_all

lemma upto_Cons: "lo \<le> hi \<Longrightarrow> map f [lo..hi] = f lo # map f [lo + 1..hi]"
  by (simp add: upto_rec1)

text \<open>What a step does to the logical content and to the histories.\<close>

definition unchanged :: "'a deque \<Rightarrow> 'a deque \<Rightarrow> bool" where
  "unchanged s t \<longleftrightarrow> dq_abs t = dq_abs s \<and> dq_pushed t = dq_pushed s \<and> dq_taken t = dq_taken s"

definition pushes :: "'a deque \<Rightarrow> 'a deque \<Rightarrow> 'a \<Rightarrow> bool" where
  "pushes s t v \<longleftrightarrow> dq_abs t = dq_abs s @ [v] \<and> dq_pushed t = dq_pushed s @ [v] \<and>
     dq_taken t = dq_taken s"

definition takes_top :: "'a deque \<Rightarrow> 'a deque \<Rightarrow> 'a \<Rightarrow> bool" where
  "takes_top s t v \<longleftrightarrow> dq_abs s = v # dq_abs t \<and> dq_pushed t = dq_pushed s \<and>
     dq_taken t = dq_taken s @ [v]"

definition takes_bottom :: "'a deque \<Rightarrow> 'a deque \<Rightarrow> 'a \<Rightarrow> bool" where
  "takes_bottom s t v \<longleftrightarrow> dq_abs s = dq_abs t @ [v] \<and> dq_pushed t = dq_pushed s \<and>
     dq_taken t = dq_taken s @ [v]"

lemmas effect_defs = unchanged_def pushes_def takes_top_def takes_bottom_def

lemma inv_active: "deque_inv s \<Longrightarrow> arr_wf (active s)"
  by (simp add: deque_inv_def buffers_ok_def)

subsection \<open>Thieves\<close>

lemma thief_goto_simps [simp]:
  "dq_bottom (thief_goto s i l) = dq_bottom s" "dq_top (thief_goto s i l) = dq_top s"
  "dq_array (thief_goto s i l) = dq_array s" "dq_heap (thief_goto s i l) = dq_heap s"
  "dq_owner (thief_goto s i l) = dq_owner s"
  "dq_thieves (thief_goto s i l) = (dq_thieves s)(i := l)"
  "dq_pushed (thief_goto s i l) = dq_pushed s" "dq_taken (thief_goto s i l) = dq_taken s"
  "ebot (thief_goto s i l) = ebot s"
  by (simp_all add: thief_goto_def ebot_def cong: owner_pc.case_cong)

lemma thief_goto_inv:
  assumes inv: "deque_inv s" and i: "thief_ok (thief_goto s i l) i"
  shows "deque_inv (thief_goto s i l)"
proof -
  have "buffers_ok (thief_goto s i l) = buffers_ok s"
    by (simp add: buffers_ok_def dq_capacity_def)
  moreover have "owner_ok (thief_goto s i l) = owner_ok s"
    by (simp only: owner_ok_def room_def dq_capacity_def thief_goto_simps)
  moreover have "thief_ok (thief_goto s i l) j = thief_ok s j" if "j \<noteq> i" for j
    using that by (cases "dq_thieves s j") (simp_all add: thief_ok_def)
  ultimately show ?thesis using inv i by (metis deque_inv_def)
qed

lemma steal_step_inv:
  assumes inv: "deque_inv s"
  shows "deque_inv (steal_step s i)"
proof -
  have o: "owner_ok s" "buffers_ok s" and th: "thief_ok s j" for j
    using inv by (auto simp: deque_inv_def)
  show ?thesis
  proof (cases "dq_thieves s i")
    case (TCas t v)
    show ?thesis
    proof (cases "dq_top s = t")
      case True
      have lt: "t < ebot s" using th [of i] TCas True by (simp add: thief_ok_def)
      let ?s = "steal_step s i"
      have s': "?s = thief_goto (s\<lparr> dq_top := t + 1, dq_taken := dq_taken s @ [v] \<rparr>) i TIdle"
        using TCas True by (simp add: steal_step_def)
      have eb: "ebot ?s = ebot s" unfolding s'
        by (simp add: ebot_def thief_goto_def cong: owner_pc.case_cong)
      have "buffers_ok ?s"
        using o(2) lt True eb unfolding s'
        by (simp add: buffers_ok_def thief_goto_def dq_capacity_def)
      moreover have "owner_ok ?s"
        using o(1) lt True unfolding s'
        by (cases "dq_owner s") (auto simp: owner_ok_def thief_goto_def dq_capacity_def room_def
          ebot_def split: if_splits)
      moreover have "thief_ok ?s j" for j
        using th [of j] True eb unfolding s'
        by (cases "dq_thieves s j") (auto simp: thief_ok_def thief_goto_def)
      ultimately show ?thesis by (simp add: deque_inv_def)
    next
      case False
      then have "steal_step s i = thief_goto s i TIdle" using TCas by (simp add: steal_step_def)
      then show ?thesis using inv by (auto intro!: thief_goto_inv simp: thief_ok_def)
    qed
  next
    case (TBottom t)
    have "t \<le> dq_top s" using th [of i] TBottom by (simp add: thief_ok_def)
    moreover have "dq_bottom s \<le> ebot s"
      using o(1) by (cases "dq_owner s") (auto simp: owner_ok_def ebot_def)
    ultimately have "thief_ok (thief_goto s i (if t \<ge> dq_bottom s then TIdle else TArray t)) i"
      by (auto simp: thief_ok_def)
    then show ?thesis using inv TBottom by (simp add: steal_step_def thief_goto_inv)
  next
    case (TArray t)
    then have "thief_ok (thief_goto s i (TSlot t (dq_array s))) i"
      using th [of i] o(2) by (auto simp: thief_ok_def buffers_ok_def)
    then show ?thesis using inv TArray by (simp add: steal_step_def thief_goto_inv)
  next
    case (TSlot t a)
    then have "thief_ok (thief_goto s i (TCas t (arr_load (dq_heap s ! a) t))) i"
      using th [of i] by (auto simp: thief_ok_def)
    then show ?thesis using inv TSlot by (simp add: steal_step_def thief_goto_inv)
  next
    case TIdle
    have "thief_ok (thief_goto s i (TBottom (dq_top s))) i" by (simp add: thief_ok_def)
    then show ?thesis using inv TIdle by (simp add: steal_step_def thief_goto_inv)
  qed
qed

subsection \<open>The owner\<close>

lemma grow_buffer_inv:
  assumes inv: "deque_inv s" and b: "b = dq_bottom s" "ebot s = dq_bottom s" and t: "t = dq_top s"
    and cap: "cap = 2 ^ m" "dq_capacity s \<le> cap" "room s cap k"
  shows "deque_inv (grow_buffer s cap t b k)"
proof -
  let ?n = "copy_live (active s) t b (allocateArray (dq_default s) cap)"
  let ?s = "grow_buffer s cap t b k"
  have o: "buffers_ok s" and th: "\<And>j. thief_ok s j" using inv by (auto simp: deque_inv_def)
  have le: "b - t \<le> int cap" using o b t cap(2) by (simp add: buffers_ok_def)
  have n: "arr_wf ?n \<and> ar_capacity ?n = cap \<and>
      (\<forall>j. t \<le> j \<and> j < b \<longrightarrow> arr_load ?n j = arr_load (active s) j)"
    using copy_live_facts [of "allocateArray (dq_default s) cap" b t t "active s"] le
      allocateArray_wf [of "dq_default s" m] cap(1) by (simp add: allocateArray_def)
  have a: "dq_array s < length (dq_heap s)" using o by (simp add: buffers_ok_def)
  have act: "active ?s = active s" "ebot ?s = ebot s" "dq_top ?s = dq_top s"
    "dq_thieves ?s = dq_thieves s" "dq_bottom ?s = dq_bottom s"
    using a b(2) by (simp_all add: grow_buffer_def nth_append ebot_def)
  have heap: "dq_heap ?s = dq_heap s @ [?n]" by (simp add: grow_buffer_def)
  have "buffers_ok ?s"
    using o n act a by (auto simp: buffers_ok_def heap dq_capacity_def grow_buffer_def)
  moreover have "owner_ok ?s"
    using n act a b(1) t cap(3) by (simp add: owner_ok_def grow_buffer_def room_def nth_append)
  moreover have "thief_ok ?s j" for j
    using th [of j] act by (cases "dq_thieves s j") (auto simp: thief_ok_def heap nth_append)
  ultimately show ?thesis by (simp add: deque_inv_def)
qed

lemma active_capacity:
  assumes "deque_inv s"
  obtains m where "dq_capacity s = 2 ^ m"
  using inv_active [OF assms] by (auto simp: arr_wf_def dq_capacity_def)

lemma push_step_inv:
  assumes inv: "deque_inv s" and pc: "dq_owner s = OPushTop v"
  shows "deque_inv (push_step s v)"
proof -
  have eb: "ebot s = dq_bottom s" using pc by (simp add: ebot_def)
  have o: "buffers_ok s" and th: "\<And>j. thief_ok s j" using inv by (auto simp: deque_inv_def)
  obtain m where m: "dq_capacity s = 2 ^ m" using inv by (rule active_capacity)
  show ?thesis
  proof (cases "dq_bottom s - dq_top s \<ge> int (ar_capacity (active s)) - 1")
    case True
    have "int (dq_capacity s) \<ge> 1" using m by simp
    then have "room s (dq_capacity s * 2) (Some v)"
      using o eb by (simp add: room_def buffers_ok_def)
    moreover have "dq_capacity s * 2 = 2 ^ Suc m" "dq_capacity s \<le> dq_capacity s * 2"
      using m by simp_all
    ultimately have "deque_inv (grow_buffer s (dq_capacity s * 2) (dq_top s) (dq_bottom s) (Some v))"
      using grow_buffer_inv [OF inv refl eb refl] by blast
    then show ?thesis using True by (simp add: push_step_def Let_def dq_capacity_def)
  next
    case False
    have "owner_ok (s\<lparr> dq_owner := OStore (dq_bottom s) v \<rparr>)"
      using False by (simp add: owner_ok_def room_def dq_capacity_def)
    moreover have "buffers_ok (s\<lparr> dq_owner := OStore (dq_bottom s) v \<rparr>)"
      using o eb by (simp add: buffers_ok_def ebot_def dq_capacity_def)
    moreover have "thief_ok (s\<lparr> dq_owner := OStore (dq_bottom s) v \<rparr>) j" for j
      using th [of j] eb by (cases "dq_thieves s j") (auto simp: thief_ok_def ebot_def)
    ultimately show ?thesis using False by (simp add: push_step_def Let_def deque_inv_def)
  qed
qed

lemma owner_goto_inv:
  assumes inv: "deque_inv s" and "owner_ok (s\<lparr> dq_owner := l \<rparr>)"
    and "ebot (s\<lparr> dq_owner := l \<rparr>) = ebot s"
  shows "deque_inv (s\<lparr> dq_owner := l \<rparr>)"
proof -
  have o: "buffers_ok s" and th: "\<And>j. thief_ok s j" using inv by (auto simp: deque_inv_def)
  have "thief_ok (s\<lparr> dq_owner := l \<rparr>) j" for j
    using th [of j] assms(3) by (cases "dq_thieves s j") (auto simp: thief_ok_def)
  then show ?thesis
    using o assms(2,3) by (simp add: deque_inv_def buffers_ok_def dq_capacity_def)
qed

lemma reserveOwner_step_inv:
  assumes inv: "deque_inv s" and pc: "dq_owner s = OReserveTop needed"
  shows "deque_inv (reserveOwner_step s needed)"
proof -
  have eb: "ebot s = dq_bottom s" using pc by (simp add: ebot_def)
  have o: "buffers_ok s" using inv by (auto simp: deque_inv_def)
  obtain m where m: "dq_capacity s = 2 ^ m" using inv by (rule active_capacity)
  show ?thesis
  proof (cases "needed + 1 \<le> ar_capacity (active s)")
    case True
    have "deque_inv (s\<lparr> dq_owner := OIdle \<rparr>)"
      using inv eb by (intro owner_goto_inv) (auto simp: owner_ok_def ebot_def)
    then show ?thesis using True by (simp add: reserveOwner_step_def)
  next
    case False
    let ?cap = "reserve_cap (dq_capacity s) needed"
    obtain m' where c: "?cap = 2 ^ m'" "dq_capacity s \<le> ?cap"
      using reserve_cap_facts [of needed m] m by auto
    have "ebot s - dq_top s \<le> int (dq_capacity s) - 1" using o by (simp add: buffers_ok_def)
    moreover have "int (dq_capacity s) \<le> int ?cap" using c(2) by (simp only: of_nat_le_iff)
    ultimately have "room s ?cap None" unfolding room_def eb by simp
    with c have "deque_inv (grow_buffer s ?cap (dq_top s) (dq_bottom s) None)"
      using grow_buffer_inv [OF inv refl eb refl] by blast
    then show ?thesis using False by (simp add: reserveOwner_step_def dq_capacity_def)
  qed
qed

lemma publish_array_inv:
  assumes inv: "deque_inv s" and pc: "dq_owner s = OPublishArray a b k"
  shows "deque_inv (s\<lparr> dq_array := a, dq_owner := ORetire (dq_array s) b k \<rparr>)" (is "deque_inv ?s")
proof -
  have o: "buffers_ok s" and th: "\<And>j. thief_ok s j" and "owner_ok s"
    using inv by (auto simp: deque_inv_def)
  with pc have a: "b = dq_bottom s" "a < length (dq_heap s)" "a \<noteq> dq_array s"
    and rm: "room s (ar_capacity (dq_heap s ! a)) k"
    and cp: "\<And>j. dq_top s \<le> j \<Longrightarrow> j < b \<Longrightarrow> arr_load (dq_heap s ! a) j = arr_load (active s) j"
    by (auto simp: owner_ok_def)
  have eb: "ebot s = b" "ebot ?s = b" using pc a(1) by (simp_all add: ebot_def)
  have "buffers_ok ?s"
    using o a rm eb by (auto simp: buffers_ok_def dq_capacity_def room_def split: if_splits)
  moreover have "owner_ok ?s"
    using a rm o by (auto simp: owner_ok_def dq_capacity_def room_def buffers_ok_def)
  moreover have "thief_ok ?s j" for j
    using th [of j] cp eb by (cases "dq_thieves s j") (auto simp: thief_ok_def)
  ultimately show ?thesis by (simp add: deque_inv_def)
qed

lemma arr_load_next [simp]: "arr_load (arr\<lparr> ar_next := n \<rparr>) i = arr_load arr i"
  by (simp add: arr_load_def arr_index_def)

lemma arr_wf_next [simp]: "arr_wf (arr\<lparr> ar_next := n \<rparr>) = arr_wf arr"
  by (simp add: arr_wf_def)

lemma retire_inv:
  assumes inv: "deque_inv s" and pc: "dq_owner s = ORetire old b k"
  shows "deque_inv (s\<lparr> dq_heap := (dq_heap s)[old := (dq_heap s ! old)\<lparr> ar_next := dq_freelist s \<rparr>],
      dq_freelist := Some old, dq_owner := (case k of Some v \<Rightarrow> OStore b v | None \<Rightarrow> OIdle) \<rparr>)"
    (is "deque_inv ?s")
proof -
  have o: "buffers_ok s" and th: "\<And>j. thief_ok s j" and "owner_ok s"
    using inv by (auto simp: deque_inv_def)
  with pc have a: "b = dq_bottom s" "old < length (dq_heap s)" "old \<noteq> dq_array s"
    and rm: "room s (dq_capacity s) k" by (auto simp: owner_ok_def)
  have eb: "ebot s = b" "ebot ?s = b" using pc a(1) by (simp_all add: ebot_def split: option.splits)
  have act: "active ?s = active s" using a by simp
  have ld: "arr_load (dq_heap ?s ! c) j = arr_load (dq_heap s ! c) j" if "c < length (dq_heap s)" for c j
    using that by (cases "c = old") simp_all
  have "\<forall>arr\<in>set (dq_heap ?s). arr_wf arr"
    using o a(2) by (auto simp: all_set_conv_all_nth nth_list_update buffers_ok_def)
  then have "buffers_ok ?s" using o a eb act by (simp add: buffers_ok_def dq_capacity_def)
  moreover have "owner_ok ?s"
    using a rm act by (auto simp: owner_ok_def dq_capacity_def room_def split: option.splits)
  moreover have "thief_ok ?s j" for j
    using th [of j] ld act eb by (cases "dq_thieves s j") (auto simp: thief_ok_def)
  ultimately show ?thesis by (simp add: deque_inv_def)
qed

lemma store_inv:
  assumes inv: "deque_inv s" and pc: "dq_owner s = OStore b v"
  shows "deque_inv (s\<lparr> dq_heap := (dq_heap s)[dq_array s := arr_store (active s) b v],
      dq_owner := OPublish b v \<rparr>)" (is "deque_inv ?s")
proof -
  have o: "buffers_ok s" and th: "\<And>j. thief_ok s j" and "owner_ok s"
    using inv by (auto simp: deque_inv_def)
  with pc have b: "b = dq_bottom s" and rm: "room s (dq_capacity s) (Some v)"
    by (auto simp: owner_ok_def)
  have wf: "arr_wf (active s)" using inv by (rule inv_active)
  have a: "dq_array s < length (dq_heap s)" using o by (simp add: buffers_ok_def)
  have eb: "ebot s = b" "ebot ?s = b" using pc b by (simp_all add: ebot_def)
  have act: "active ?s = arr_store (active s) b v" using a by simp
  have same: "arr_load (active ?s) t = arr_load (active s) t" if "dq_top s \<le> t" "t < b" for t
    unfolding act
  proof (rule arr_load_other [OF wf])
    show "t < b" by fact
    show "b < t + int (ar_capacity (active s))"
      using rm b that by (simp add: room_def dq_capacity_def)
  qed
  have ld: "arr_load (dq_heap ?s ! c) t = arr_load (dq_heap s ! c) t"
    if "dq_top s \<le> t" "t < b" for c t
    using same [OF that] a by (cases "c = dq_array s") simp_all
  have "\<forall>arr\<in>set (dq_heap ?s). arr_wf arr"
    using o a wf by (auto simp: all_set_conv_all_nth nth_list_update buffers_ok_def arr_store_wf)
  then have "buffers_ok ?s" using o a eb by (simp add: buffers_ok_def dq_capacity_def)
  moreover have "owner_ok ?s"
    using b rm a arr_load_same [OF wf] by (simp add: owner_ok_def dq_capacity_def room_def)
  moreover have "thief_ok ?s j" for j
    using th [of j] ld same [unfolded act] eb act
    by (cases "dq_thieves s j") (auto simp: thief_ok_def simp del: nth_list_update_eq)
  ultimately show ?thesis by (simp add: deque_inv_def)
qed

lemma publish_inv:
  assumes inv: "deque_inv s" and pc: "dq_owner s = OPublish b v"
  shows "deque_inv (s\<lparr> dq_bottom := b + 1, dq_owner := OIdle, dq_pushed := dq_pushed s @ [v] \<rparr>)"
    (is "deque_inv ?s")
proof -
  have o: "buffers_ok s" and th: "\<And>j. thief_ok s j" and "owner_ok s"
    using inv by (auto simp: deque_inv_def)
  with pc have b: "b = dq_bottom s" and rm: "room s (dq_capacity s) (Some v)"
    by (auto simp: owner_ok_def)
  have eb: "ebot s = b" "ebot ?s = b + 1" using pc b by (simp_all add: ebot_def)
  have "buffers_ok ?s" using o eb rm b by (simp add: buffers_ok_def dq_capacity_def room_def)
  moreover have "owner_ok ?s" by (simp add: owner_ok_def)
  moreover have "thief_ok ?s j" for j
    using th [of j] eb by (cases "dq_thieves s j") (auto simp: thief_ok_def)
  ultimately show ?thesis by (simp add: deque_inv_def)
qed

lemma pop_step_inv:
  assumes inv: "deque_inv s" and pc: "dq_owner s = OPopTop b"
  shows "deque_inv (pop_step s b)"
proof -
  have o: "buffers_ok s" and th: "\<And>j. thief_ok s j" and "owner_ok s"
    using inv by (auto simp: deque_inv_def)
  with pc have b: "b = dq_bottom s" by (auto simp: owner_ok_def)
  have eb: "ebot s = b + 1" using pc by (simp add: ebot_def)
  have top: "dq_top s \<le> b + 1" using o eb by (simp add: buffers_ok_def)
  show ?thesis
  proof (cases "dq_top s \<ge> b")
    case True
    have "deque_inv (s\<lparr> dq_owner := OPopRestore b None \<rparr>)" if "b < dq_top s"
      using inv eb top that b by (intro owner_goto_inv) (auto simp: owner_ok_def ebot_def)
    moreover have "deque_inv (s\<lparr> dq_owner := OPopCas b (arr_load (active s) b) \<rparr>)"
      using inv eb b True by (intro owner_goto_inv) (auto simp: owner_ok_def ebot_def)
    ultimately show ?thesis using True by (auto simp: pop_step_def Let_def)
  next
    case False
    let ?s = "s\<lparr> dq_owner := OIdle, dq_taken := dq_taken s @ [arr_load (active s) b] \<rparr>"
    have eb': "ebot ?s = b" using b by (simp add: ebot_def)
    have "buffers_ok ?s" using o eb eb' False by (simp add: buffers_ok_def dq_capacity_def)
    moreover have "owner_ok ?s" by (simp add: owner_ok_def)
    moreover have "thief_ok ?s j" for j
      using th [of j] eb' False by (cases "dq_thieves s j") (auto simp: thief_ok_def)
    ultimately show ?thesis using False by (simp add: pop_step_def Let_def deque_inv_def)
  qed
qed

lemma pop_cas_inv:
  assumes inv: "deque_inv s" and pc: "dq_owner s = OPopCas b v"
  shows "deque_inv (pop_cas_step s b v)"
proof -
  have o: "buffers_ok s" and th: "\<And>j. thief_ok s j" and "owner_ok s"
    using inv by (auto simp: deque_inv_def)
  with pc have b: "b = dq_bottom s" "b \<le> dq_top s" by (auto simp: owner_ok_def)
  have eb: "ebot s = b + 1" using pc by (simp add: ebot_def)
  have top: "dq_top s \<le> b + 1" using o eb by (simp add: buffers_ok_def)
  show ?thesis
  proof (cases "dq_top s = b")
    case False
    then have "deque_inv (s\<lparr> dq_owner := OPopRestore b None \<rparr>)"
      using inv eb top b by (intro owner_goto_inv) (auto simp: owner_ok_def ebot_def)
    then show ?thesis using False by (simp add: pop_cas_step_def)
  next
    case True
    let ?s = "s\<lparr> dq_top := b + 1, dq_owner := OPopRestore b (Some v), dq_taken := dq_taken s @ [v] \<rparr>"
    have eb': "ebot ?s = b + 1" by (simp add: ebot_def)
    have "buffers_ok ?s" using o eb eb' True by (simp add: buffers_ok_def dq_capacity_def)
    moreover have "owner_ok ?s" using b by (simp add: owner_ok_def)
    moreover have "thief_ok ?s j" for j
      using th [of j] eb' True by (cases "dq_thieves s j") (auto simp: thief_ok_def)
    ultimately show ?thesis using True by (simp add: pop_cas_step_def deque_inv_def)
  qed
qed

lemma pop_restore_inv:
  assumes inv: "deque_inv s" and pc: "dq_owner s = OPopRestore b r"
  shows "deque_inv (s\<lparr> dq_bottom := b + 1, dq_owner := OIdle \<rparr>)" (is "deque_inv ?s")
proof -
  have o: "buffers_ok s" and th: "\<And>j. thief_ok s j" using inv by (auto simp: deque_inv_def)
  have eb: "ebot s = b + 1" "ebot ?s = b + 1" using pc by (simp_all add: ebot_def)
  have "buffers_ok ?s" using o eb by (simp add: buffers_ok_def dq_capacity_def)
  moreover have "owner_ok ?s" by (simp add: owner_ok_def)
  moreover have "thief_ok ?s j" for j
    using th [of j] eb by (cases "dq_thieves s j") (auto simp: thief_ok_def)
  ultimately show ?thesis by (simp add: deque_inv_def)
qed

lemma pop_call_inv:
  assumes inv: "deque_inv s" and pc: "dq_owner s = OIdle"
  shows "deque_inv (s\<lparr> dq_bottom := dq_bottom s - 1, dq_owner := OPopTop (dq_bottom s - 1) \<rparr>)"
    (is "deque_inv ?s")
proof -
  have o: "buffers_ok s" and th: "\<And>j. thief_ok s j" using inv by (auto simp: deque_inv_def)
  have eb: "ebot ?s = ebot s" using pc by (simp add: ebot_def)
  have "buffers_ok ?s" using o eb by (simp add: buffers_ok_def dq_capacity_def)
  moreover have "owner_ok ?s" by (simp add: owner_ok_def)
  moreover have "thief_ok ?s j" for j
    using th [of j] eb by (cases "dq_thieves s j") (auto simp: thief_ok_def)
  ultimately show ?thesis by (simp add: deque_inv_def)
qed

lemma owner_call_inv:
  assumes "deque_inv s" "owner_call s c = Some t"
  shows "deque_inv t"
proof -
  from assms(2) have pc: "dq_owner s = OIdle" by (auto simp: owner_call_def split: if_splits)
  show ?thesis
    using assms(2) pc pop_call_inv [OF assms(1) pc]
      owner_goto_inv [OF assms(1)]
    by (cases c) (auto simp: owner_call_def owner_ok_def ebot_def)
qed

lemma owner_step_inv:
  assumes inv: "deque_inv s" and st: "owner_step s = Some t"
  shows "deque_inv t"
proof (cases "dq_owner s")
  case OIdle
  with st show ?thesis by (simp add: owner_step_def)
next
  case (OPushTop v)
  then show ?thesis using st push_step_inv [OF inv OPushTop] by (simp add: owner_step_def)
next
  case (OReserveTop needed)
  then show ?thesis using st reserveOwner_step_inv [OF inv OReserveTop] by (simp add: owner_step_def)
next
  case (OPublishArray a b k)
  then show ?thesis using st publish_array_inv [OF inv OPublishArray] by (simp add: owner_step_def)
next
  case (ORetire old b k)
  then show ?thesis using st retire_inv [OF inv ORetire] by (simp add: owner_step_def)
next
  case (OStore b v)
  then show ?thesis using st store_inv [OF inv OStore] by (simp add: owner_step_def)
next
  case (OPublish b v)
  then show ?thesis using st publish_inv [OF inv OPublish] by (simp add: owner_step_def)
next
  case (OPopTop b)
  then show ?thesis using st pop_step_inv [OF inv OPopTop] by (simp add: owner_step_def)
next
  case (OPopCas b v)
  then show ?thesis using st pop_cas_inv [OF inv OPopCas] by (simp add: owner_step_def)
next
  case (OPopRestore b r)
  then show ?thesis using st pop_restore_inv [OF inv OPopRestore] by (simp add: owner_step_def)
qed

lemma deque_step_inv:
  assumes inv: "deque_inv s" and st: "deque_step s a = Some t"
  shows "deque_inv t"
proof (cases a)
  case (OwnerCall c)
  then show ?thesis using st owner_call_inv [OF inv] by simp
next
  case OwnerStep
  then show ?thesis using st owner_step_inv [OF inv] by simp
next
  case (ThiefStep i)
  then show ?thesis using st steal_step_inv [OF inv] by auto
qed

section \<open>Refinement\<close>

lemma dq_abs_same:
  assumes "ebot t = ebot s" "dq_top t = dq_top s"
    and "\<And>j. dq_top s \<le> j \<Longrightarrow> j < ebot s \<Longrightarrow> arr_load (active t) j = arr_load (active s) j"
  shows "dq_abs t = dq_abs s"
  using assms by (auto simp: dq_abs_def)

lemma owner_goto_unchanged:
  "ebot (s\<lparr> dq_owner := l \<rparr>) = ebot s \<Longrightarrow> unchanged s (s\<lparr> dq_owner := l \<rparr>)"
  unfolding unchanged_def by (intro conjI dq_abs_same) simp_all

lemma thief_goto_unchanged: "unchanged s (thief_goto s i l)"
  unfolding unchanged_def by (intro conjI dq_abs_same) simp_all

lemma grow_buffer_unchanged:
  assumes "deque_inv s" "ebot s = dq_bottom s"
  shows "unchanged s (grow_buffer s cap t b k)"
proof -
  have "dq_array s < length (dq_heap s)" using assms(1) by (simp add: deque_inv_def buffers_ok_def)
  then have "dq_abs (grow_buffer s cap t b k) = dq_abs s"
    using assms(2) by (intro dq_abs_same) (simp_all add: grow_buffer_def ebot_def nth_append)
  then show ?thesis by (simp add: unchanged_def grow_buffer_def)
qed

lemma steal_step_effect:
  assumes inv: "deque_inv s"
  shows "unchanged s (steal_step s i) \<or>
    (\<exists>v. dq_thieves s i = TCas (dq_top s) v \<and> takes_top s (steal_step s i) v)"
proof (cases "\<exists>v. dq_thieves s i = TCas (dq_top s) v")
  case False
  then show ?thesis
    by (cases "dq_thieves s i") (auto simp: steal_step_def thief_goto_unchanged)
next
  case True
  then obtain v where pc: "dq_thieves s i = TCas (dq_top s) v" by blast
  let ?t = "steal_step s i"
  from inv have "thief_ok s i" by (simp add: deque_inv_def)
  with pc have lt: "dq_top s < ebot s" and v: "v = arr_load (active s) (dq_top s)"
    by (simp_all add: thief_ok_def)
  have t: "?t = thief_goto (s\<lparr> dq_top := dq_top s + 1, dq_taken := dq_taken s @ [v] \<rparr>) i TIdle"
    using pc by (simp add: steal_step_def)
  have eb: "ebot ?t = ebot s" unfolding t
    by (simp add: ebot_def thief_goto_def cong: owner_pc.case_cong)
  have "dq_abs s = arr_load (active s) (dq_top s)
      # map (arr_load (active s)) [dq_top s + 1..ebot s - 1]"
    unfolding dq_abs_def using lt by (intro upto_Cons) simp
  moreover have "dq_abs ?t = map (arr_load (active s)) [dq_top s + 1..ebot s - 1]"
    unfolding dq_abs_def eb by (simp add: t)
  ultimately have "takes_top s ?t v" by (simp add: takes_top_def t v)
  with pc show ?thesis by blast
qed

lemma publish_effect:
  assumes inv: "deque_inv s" and pc: "dq_owner s = OPublish b v"
  shows "pushes s (s\<lparr> dq_bottom := b + 1, dq_owner := OIdle, dq_pushed := dq_pushed s @ [v] \<rparr>) v"
    (is "pushes s ?t v")
proof -
  from inv pc have b: "b = dq_bottom s" "arr_load (active s) b = v" and o: "buffers_ok s"
    by (auto simp: deque_inv_def owner_ok_def)
  have eb: "ebot s = b" "ebot ?t = b + 1" using pc b by (simp_all add: ebot_def)
  have "dq_top s \<le> b" using o eb by (simp add: buffers_ok_def)
  then have "dq_abs ?t = dq_abs s @ [v]"
    using upto_snoc [of "dq_top s" "b - 1" "arr_load (active s)"] b(2) eb
    by (simp add: dq_abs_def)
  then show ?thesis by (simp add: pushes_def)
qed

lemma pop_step_effect:
  assumes inv: "deque_inv s" and pc: "dq_owner s = OPopTop b"
  shows "unchanged s (pop_step s b) \<or> (\<exists>v. takes_bottom s (pop_step s b) v)"
proof -
  from inv pc have b: "b = dq_bottom s" and o: "buffers_ok s"
    by (auto simp: deque_inv_def owner_ok_def)
  have eb: "ebot s = b + 1" using pc by (simp add: ebot_def)
  show ?thesis
  proof (cases "dq_top s < b")
    case False
    have "unchanged s (s\<lparr> dq_owner := OPopRestore b None \<rparr>)"
      "unchanged s (s\<lparr> dq_owner := OPopCas b (arr_load (active s) b) \<rparr>)"
      using eb by (auto intro!: owner_goto_unchanged simp: ebot_def)
    then show ?thesis using False by (auto simp: pop_step_def Let_def)
  next
    case True
    let ?v = "arr_load (active s) b"
    have t: "pop_step s b = s\<lparr> dq_owner := OIdle, dq_taken := dq_taken s @ [?v] \<rparr>"
      using True by (simp add: pop_step_def Let_def)
    have "ebot (pop_step s b) = b" unfolding t using b by (simp add: ebot_def)
    then have "dq_abs s = dq_abs (pop_step s b) @ [?v]"
      using upto_snoc [of "dq_top s" "b - 1" "arr_load (active s)"] True eb
      by (simp add: dq_abs_def) (simp add: t)
    then have "takes_bottom s (pop_step s b) ?v" by (simp add: takes_bottom_def t)
    then show ?thesis by blast
  qed
qed

lemma pop_cas_effect:
  assumes inv: "deque_inv s" and pc: "dq_owner s = OPopCas b v"
  shows "unchanged s (pop_cas_step s b v) \<or> takes_bottom s (pop_cas_step s b v) v"
proof -
  from inv pc have b: "b = dq_bottom s" "b \<le> dq_top s" "arr_load (active s) b = v"
    and o: "buffers_ok s" by (auto simp: deque_inv_def owner_ok_def)
  have eb: "ebot s = b + 1" using pc by (simp add: ebot_def)
  show ?thesis
  proof (cases "dq_top s = b")
    case False
    have "unchanged s (s\<lparr> dq_owner := OPopRestore b None \<rparr>)"
      using eb by (intro owner_goto_unchanged) (simp add: ebot_def)
    then show ?thesis using False by (simp add: pop_cas_step_def)
  next
    case True
    have "dq_abs s = [v]" using True b(3) by (simp add: dq_abs_def eb)
    moreover have "dq_abs (pop_cas_step s b v) = []"
      using True by (simp add: dq_abs_def pop_cas_step_def ebot_def)
    ultimately show ?thesis using True by (simp add: takes_bottom_def pop_cas_step_def)
  qed
qed

lemma owner_step_effect:
  assumes inv: "deque_inv s" and st: "owner_step s = Some t"
  shows "unchanged s t \<or> (\<exists>v. pushes s t v) \<or> (\<exists>v. takes_bottom s t v)"
proof (cases "dq_owner s")
  case OIdle
  then show ?thesis using st by (simp add: owner_step_def)
next
  case (OPushTop v)
  have "ebot s = dq_bottom s" using OPushTop by (simp add: ebot_def)
  then have "unchanged s (push_step s v)"
    using inv by (auto simp: push_step_def Let_def grow_buffer_unchanged ebot_def
      intro!: owner_goto_unchanged)
  then show ?thesis using st OPushTop by (simp add: owner_step_def)
next
  case (OReserveTop needed)
  have "ebot s = dq_bottom s" using OReserveTop by (simp add: ebot_def)
  then have "unchanged s (reserveOwner_step s needed)"
    using inv by (auto simp: reserveOwner_step_def grow_buffer_unchanged ebot_def
      intro!: owner_goto_unchanged)
  then show ?thesis using st OReserveTop by (simp add: owner_step_def)
next
  case (OPublishArray a b k)
  with inv have "b = dq_bottom s"
    "\<And>j. dq_top s \<le> j \<Longrightarrow> j < b \<Longrightarrow> arr_load (dq_heap s ! a) j = arr_load (active s) j"
    by (auto simp: deque_inv_def owner_ok_def)
  then have "dq_abs t = dq_abs s"
    using st OPublishArray by (intro dq_abs_same) (auto simp: owner_step_def ebot_def)
  then show ?thesis using st OPublishArray by (auto simp: owner_step_def unchanged_def)
next
  case (ORetire old b k)
  with inv have "b = dq_bottom s" "old \<noteq> dq_array s" by (auto simp: deque_inv_def owner_ok_def)
  then have "dq_abs t = dq_abs s"
    using st ORetire by (intro dq_abs_same) (auto simp: owner_step_def ebot_def split: option.splits)
  then show ?thesis using st ORetire by (auto simp: owner_step_def unchanged_def)
next
  case (OStore b v)
  with inv have b: "b = dq_bottom s" and rm: "room s (dq_capacity s) (Some v)"
    and o: "buffers_ok s" by (auto simp: deque_inv_def owner_ok_def)
  have wf: "arr_wf (active s)" using inv by (rule inv_active)
  have a: "dq_array s < length (dq_heap s)" using o by (simp add: buffers_ok_def)
  have "arr_load (arr_store (active s) b v) j = arr_load (active s) j"
    if "dq_top s \<le> j" "j < b" for j
    using that rm b by (intro arr_load_other [OF wf]) (simp_all add: room_def dq_capacity_def)
  then have "dq_abs t = dq_abs s"
    using st OStore a b by (intro dq_abs_same) (auto simp: owner_step_def ebot_def)
  then show ?thesis using st OStore by (auto simp: owner_step_def unchanged_def)
next
  case (OPublish b v)
  then show ?thesis using st publish_effect [OF inv] by (auto simp: owner_step_def)
next
  case (OPopTop b)
  then show ?thesis using st pop_step_effect [OF inv] by (auto simp: owner_step_def)
next
  case (OPopCas b v)
  then show ?thesis using st pop_cas_effect [OF inv] by (auto simp: owner_step_def)
next
  case (OPopRestore b r)
  then have "dq_abs t = dq_abs s"
    using st by (intro dq_abs_same) (auto simp: owner_step_def ebot_def)
  then show ?thesis using st OPopRestore by (auto simp: owner_step_def unchanged_def)
qed

lemma owner_call_effect:
  assumes "owner_call s c = Some t"
  shows "unchanged s t"
proof -
  from assms have pc: "dq_owner s = OIdle" by (auto simp: owner_call_def split: if_splits)
  then have "dq_abs t = dq_abs s"
    using assms by (cases c; intro dq_abs_same) (auto simp: owner_call_def ebot_def)
  then show ?thesis using assms pc by (cases c) (auto simp: owner_call_def unchanged_def)
qed

section \<open>The properties of the deque\<close>

definition deque_start :: "'a deque \<Rightarrow> bool" where
  "deque_start s \<longleftrightarrow> (\<exists>d c. s = newDeque d c)"

lemma newDeque_capacity:
  obtains m where "max (unat (roundUpPow2 (if 0 < c then c else of_nat kInitialCapacity)))
    kInitialCapacity = 2 ^ m"
proof -
  let ?c = "if 0 < c then c else of_nat kInitialCapacity :: u64"
  have k: "kInitialCapacity = 2 ^ 6" by (simp add: kInitialCapacity_def)
  then have kex: "\<exists>m. kInitialCapacity = 2 ^ m" by blast
  have pow: "(\<exists>m. unat (roundUpPow2 ?c) = 2 ^ m) \<or> unat (roundUpPow2 ?c) \<le> 2 ^ 6"
  proof (cases "1 < unat ?c \<and> unat ?c \<le> 2 ^ 63")
    case True
    then show ?thesis using roundUpPow2_unat [of ?c] by blast
  next
    case False
    show ?thesis
    proof (cases "unat ?c \<le> 1")
      case True
      then have "?c \<le> 1" by (simp add: word_le_nat_alt)
      then show ?thesis by (simp add: roundUpPow2_def)
    next
      case gt: False
      then have "2 ^ 63 < unat ?c" using False by auto
      then show ?thesis using roundUpPow2_big by simp
    qed
  qed
  have "\<exists>m. max (unat (roundUpPow2 ?c)) kInitialCapacity = 2 ^ m"
    using pow kex unfolding k [symmetric] by (auto simp: max_def)
  then show ?thesis using that by blast
qed

lemma newDeque_inv: "deque_inv (newDeque d c)"
proof -
  obtain m where m: "max (unat (roundUpPow2 (if 0 < c then c else of_nat kInitialCapacity)))
    kInitialCapacity = 2 ^ m" by (rule newDeque_capacity)
  have "1 \<le> (2 :: int) ^ m" by simp
  then show ?thesis
    using allocateArray_wf [of d m]
    by (simp add: newDeque_def Let_def m deque_inv_defs) (simp add: allocateArray_def)
qed

interpretation chase_lev: step_invariant deque_step deque_start deque_inv
  by unfold_locales (auto simp: deque_start_def newDeque_inv intro: deque_step_inv)

text \<open>
  C10. The lock-free deque refines a sequential double-ended queue: every atomic step of every
  reachable state leaves the logical content alone, appends a pushed value at the bottom, removes
  the value a \<open>pop\<close> returns from the bottom, or removes the value a \<open>steal\<close> returns from the top.
\<close>

theorem deque_refines:
  assumes "deque_start s0" and "run deque_step s0 as = Some s" and "deque_step s a = Some t"
  shows "unchanged s t
    \<or> (a = OwnerStep \<and> (\<exists>v. pushes s t v))
    \<or> (a = OwnerStep \<and> (\<exists>v. takes_bottom s t v))
    \<or> (\<exists>i v. a = ThiefStep i \<and> takes_top s t v)"
proof -
  have inv: "deque_inv s" using assms(1,2) by (rule chase_lev.run_inv)
  show ?thesis
  proof (cases a)
    case (OwnerCall c)
    then show ?thesis using owner_call_effect [of s c t] assms(3) by simp
  next
    case OwnerStep
    then show ?thesis using owner_step_effect [OF inv, of t] assms(3) by simp
  next
    case (ThiefStep i)
    then show ?thesis using steal_step_effect [OF inv, of i] assms(3) by auto
  qed
qed

lemma conservation_step:
  assumes "deque_inv s" "deque_step s a = Some t"
    and "mset (dq_pushed s) = mset (dq_taken s) + mset (dq_abs s)"
  shows "mset (dq_pushed t) = mset (dq_taken t) + mset (dq_abs t)"
proof -
  have "unchanged s t \<or> (\<exists>v. pushes s t v) \<or> (\<exists>v. takes_bottom s t v) \<or> (\<exists>v. takes_top s t v)"
  proof (cases a)
    case (OwnerCall c)
    then show ?thesis using owner_call_effect [of s c t] assms(2) by simp
  next
    case OwnerStep
    then show ?thesis using owner_step_effect [OF assms(1), of t] assms(2) by auto
  next
    case (ThiefStep i)
    then show ?thesis using steal_step_effect [OF assms(1), of i] assms(2) by auto
  qed
  then show ?thesis using assms(3) by (auto simp: effect_defs)
qed

lemma conservation_run:
  "deque_inv s \<Longrightarrow> run deque_step s as = Some t \<Longrightarrow>
    mset (dq_pushed s) = mset (dq_taken s) + mset (dq_abs s) \<Longrightarrow>
    mset (dq_pushed t) = mset (dq_taken t) + mset (dq_abs t)"
proof (induction as arbitrary: s)
  case (Cons a as)
  from Cons.prems(2) obtain u where "deque_step s a = Some u" "run deque_step u as = Some t"
    by (rule run_ConsE)
  then show ?case
    using Cons.IH [of u] Cons.prems(1,3) deque_step_inv conservation_step by blast
qed simp

text \<open>
  C11. No task is lost or run twice: in every reachable state, the values pushed are, as a
  multiset, the values some \<open>pop\<close> or \<open>steal\<close> has returned together with the values still held.
\<close>

theorem deque_conservation:
  assumes "deque_start s0" and "run deque_step s0 as = Some s"
  shows "mset (dq_pushed s) = mset (dq_taken s) + mset (dq_abs s)"
proof -
  have inv: "deque_inv s0" using assms(1) by (rule chase_lev.init_inv)
  from assms(1) have eq: "mset (dq_pushed s0) = mset (dq_taken s0) + mset (dq_abs s0)"
    by (auto simp: deque_start_def newDeque_def Let_def dq_abs_def ebot_def)
  show ?thesis using inv assms(2) eq by (rule conservation_run)
qed

text \<open>
  C12. Truthful answers: when no operation of the owner is under way and thief \<open>i\<close> runs alone, a
  \<open>steal\<close> on a non-empty deque takes the top value in five steps, and on an empty one returns
  after two steps with nothing taken; a \<open>pop\<close> that is about to return empty-handed finds the
  deque empty.
\<close>

theorem deque_answers:
  assumes "deque_start s0" and "run deque_step s0 as = Some s"
  shows "(dq_owner s = OIdle \<and> dq_thieves s i = TIdle \<longrightarrow>
      (case dq_abs s of
        [] \<Rightarrow> \<exists>t. run deque_step s [ThiefStep i, ThiefStep i] = Some t \<and>
                dq_thieves t i = TIdle \<and> unchanged s t
      | v # vs \<Rightarrow> \<exists>t. run deque_step s (replicate 5 (ThiefStep i)) = Some t \<and>
                dq_thieves t i = TIdle \<and> takes_top s t v))
    \<and> (dq_owner s = OPopRestore b None \<longrightarrow> dq_abs s = [])"
proof
  have inv: "deque_inv s" using assms by (rule chase_lev.run_inv)
  show "dq_owner s = OPopRestore b None \<longrightarrow> dq_abs s = []"
    using inv by (auto simp: deque_inv_def owner_ok_def dq_abs_def ebot_def)
  show "dq_owner s = OIdle \<and> dq_thieves s i = TIdle \<longrightarrow>
      (case dq_abs s of
        [] \<Rightarrow> \<exists>t. run deque_step s [ThiefStep i, ThiefStep i] = Some t \<and>
                dq_thieves t i = TIdle \<and> unchanged s t
      | v # vs \<Rightarrow> \<exists>t. run deque_step s (replicate 5 (ThiefStep i)) = Some t \<and>
                dq_thieves t i = TIdle \<and> takes_top s t v)"
  proof
    assume idle: "dq_owner s = OIdle \<and> dq_thieves s i = TIdle"
    then have eb: "ebot s = dq_bottom s" by (simp add: ebot_def)
    show "case dq_abs s of
        [] \<Rightarrow> \<exists>t. run deque_step s [ThiefStep i, ThiefStep i] = Some t \<and>
                dq_thieves t i = TIdle \<and> unchanged s t
      | v # vs \<Rightarrow> \<exists>t. run deque_step s (replicate 5 (ThiefStep i)) = Some t \<and>
                dq_thieves t i = TIdle \<and> takes_top s t v"
    proof (cases "dq_abs s")
      case Nil
      then have "dq_bottom s \<le> dq_top s" by (auto simp: dq_abs_def eb)
      then have "run deque_step s [ThiefStep i, ThiefStep i]
          = Some (thief_goto (thief_goto s i (TBottom (dq_top s))) i TIdle)"
        using idle by (simp add: steal_step_def)
      moreover have "unchanged s (thief_goto (thief_goto s i (TBottom (dq_top s))) i TIdle)"
        unfolding unchanged_def by (intro conjI dq_abs_same) simp_all
      ultimately show ?thesis using Nil by simp
    next
      case (Cons v vs)
      have lt: "dq_top s < dq_bottom s"
      proof (rule ccontr)
        assume "\<not> dq_top s < dq_bottom s"
        then have "dq_abs s = []" by (simp add: dq_abs_def eb)
        with Cons show False by simp
      qed
      then have abs: "dq_abs s = arr_load (active s) (dq_top s)
          # map (arr_load (active s)) [dq_top s + 1..dq_bottom s - 1]"
        unfolding dq_abs_def eb by (intro upto_Cons) simp
      have five: "replicate 5 (ThiefStep i) = [ThiefStep i, ThiefStep i, ThiefStep i, ThiefStep i,
          ThiefStep i]" by (simp add: eval_nat_numeral)
      have "\<exists>t. run deque_step s (replicate 5 (ThiefStep i)) = Some t \<and>
          dq_thieves t i = TIdle \<and> dq_top t = dq_top s + 1 \<and> active t = active s \<and>
          dq_owner t = OIdle \<and> dq_bottom t = dq_bottom s \<and> dq_pushed t = dq_pushed s \<and>
          dq_taken t = dq_taken s @ [arr_load (active s) (dq_top s)]"
        unfolding five using idle lt by (simp add: steal_step_def thief_goto_def)
      then obtain t where t: "run deque_step s (replicate 5 (ThiefStep i)) = Some t"
        "dq_thieves t i = TIdle" "dq_top t = dq_top s + 1" "active t = active s"
        "dq_owner t = OIdle" "dq_bottom t = dq_bottom s" "dq_pushed t = dq_pushed s"
        "dq_taken t = dq_taken s @ [arr_load (active s) (dq_top s)]" by blast
      then have "dq_abs t = map (arr_load (active s)) [dq_top s + 1..dq_bottom s - 1]"
        by (simp add: dq_abs_def ebot_def)
      then have "takes_top s t v" using abs Cons t by (simp add: takes_top_def)
      then show ?thesis using t Cons by auto
    qed
  qed
qed

definition example_deque :: "nat deque" where
  "example_deque = newDeque 0 64"

definition example_deque_sched :: "nat dq_act list" where
  "example_deque_sched = OwnerCall (CallPush 5) # replicate 3 OwnerStep
     @ OwnerCall (CallPush 6) # replicate 3 OwnerStep"

lemma example_deque_start: "deque_start example_deque"
  by (auto simp: deque_start_def example_deque_def)

lemma example_deque_runs:
  "\<exists>s. run deque_step example_deque example_deque_sched = Some s \<and> dq_pushed s = [5, 6] \<and>
    dq_owner s = OIdle \<and> dq_thieves s 0 = TIdle \<and> dq_abs s = [5, 6]"
proof -
  have cap: "max (unat (roundUpPow2 64)) kInitialCapacity = 64"
    by (simp add: roundUpPow2_def smear_def kInitialCapacity_def)
  have abs: "[0..1] = [0, 1 :: int]" by (simp add: upto_rec1)
  show ?thesis
    by (simp add: example_deque_sched_def example_deque_def newDeque_def Let_def cap
        numeral_3_eq_3 owner_call_def owner_step_def push_step_def dq_abs_def ebot_def
        allocateArray_def arr_load_def arr_store_def arr_index_def abs)
qed

theorem deque_refines_witness:
  "\<exists>s t. run deque_step example_deque example_deque_sched = Some s \<and>
    deque_step s (ThiefStep 0) = Some t \<and>
    (unchanged s t \<or> (\<exists>i v. ThiefStep 0 = (ThiefStep i :: nat dq_act) \<and> takes_top s t v))"
proof -
  from example_deque_runs obtain s where
    s: "run deque_step example_deque example_deque_sched = Some s" by (elim exE conjE)
  have "deque_step s (ThiefStep 0) = Some (steal_step s 0)" by simp
  from s this deque_refines [OF example_deque_start s this] show ?thesis by auto
qed

theorem deque_conservation_witness:
  "\<exists>s. run deque_step example_deque example_deque_sched = Some s \<and>
    mset [5, 6] = mset (dq_taken s) + mset (dq_abs s)"
proof -
  from example_deque_runs obtain s where
    s: "run deque_step example_deque example_deque_sched = Some s" "dq_pushed s = [5, 6]"
    by (elim exE conjE)
  from deque_conservation [OF example_deque_start s(1)] s show ?thesis
    by (intro exI [of _ s]) simp
qed

theorem deque_answers_witness:
  "\<exists>s t. run deque_step example_deque example_deque_sched = Some s \<and>
    run deque_step s (replicate 5 (ThiefStep 0)) = Some t \<and> takes_top s t 5"
proof -
  from example_deque_runs obtain s where
    s: "run deque_step example_deque example_deque_sched = Some s" "dq_owner s = OIdle"
      "dq_thieves s 0 = TIdle" "dq_abs s = [5, 6]" by (elim exE conjE)
  from deque_answers [OF example_deque_start s(1), of 0] s(2-4)
  obtain t where "run deque_step s (replicate 5 (ThiefStep 0)) = Some t" "takes_top s t 5"
    by auto
  with s(1) show ?thesis by blast
qed

end
