(* ===== verification/Mailbox.thy ===== *)
theory Mailbox
  imports Job
begin

text \<open>
  The rendezvous between the producer and one background worker: the mailbox word and its flag
  bits (\<open>pool_control.h\<close>), the worker's loop (\<open>worker_loop.h\<close>), and the publish, cold-collapse
  and join code of \<open>dispatchOneStaticLockedBody\<close> (\<open>thread_pool.h\<close>). The slots of a pool share no
  location of this protocol but the descriptor, so one slot and its worker are modelled against
  the producer's sequence of dispatches.

  A step is one atomic operation of one side; a spin or futex wait is a step that is enabled
  once its condition holds.
\<close>

section \<open>The mailbox word\<close>

definition kShutdownBit :: u64 where "kShutdownBit = 1"
definition kDoneBit :: u64 where "kDoneBit = push_bit 1 1"
definition kReuseBit :: u64 where "kReuseBit = push_bit 2 1"
definition kSkipClaimBit :: u64 where "kSkipClaimBit = push_bit 3 1"
definition kAckedBit :: u64 where "kAckedBit = push_bit 4 1"
definition kPhaseShift :: nat where "kPhaseShift = 5"
definition kPhaseStep :: u64 where "kPhaseStep = push_bit 5 1"

lemmas mailbox_bit_defs = kShutdownBit_def kDoneBit_def kReuseBit_def kSkipClaimBit_def
  kAckedBit_def kPhaseShift_def kPhaseStep_def

text \<open>The word published for a generation, as \<open>publishedMb\<close> is computed.\<close>

definition publishedMb_word :: "u64 \<Rightarrow> bool \<Rightarrow> bool \<Rightarrow> u64" where
  "publishedMb_word nextGen reuseSafe skipColdCollapse =
     nextGen OR (if reuseSafe then kReuseBit else 0)
       OR (if skipColdCollapse then kSkipClaimBit else 0)"

text \<open>What the worker takes from the word: the packed rank flags and the generation.\<close>

definition packed_flags :: "u64 \<Rightarrow> u32" where
  "packed_flags mailbox = ucast (push_bit 29 (mailbox AND kReuseBit)
     OR push_bit 27 (mailbox AND kSkipClaimBit))"

definition word_generation :: "u64 \<Rightarrow> u64" where
  "word_generation mailbox = mailbox AND NOT (kPhaseStep - 1)"

definition kReuseFlag :: u32 where "kReuseFlag = 0x80000000"
definition kSkipClaimFlag :: u32 where "kSkipClaimFlag = 0x40000000"

text \<open>\<open>typedWorkerEntry\<close> unpacks the rank it is given.\<close>

definition unpack_reuse :: "u32 \<Rightarrow> bool" where
  "unpack_reuse rankPacked = (rankPacked AND kReuseFlag \<noteq> 0)"

definition unpack_skipClaim :: "u32 \<Rightarrow> bool" where
  "unpack_skipClaim rankPacked = (rankPacked AND kSkipClaimFlag \<noteq> 0)"

definition unpack_rank :: "u32 \<Rightarrow> u32" where
  "unpack_rank rankPacked = rankPacked AND NOT (kReuseFlag OR kSkipClaimFlag)"

lemma bit_push_one: "bit (push_bit k (1 :: 'a::len word)) n \<longleftrightarrow> n = k \<and> k < LENGTH('a)"
  by (auto simp: bit_exp_iff)

lemma mailbox_bits:
  "bit kDoneBit n = (n = 1)" "bit kReuseBit n = (n = 2)" "bit kSkipClaimBit n = (n = 3)"
  "bit kAckedBit n = (n = 4)"
  unfolding mailbox_bit_defs bit_push_one by simp_all

lemma phase_mask_bits: "bit (kPhaseStep - 1) n = (n < 5)"
proof -
  have "kPhaseStep - 1 = mask 5" unfolding kPhaseStep_def by (simp add: mask_eq_exp_minus_1)
  moreover have "bit (mask 5 :: u64) n = (n < 64 \<and> n < 5)" by (simp add: bit_mask_iff)
  ultimately show ?thesis by auto
qed

lemma flag_bits:
  "bit kReuseFlag n = (n = 31)" "bit kSkipClaimFlag n = (n = 30)"
proof -
  have f: "kReuseFlag = push_bit 31 1" "kSkipClaimFlag = push_bit 30 1"
    by (simp_all add: kReuseFlag_def kSkipClaimFlag_def)
  show "bit kReuseFlag n = (n = 31)" "bit kSkipClaimFlag n = (n = 30)"
    unfolding f bit_push_one by simp_all
qed

lemma publishedMb_bits:
  assumes "\<And>n. n < 5 \<Longrightarrow> \<not> bit g n"
  shows "bit (publishedMb_word g reuse skip) n
    \<longleftrightarrow> bit g n \<or> reuse \<and> n = 2 \<or> skip \<and> n = 3"
  using assms by (auto simp: publishedMb_word_def bit_simps mailbox_bits)

lemma and_bit_nonzero:
  "bit m k \<Longrightarrow> (\<And>n. bit m n \<Longrightarrow> n = k) \<Longrightarrow> (x AND m \<noteq> 0) = bit x k" for x m :: "'a::len word"
proof -
  assume m: "bit m k" "\<And>n. bit m n \<Longrightarrow> n = k"
  have "bit m n \<longleftrightarrow> n = k" for n using m by blast
  then have b: "bit (x AND m) n \<longleftrightarrow> n = k \<and> bit x k" for n
    by (auto simp: bit_and_iff)
  show ?thesis
  proof
    assume nz: "x AND m \<noteq> 0"
    show "bit x k"
    proof (rule ccontr)
      assume "\<not> bit x k"
      then have "x AND m = 0" by (intro bit_word_eqI) (simp add: b)
      with nz show False by simp
    qed
  next
    assume "bit x k"
    with b have "bit (x AND m) k" by blast
    then show "x AND m \<noteq> 0" by auto
  qed
qed

lemma packed_flags_bits:
  "bit (packed_flags mb) n \<longleftrightarrow> n = 31 \<and> bit mb 2 \<or> n = 30 \<and> bit mb 3"
  by (auto simp: packed_flags_def bit_simps mailbox_bits)

text \<open>
  The packing of the rank is lossless: for a generation whose flag bits are clear and a rank
  below \<open>2 ^ 30\<close>, the worker's entry unpacks from the published word exactly the producer's reuse
  and skip decisions, its own rank and the generation.
\<close>

theorem mailbox_roundtrip:
  assumes "\<And>n. n < 5 \<Longrightarrow> \<not> bit g n" and "unat rank < 2 ^ 30"
  shows "unpack_reuse (rank OR packed_flags (publishedMb_word g reuse skip)) = reuse \<and>
    unpack_skipClaim (rank OR packed_flags (publishedMb_word g reuse skip)) = skip \<and>
    unpack_rank (rank OR packed_flags (publishedMb_word g reuse skip)) = rank \<and>
    word_generation (publishedMb_word g reuse skip) = g"
proof -
  let ?mb = "publishedMb_word g reuse skip"
  have high: "\<not> bit rank n" if "30 \<le> n" for n
  proof -
    have "unat rank < 2 ^ n" using assms(2) that
      by (meson less_le_trans one_le_numeral power_increasing)
    then have "\<not> bit (unat rank) n" by (simp add: bit_iff_odd)
    then show ?thesis by (simp add: bit_unsigned_iff)
  qed
  have mb: "bit ?mb 2 = reuse" "bit ?mb 3 = skip"
    using assms(1) [of 2] assms(1) [of 3] by (simp_all add: publishedMb_bits [OF assms(1)])
  have packed: "bit (rank OR packed_flags ?mb) n
      \<longleftrightarrow> bit rank n \<or> n = 31 \<and> reuse \<or> n = 30 \<and> skip" for n
    by (auto simp: bit_simps packed_flags_bits mb)
  have "unpack_reuse (rank OR packed_flags ?mb) = bit (rank OR packed_flags ?mb) 31"
    unfolding unpack_reuse_def by (rule and_bit_nonzero) (simp_all add: flag_bits)
  moreover have "unpack_skipClaim (rank OR packed_flags ?mb) = bit (rank OR packed_flags ?mb) 30"
    unfolding unpack_skipClaim_def by (rule and_bit_nonzero) (simp_all add: flag_bits)
  moreover have "unpack_rank (rank OR packed_flags ?mb) = rank"
  proof (rule bit_word_eqI)
    fix n assume "n < LENGTH(32)"
    then show "bit (unpack_rank (rank OR packed_flags ?mb)) n = bit rank n"
      using high [of 30] high [of 31]
      by (auto simp: unpack_rank_def bit_simps flag_bits packed_flags_bits mb)
  qed
  moreover have "word_generation ?mb = g"
  proof (rule bit_word_eqI)
    fix n assume "n < LENGTH(64)"
    then show "bit (word_generation ?mb) n = bit g n"
      using assms(1) [of n]
      by (auto simp: word_generation_def bit_simps phase_mask_bits publishedMb_bits [OF assms(1)])
  qed
  ultimately show ?thesis using packed high by auto
qed

theorem mailbox_roundtrip_witness:
  "unpack_rank (7 OR packed_flags (publishedMb_word 96 True False)) = 7 \<and>
    unpack_reuse (7 OR packed_flags (publishedMb_word 96 True False))"
proof -
  have "\<not> bit (96 :: u64) n" if "n < 5" for n
  proof -
    have "(96 :: u64) = push_bit 5 3" by simp
    then have "bit (96 :: u64) n \<Longrightarrow> 5 \<le> n" by (simp only: bit_push_bit_iff)
    then show ?thesis using that by auto
  qed
  from mailbox_roundtrip [OF this, of 7 True False] show ?thesis by simp
qed

section \<open>The rendezvous of one slot\<close>

text \<open>The word by its fields; \<open>mb_gen\<close> is the phase counter, the generation over \<open>kPhaseStep\<close>.\<close>

record mailbox =
  mb_gen :: nat
  mb_done :: bool
  mb_reuse :: bool
  mb_skip :: bool
  mb_acked :: bool

text \<open>
  The bits compared by \<open>kSeenPhaseMask\<close>, and the word without \<open>kAckedBit\<close> as the join reads it.
\<close>

definition mb_phase :: "mailbox \<Rightarrow> mailbox" where
  "mb_phase m = m\<lparr> mb_done := False, mb_acked := False \<rparr>"

definition mb_unacked :: "mailbox \<Rightarrow> mailbox" where
  "mb_unacked m = m\<lparr> mb_acked := False \<rparr>"

text \<open>
  A dispatch as the producer asks for it: whether the descriptor carries \<open>workerStateBase\<close>, the
  producer's reuse hint (its key matched), and whether the shape or the low-latency scope asks to
  skip the claim.
\<close>

record request =
  rq_cap :: bool
  rq_reuse :: bool
  rq_skip :: bool

datatype prod_pc =
    PIdle | PDrain | PPublish | PProbe | PClaim | PSteal | PStampCas | PWait

datatype work_pc =
    WIdle | WRead | WClaim | WRun | WStampCas | WAck | WStampStore

text \<open>
  The command of a dispatch (body and range in the descriptor) is named by the generation that
  published it. \<open>wk_cap\<close>, \<open>wk_cmd\<close> are the worker's cached descriptor facts and typed-entry
  parameters. \<open>sl_cmds\<close> and \<open>sl_runs\<close> are histories: the command of every generation, and who ran
  the rank's blocks for which generation with which command (\<open>True\<close>: the worker).
\<close>

record slot =
  sl_mailbox :: mailbox
  sl_claimedAt :: nat
  sl_gen :: nat
  sl_coldMask :: bool
  sl_descCap :: bool
  sl_cmd :: nat
  sl_todo :: "request list"
  sl_req :: request
  sl_pub :: mailbox
  sl_prod :: prod_pc
  sl_work :: work_pc
  wk_mailbox :: mailbox
  wk_lastSeen :: mailbox
  wk_cached :: bool
  wk_cap :: bool
  wk_cmd :: nat
  sl_cmds :: "nat list"
  sl_runs :: "(nat \<times> nat \<times> bool) list"

datatype slot_act = Producer | Worker

subsection \<open>The producer\<close>

definition publishedMb :: "slot \<Rightarrow> mailbox" where
  "publishedMb s = \<lparr> mb_gen = Suc (sl_gen s), mb_done = False, mb_reuse = rq_reuse (sl_req s),
     mb_skip = rq_skip (sl_req s), mb_acked = False \<rparr>"

definition doneSentinel :: "slot \<Rightarrow> mailbox" where
  "doneSentinel s = (sl_pub s)\<lparr> mb_done := True \<rparr>"

text \<open>
  The decisions at the top of \<open>dispatchOneStaticLockedBody\<close>: a reuse hint counts only when the
  workers' caches were primed by this descriptor (some earlier publish, same \<open>workerStateBase\<close>);
  the claim is skipped only for a descriptor that has one.
\<close>

definition begin_dispatch :: "slot \<Rightarrow> request \<Rightarrow> request list \<Rightarrow> slot" where
  "begin_dispatch s r rs = s\<lparr> sl_todo := rs, sl_prod := PDrain,
     sl_req := r\<lparr> rq_reuse := (rq_reuse r \<and> 0 < sl_gen s \<and> sl_descCap s = rq_cap r),
                  rq_skip := (rq_skip r \<and> rq_cap r) \<rparr> \<rparr>"

text \<open>\<open>tryClaimRank\<close> on the slot's \<open>claimedAt\<close>: a compare-exchange loop that wins or sees it taken.\<close>

definition tryClaimRank :: "slot \<Rightarrow> nat \<Rightarrow> bool \<times> slot" where
  "tryClaimRank s currentGen =
     (if sl_claimedAt s < currentGen then (True, s\<lparr> sl_claimedAt := currentGen \<rparr>) else (False, s))"

definition log_run :: "slot \<Rightarrow> nat \<Rightarrow> nat \<Rightarrow> bool \<Rightarrow> slot" where
  "log_run s g cmd byWorker = s\<lparr> sl_runs := sl_runs s @ [(g, cmd, byWorker)] \<rparr>"

text \<open>
  The drain of cold-stamped acknowledgements, the publish, and the join loop of the slot: probe,
  claim, run the rank's blocks, stamp for the worker, or wait.
\<close>

definition drain_acks_step :: "slot \<Rightarrow> slot option" where
  "drain_acks_step s = (if sl_coldMask s \<and> \<not> mb_acked (sl_mailbox s) then None
     else Some (s\<lparr> sl_coldMask := False, sl_prod := PPublish \<rparr>))"

definition publish_step :: "slot \<Rightarrow> slot option" where
  "publish_step s = (let r = sl_req s; g = Suc (sl_gen s); c = (if rq_reuse r then sl_cmd s else g)
     in Some (s\<lparr> sl_gen := g, sl_mailbox := publishedMb s, sl_pub := publishedMb s,
          sl_descCap := rq_cap r, sl_cmd := c, sl_cmds := sl_cmds s @ [c], sl_prod := PProbe \<rparr>))"

definition join_probe_step :: "slot \<Rightarrow> slot option" where
  "join_probe_step s =
     (if mb_unacked (sl_mailbox s) = doneSentinel s then Some (s\<lparr> sl_prod := PIdle \<rparr>)
      else if sl_descCap s \<and> \<not> mb_skip (sl_pub s) then Some (s\<lparr> sl_prod := PClaim \<rparr>)
      else Some (s\<lparr> sl_prod := PWait \<rparr>))"

definition cold_claim_step :: "slot \<Rightarrow> slot option" where
  "cold_claim_step s = (case tryClaimRank s (sl_gen s) of
       (True, s') \<Rightarrow> Some (s'\<lparr> sl_prod := PSteal \<rparr>)
     | (False, s') \<Rightarrow> Some (s'\<lparr> sl_prod := PWait \<rparr>))"

definition cold_run_step :: "slot \<Rightarrow> slot option" where
  "cold_run_step s = Some ((log_run s (sl_gen s) (sl_cmd s) False)\<lparr> sl_prod := PStampCas \<rparr>)"

definition cold_stamp_step :: "slot \<Rightarrow> slot option" where
  "cold_stamp_step s = (if sl_mailbox s = sl_pub s
     then Some (s\<lparr> sl_mailbox := doneSentinel s, sl_prod := PIdle,
                   sl_coldMask := (sl_coldMask s \<or> \<not> mb_reuse (sl_pub s)) \<rparr>)
     else Some (s\<lparr> sl_prod := PIdle \<rparr>))"

definition join_wait_step :: "slot \<Rightarrow> slot option" where
  "join_wait_step s = (if mb_unacked (sl_mailbox s) = doneSentinel s
     then Some (s\<lparr> sl_prod := PIdle \<rparr>) else None)"

definition producer_step :: "slot \<Rightarrow> slot option" where
  "producer_step s = (case sl_prod s of
       PIdle \<Rightarrow> (case sl_todo s of [] \<Rightarrow> None | r # rs \<Rightarrow> Some (begin_dispatch s r rs))
     | PDrain \<Rightarrow> drain_acks_step s
     | PPublish \<Rightarrow> publish_step s
     | PProbe \<Rightarrow> join_probe_step s
     | PClaim \<Rightarrow> cold_claim_step s
     | PSteal \<Rightarrow> cold_run_step s
     | PStampCas \<Rightarrow> cold_stamp_step s
     | PWait \<Rightarrow> join_wait_step s)"

lemmas producer_defs = producer_step_def drain_acks_step_def publish_step_def join_probe_step_def
  cold_claim_step_def cold_run_step_def cold_stamp_step_def join_wait_step_def

subsection \<open>The worker\<close>

text \<open>
  The descriptor facts and the typed entry's parameters are read again unless the dispatch is a
  reuse and a descriptor is cached.
\<close>

definition read_desc :: "slot \<Rightarrow> slot" where
  "read_desc s = (if mb_reuse (wk_mailbox s) \<and> wk_cached s then s
     else s\<lparr> wk_cached := True, wk_cap := sl_descCap s, wk_cmd := sl_cmd s \<rparr>)"

definition worker_step :: "slot \<Rightarrow> slot option" where
  "worker_step s = (case sl_work s of
       WIdle \<Rightarrow> if mb_phase (sl_mailbox s) = mb_phase (wk_lastSeen s) then None
         else Some (s\<lparr> wk_mailbox := sl_mailbox s, sl_work := WRead \<rparr>)
     | WRead \<Rightarrow> let s' = read_desc s
         in Some (s'\<lparr> sl_work := (if wk_cap s' \<and> \<not> mb_skip (wk_mailbox s') then WClaim else WRun) \<rparr>)
     | WClaim \<Rightarrow> (case tryClaimRank s (mb_gen (wk_mailbox s)) of
           (True, s') \<Rightarrow> Some (s'\<lparr> sl_work := WRun \<rparr>)
         | (False, s') \<Rightarrow> Some (s'\<lparr> sl_work := WStampCas \<rparr>))
     | WRun \<Rightarrow> Some ((log_run s (mb_gen (wk_mailbox s)) (wk_cmd s) True)
           \<lparr> sl_work := (if wk_cap s \<and> \<not> mb_skip (wk_mailbox s) then WStampCas else WStampStore) \<rparr>)
     | WStampCas \<Rightarrow>
         let doneAcked = (wk_mailbox s)\<lparr> mb_done := True, mb_acked := True \<rparr>
         in if sl_mailbox s = wk_mailbox s
            then Some (s\<lparr> sl_mailbox := doneAcked, wk_lastSeen := doneAcked, sl_work := WIdle \<rparr>)
            else Some (s\<lparr> sl_work := WAck \<rparr>)
     | WAck \<Rightarrow>
         Some (s\<lparr> sl_mailbox := (sl_mailbox s)\<lparr> mb_acked := True \<rparr>,
                  wk_lastSeen := (wk_mailbox s)\<lparr> mb_done := True, mb_acked := True \<rparr>,
                  sl_work := WIdle \<rparr>)
     | WStampStore \<Rightarrow>
         let doneVal = (wk_mailbox s)\<lparr> mb_done := True \<rparr>
         in Some (s\<lparr> sl_mailbox := doneVal, wk_lastSeen := doneVal, sl_work := WIdle \<rparr>))"

fun slot_step :: "slot \<Rightarrow> slot_act \<Rightarrow> slot option" where
  "slot_step s Producer = producer_step s"
| "slot_step s Worker = worker_step s"

definition zero_mailbox :: mailbox where
  "zero_mailbox = \<lparr> mb_gen = 0, mb_done = False, mb_reuse = False, mb_skip = False,
     mb_acked = False \<rparr>"

definition slot_start :: "request list \<Rightarrow> slot" where
  "slot_start rs = \<lparr> sl_mailbox = zero_mailbox, sl_claimedAt = 0, sl_gen = 0, sl_coldMask = False,
     sl_descCap = False, sl_cmd = 0, sl_todo = rs,
     sl_req = \<lparr> rq_cap = False, rq_reuse = False, rq_skip = False \<rparr>, sl_pub = zero_mailbox,
     sl_prod = PIdle, sl_work = WIdle, wk_mailbox = zero_mailbox, wk_lastSeen = zero_mailbox,
     wk_cached = False, wk_cap = False, wk_cmd = 0, sl_cmds = [], sl_runs = [] \<rparr>"

definition slot_final :: "slot \<Rightarrow> bool" where
  "slot_final s \<longleftrightarrow> sl_prod s = PIdle \<and> sl_todo s = []"

end
