(* ===== verification/Rendezvous.thy ===== *)
theory Rendezvous
  imports Mailbox
begin

text \<open>
  The mailbox rendezvous of \<open>Mailbox\<close> is exactly-once and cannot deadlock, as long as no dispatch
  is both claimable and published with the reuse bit; and a schedule in which it fails when one is.
  The invariant says what the mailbox word, the run history and the claim stamp are worth in terms
  of the two program counters; each step of the producer and of the worker keeps it.
\<close>

section \<open>The invariant\<close>

lemma mailbox_eq_iff: "m = m' \<longleftrightarrow> mb_gen m = mb_gen m' \<and> mb_done m = mb_done m' \<and>
    mb_reuse m = mb_reuse m' \<and> mb_skip m = mb_skip m' \<and> mb_acked m = mb_acked m'"
  for m m' :: mailbox
  by (cases m; cases m') auto

lemma mb_phase_eq_iff: "mb_phase m = mb_phase m' \<longleftrightarrow>
    mb_gen m = mb_gen m' \<and> mb_reuse m = mb_reuse m' \<and> mb_skip m = mb_skip m'"
  by (auto simp: mb_phase_def mailbox_eq_iff)

lemma mb_unacked_done_iff: "mb_unacked m = doneSentinel s \<longleftrightarrow>
    mb_gen m = mb_gen (sl_pub s) \<and> mb_reuse m = mb_reuse (sl_pub s) \<and>
    mb_skip m = mb_skip (sl_pub s) \<and> mb_acked (sl_pub s) = False \<and> mb_done m"
  by (auto simp: mb_unacked_def doneSentinel_def mailbox_eq_iff)

definition good_request :: "request \<Rightarrow> bool" where
  "good_request r \<longleftrightarrow> (rq_reuse r \<and> rq_cap r \<longrightarrow> rq_skip r)"

definition slot_ran :: "slot \<Rightarrow> bool" where
  "slot_ran s \<longleftrightarrow> length (sl_runs s) = sl_gen s"

definition slot_cold :: "slot \<Rightarrow> bool" where
  "slot_cold s \<longleftrightarrow> sl_descCap s \<and> \<not> mb_skip (sl_pub s)"

definition slot_quiet :: "slot \<Rightarrow> bool" where
  "slot_quiet s \<longleftrightarrow> sl_work s = WIdle \<and> mb_phase (wk_lastSeen s) = mb_phase (sl_pub s)"

definition slot_closed :: "slot \<Rightarrow> bool" where
  "slot_closed s \<longleftrightarrow> sl_prod s \<in> {PIdle, PDrain, PPublish}"

definition wk_current :: "slot \<Rightarrow> bool" where
  "wk_current s \<longleftrightarrow> wk_cached s \<and> wk_cap s = sl_descCap s \<and> wk_cmd s = sl_cmd s"

definition numbered :: "'a list \<Rightarrow> (nat \<times> 'a) list" where
  "numbered cs = zip [1..<Suc (length cs)] cs"

lemma length_numbered [simp]: "length (numbered cs) = length cs"
  by (simp add: numbered_def del: upt_Suc)

lemma numbered_append [simp]: "numbered (cs @ [c]) = numbered cs @ [(Suc (length cs), c)]"
proof -
  have "[1..<Suc (length (cs @ [c]))] = [1..<Suc (length cs)] @ [Suc (length cs)]" by simp
  then show ?thesis unfolding numbered_def by (simp del: upt_Suc)
qed

lemma nth_numbered: "i < length cs \<Longrightarrow> numbered cs ! i = (Suc i, cs ! i)"
  by (simp add: numbered_def del: upt_Suc)

definition runs_inv :: "slot \<Rightarrow> bool" where
  "runs_inv s \<longleftrightarrow> length (sl_cmds s) = sl_gen s \<and>
     length (sl_runs s) \<le> sl_gen s \<and> sl_gen s \<le> Suc (length (sl_runs s)) \<and>
     (0 < sl_gen s \<longrightarrow> last (sl_cmds s) = sl_cmd s) \<and>
     map (\<lambda>(g, c, w). (g, c)) (sl_runs s)
       = take (length (sl_runs s)) (numbered (sl_cmds s))"

text \<open>
  What the word, the history and the claim stamp are worth, as functions of the two program
  counters.
\<close>

definition word_inv :: "slot \<Rightarrow> bool" where
  "word_inv s \<longleftrightarrow> mb_gen (sl_pub s) = sl_gen s \<and> \<not> mb_done (sl_pub s) \<and> \<not> mb_acked (sl_pub s) \<and>
     mb_phase (sl_mailbox s) = mb_phase (sl_pub s) \<and>
     mb_done (sl_mailbox s) = (0 < sl_gen s \<and> (slot_quiet s \<or> slot_cold s \<and> slot_closed s)) \<and>
     mb_acked (sl_mailbox s) = (0 < sl_gen s \<and> slot_quiet s \<and> slot_cold s)"

definition ran_inv :: "slot \<Rightarrow> bool" where
  "ran_inv s \<longleftrightarrow> slot_ran s = (slot_closed s \<or> sl_prod s = PStampCas \<or>
     sl_prod s \<noteq> PSteal \<and> (slot_quiet s \<or> sl_work s \<in> {WStampCas, WAck, WStampStore}))"

definition claim_inv :: "slot \<Rightarrow> bool" where
  "claim_inv s \<longleftrightarrow> sl_claimedAt s \<le> sl_gen s \<and>
     (slot_cold s \<longrightarrow> (sl_claimedAt s = sl_gen s) =
        (slot_closed s \<or> sl_prod s \<in> {PSteal, PStampCas, PWait} \<or> slot_quiet s \<or>
         sl_work s \<in> {WRun, WStampCas, WAck}))"

definition pc_inv :: "slot \<Rightarrow> bool" where
  "pc_inv s \<longleftrightarrow> 
     (sl_work s = WRun \<longrightarrow> sl_prod s \<in> {PProbe, PClaim, PWait}) \<and>
     (sl_prod s = PWait \<and> slot_cold s \<longrightarrow> slot_quiet s \<or> sl_work s \<in> {WRun, WStampCas}) \<and>
     (sl_prod s \<in> {PClaim, PSteal, PStampCas} \<or> sl_work s \<in> {WClaim, WStampCas, WAck} \<longrightarrow> slot_cold s) \<and>
     (sl_work s = WStampStore \<longrightarrow> \<not> slot_cold s) \<and>
     (sl_work s = WAck \<longrightarrow> slot_closed s) \<and>
     (sl_gen s = 0 \<longrightarrow> slot_quiet s \<and> slot_closed s) \<and>
     (sl_coldMask s \<longrightarrow> 0 < sl_gen s \<and> slot_cold s \<and> slot_closed s) \<and>
     (slot_closed s \<longrightarrow> slot_quiet s \<or> sl_coldMask s) \<and>
     (sl_prod s = PPublish \<longrightarrow> \<not> sl_coldMask s)"

definition work_inv :: "slot \<Rightarrow> bool" where
  "work_inv s \<longleftrightarrow>
     (sl_work s \<noteq> WIdle \<longrightarrow> mb_phase (wk_mailbox s) = mb_phase (sl_pub s) \<and>
        \<not> mb_acked (wk_mailbox s) \<and> (mb_done (wk_mailbox s) \<longrightarrow> slot_closed s)) \<and>
     (0 < sl_gen s \<and> (slot_quiet s \<or> mb_reuse (sl_pub s)) \<or> sl_work s \<notin> {WIdle, WRead}
        \<longrightarrow> wk_current s) \<and>
     (0 < sl_gen s \<and> mb_reuse (sl_pub s) \<longrightarrow> \<not> slot_cold s)"

definition req_inv :: "slot \<Rightarrow> bool" where
  "req_inv s \<longleftrightarrow> (\<forall>r \<in> set (sl_todo s). good_request r) \<and>
     (sl_prod s \<in> {PDrain, PPublish} \<longrightarrow> good_request (sl_req s) \<and>
        (rq_reuse (sl_req s) \<longrightarrow> 0 < sl_gen s \<and> sl_descCap s = rq_cap (sl_req s)))"

definition slot_inv :: "slot \<Rightarrow> bool" where
  "slot_inv s \<longleftrightarrow> runs_inv s \<and> word_inv s \<and> ran_inv s \<and> claim_inv s \<and> pc_inv s \<and>
     work_inv s \<and> req_inv s"

lemmas slot_preds = slot_ran_def slot_cold_def slot_quiet_def slot_closed_def wk_current_def
  mb_phase_eq_iff mb_unacked_done_iff

lemma slot_invI:
  "runs_inv s \<Longrightarrow> word_inv s \<Longrightarrow> ran_inv s \<Longrightarrow> claim_inv s \<Longrightarrow> pc_inv s \<Longrightarrow>
    work_inv s \<Longrightarrow> req_inv s \<Longrightarrow> slot_inv s"
  by (simp add: slot_inv_def)

lemma slot_invD:
  assumes "slot_inv s"
  shows "runs_inv s" "word_inv s" "ran_inv s" "claim_inv s" "pc_inv s" "work_inv s" "req_inv s"
  using assms by (simp_all add: slot_inv_def)

lemma quiet_idle: "slot_quiet s \<Longrightarrow> sl_work s = WIdle"
  by (simp add: slot_quiet_def)

lemma slot_start_inv: "\<forall>r\<in>set rs. good_request r \<Longrightarrow> slot_inv (slot_start rs)"
  by (simp add: slot_inv_def runs_inv_def word_inv_def ran_inv_def claim_inv_def pc_inv_def
    work_inv_def req_inv_def slot_preds slot_start_def zero_mailbox_def)

lemma runs_inv_publish:
  assumes "runs_inv s" "slot_ran s" "sl_cmds t = sl_cmds s @ [c]" "sl_cmd t = c"
    "sl_gen t = Suc (sl_gen s)" "sl_runs t = sl_runs s"
  shows "runs_inv t"
  using assms by (auto simp: runs_inv_def slot_ran_def)

lemma runs_inv_log:
  assumes "runs_inv s" "\<not> slot_ran s" "sl_cmds t = sl_cmds s" "sl_cmd t = sl_cmd s"
    "sl_gen t = sl_gen s" "sl_runs t = sl_runs s @ [(sl_gen s, sl_cmd s, w)]"
  shows "runs_inv t"
proof -
  let ?n = "length (sl_runs s)"
  from assms have n: "sl_gen s = Suc ?n" by (auto simp: runs_inv_def slot_ran_def)
  with assms have "sl_cmds s \<noteq> []" by (auto simp: runs_inv_def)
  with assms n have "sl_cmds s ! ?n = sl_cmd s" by (auto simp: runs_inv_def last_conv_nth)
  with assms n have "take (Suc ?n) (numbered (sl_cmds s))
      = take ?n (numbered (sl_cmds s)) @ [(sl_gen s, sl_cmd s)]"
    by (subst take_Suc_conv_app_nth) (simp_all add: runs_inv_def nth_numbered)
  with assms n show ?thesis by (simp add: runs_inv_def)
qed

lemma runs_inv_cong:
  assumes "runs_inv s" "sl_cmds t = sl_cmds s" "sl_cmd t = sl_cmd s"
    "sl_gen t = sl_gen s" "sl_runs t = sl_runs s"
  shows "runs_inv t"
  using assms by (simp add: runs_inv_def)


lemmas slot_inv_defs = slot_inv_def word_inv_def ran_inv_def claim_inv_def pc_inv_def work_inv_def
  req_inv_def


text \<open>A step that only moves the producer leaves the derived facts of the slot alone.\<close>

lemma producer_moves:
  "slot_ran (sl_prod_update f s) = slot_ran s" "slot_cold (sl_prod_update f s) = slot_cold s"
  "slot_quiet (sl_prod_update f s) = slot_quiet s" "wk_current (sl_prod_update f s) = wk_current s"
  "slot_ran (sl_claimedAt_update h s) = slot_ran s" "slot_cold (sl_claimedAt_update h s) = slot_cold s"
  "slot_quiet (sl_claimedAt_update h s) = slot_quiet s"
  "wk_current (sl_claimedAt_update h s) = wk_current s"
  "slot_ran (sl_coldMask_update k s) = slot_ran s" "slot_cold (sl_coldMask_update k s) = slot_cold s"
  "slot_quiet (sl_coldMask_update k s) = slot_quiet s"
  "wk_current (sl_coldMask_update k s) = wk_current s"
  "slot_ran (sl_mailbox_update l s) = slot_ran s" "slot_cold (sl_mailbox_update l s) = slot_cold s"
  "slot_quiet (sl_mailbox_update l s) = slot_quiet s"
  "wk_current (sl_mailbox_update l s) = wk_current s"
  "slot_ran (sl_req_update m s) = slot_ran s" "slot_cold (sl_req_update m s) = slot_cold s"
  "slot_quiet (sl_req_update m s) = slot_quiet s"
  "wk_current (sl_req_update m s) = wk_current s"
  "slot_ran (sl_todo_update n s) = slot_ran s" "slot_cold (sl_todo_update n s) = slot_cold s"
  "slot_quiet (sl_todo_update n s) = slot_quiet s"
  "wk_current (sl_todo_update n s) = wk_current s"
  by (simp_all add: slot_preds)


lemma PIdle_inv:
  assumes inv: "slot_inv s" and step: "producer_step s = Some t" and pc: "sl_prod s = PIdle"
  shows "slot_inv t"
proof -
  note I = slot_invD [OF inv]
  obtain r rs where todo: "sl_todo s = r # rs" and t: "t = begin_dispatch s r rs"
    using step pc by (auto simp: producer_defs split: list.splits)
  have v: "slot_ran t = slot_ran s" "slot_cold t = slot_cold s" "slot_quiet t = slot_quiet s"
    "wk_current t = wk_current s" "slot_closed t" "slot_closed s"
    by (simp_all add: t begin_dispatch_def slot_preds pc)
  show ?thesis
  proof (intro slot_invI)
    show "runs_inv t" using I(1) by (rule runs_inv_cong) (simp_all add: t begin_dispatch_def)
    show "word_inv t" using I(2) by (simp add: word_inv_def v) (simp add: t begin_dispatch_def)
    show "ran_inv t" using I(3) by (simp add: ran_inv_def v)
    show "claim_inv t" using I(4) by (simp add: claim_inv_def v) (simp add: t begin_dispatch_def)
    show "pc_inv t" using I(5) by (simp add: pc_inv_def v pc) (simp add: t begin_dispatch_def)
    show "work_inv t" using I(6) by (simp add: work_inv_def v) (simp add: t begin_dispatch_def)
    show "req_inv t" using I(7)
      by (simp add: req_inv_def todo) (simp add: t begin_dispatch_def good_request_def)
  qed
qed

text \<open>The other producer steps leave the requests alone; what they have to show is listed once.\<close>

lemma producer_keeps:
  assumes inv: "slot_inv s"
    and frame: "sl_gen t = sl_gen s" "sl_pub t = sl_pub s" "sl_descCap t = sl_descCap s"
      "sl_cmd t = sl_cmd s" "sl_work t = sl_work s" "wk_mailbox t = wk_mailbox s"
      "wk_lastSeen t = wk_lastSeen s" "wk_cached t = wk_cached s" "wk_cap t = wk_cap s"
      "wk_cmd t = wk_cmd s" "sl_todo t = sl_todo s" "sl_req t = sl_req s"
    and "runs_inv t"
    and "mb_phase (sl_mailbox t) = mb_phase (sl_mailbox s)" "mb_acked (sl_mailbox t) = mb_acked (sl_mailbox s)"
    and "mb_done (sl_mailbox t) = (0 < sl_gen s \<and> (slot_quiet s \<or> slot_cold s \<and> slot_closed t))"
    and "ran_inv t" and "claim_inv t" and "pc_inv t"
    and "slot_closed s \<longrightarrow> slot_closed t" and "sl_prod t \<in> {PDrain, PPublish} \<longrightarrow> sl_prod s = PDrain"
  shows "slot_inv t"
proof -
  note I = slot_invD [OF inv]
  have v: "slot_cold t = slot_cold s" "slot_quiet t = slot_quiet s" "wk_current t = wk_current s"
    by (simp_all add: slot_preds frame)
  have "word_inv t" using I(2) assms(15-17) by (simp add: word_inv_def v frame)
  moreover have "work_inv t" using I(6) assms(21) by (auto simp: work_inv_def v frame)
  moreover have "req_inv t" using I(7) assms(22) by (auto simp: req_inv_def frame)
  ultimately show ?thesis using assms(14,18-20) by (intro slot_invI)
qed

lemma PDrain_inv:
  assumes inv: "slot_inv s" and step: "producer_step s = Some t" and pc: "sl_prod s = PDrain"
  shows "slot_inv t"
proof -
  note I = slot_invD [OF inv]
  have g: "\<not> sl_coldMask s \<or> mb_acked (sl_mailbox s)"
    and t: "t = s\<lparr> sl_coldMask := False, sl_prod := PPublish \<rparr>"
    using step pc by (auto simp: producer_defs split: if_splits)
  have v: "slot_ran t = slot_ran s" "slot_cold t = slot_cold s" "slot_quiet t = slot_quiet s"
    "slot_closed t" "slot_closed s"
    by (simp_all add: t slot_preds pc)
  have q: "slot_quiet s" using g I(2,5) v(5) by (auto simp: word_inv_def pc_inv_def)
  show ?thesis
  proof (rule producer_keeps [OF inv])
    show "runs_inv t" using I(1) by (rule runs_inv_cong) (simp_all add: t)
    show "mb_done (sl_mailbox t) = (0 < sl_gen s \<and> (slot_quiet s \<or> slot_cold s \<and> slot_closed t))"
      using I(2) by (simp add: word_inv_def v) (simp add: t)
    show "ran_inv t" using I(3) by (simp add: ran_inv_def v)
    show "claim_inv t" using I(4) by (simp add: claim_inv_def v) (simp add: t)
    show "pc_inv t" using I(5) q by (simp add: pc_inv_def v pc) (simp add: t)
  qed (simp_all add: t pc slot_closed_def)
qed

lemma PLeave_inv:
  assumes inv: "slot_inv s" and pc: "sl_prod s = PProbe \<or> sl_prod s = PWait"
    and "mb_unacked (sl_mailbox s) = doneSentinel s"
  shows "slot_inv (s\<lparr> sl_prod := PIdle \<rparr>)" (is "slot_inv ?t")
proof -
  note I = slot_invD [OF inv]
  have d: "mb_done (sl_mailbox s)" using assms(3) by (simp add: mb_unacked_done_iff)
  have v: "slot_ran ?t = slot_ran s" "slot_cold ?t = slot_cold s" "slot_quiet ?t = slot_quiet s"
    "slot_closed ?t" "\<not> slot_closed s"
    using pc by (auto simp: slot_preds)
  have q: "slot_quiet s" "0 < sl_gen s" using I(2) d v(5) by (simp_all add: word_inv_def)
  have r: "slot_ran s" "slot_cold s \<Longrightarrow> sl_claimedAt s = sl_gen s" "sl_work s = WIdle"
    using I(3,4) pc q(1) by (auto simp: ran_inv_def claim_inv_def quiet_idle)
  show ?thesis
  proof (rule producer_keeps [OF inv])
    show "runs_inv ?t" using I(1) by (rule runs_inv_cong) simp_all
    show "mb_done (sl_mailbox ?t) = (0 < sl_gen s \<and> (slot_quiet s \<or> slot_cold s \<and> slot_closed ?t))"
      using d q by simp
    show "ran_inv ?t" by (simp add: ran_inv_def v r)
    show "claim_inv ?t" using I(4) r by (simp add: claim_inv_def v)
    show "pc_inv ?t" using I(5) q r(3) by (simp add: pc_inv_def v)
  qed (simp_all add: v)
qed

lemma PGo_inv:
  assumes inv: "slot_inv s" and pc: "sl_prod s = PProbe"
    and p: "p = PClaim \<and> slot_cold s \<or> p = PWait \<and> \<not> slot_cold s"
  shows "slot_inv (s\<lparr> sl_prod := p \<rparr>)" (is "slot_inv ?t")
proof -
  note I = slot_invD [OF inv]
  have v: "slot_ran ?t = slot_ran s" "slot_cold ?t = slot_cold s" "slot_quiet ?t = slot_quiet s"
    "\<not> slot_closed ?t" "\<not> slot_closed s"
    using pc p by (auto simp: slot_preds)
  show ?thesis
  proof (rule producer_keeps [OF inv])
    show "runs_inv ?t" using I(1) by (rule runs_inv_cong) simp_all
    show "mb_done (sl_mailbox ?t) = (0 < sl_gen s \<and> (slot_quiet s \<or> slot_cold s \<and> slot_closed ?t))"
      using I(2) by (simp add: word_inv_def v)
    show "ran_inv ?t" using I(3) p by (auto simp: ran_inv_def v pc)
    show "claim_inv ?t" using I(4) p by (auto simp: claim_inv_def v pc)
    show "pc_inv ?t" using I(5) p by (auto simp: pc_inv_def v pc)
  qed (use p v in auto)
qed

lemma PClaim_won_inv:
  assumes inv: "slot_inv s" and pc: "sl_prod s = PClaim" and less: "sl_claimedAt s < sl_gen s"
  shows "slot_inv (s\<lparr> sl_claimedAt := sl_gen s, sl_prod := PSteal \<rparr>)" (is "slot_inv ?t")
proof -
  note I = slot_invD [OF inv]
  have v: "slot_ran ?t = slot_ran s" "slot_cold ?t = slot_cold s" "slot_quiet ?t = slot_quiet s"
    "\<not> slot_closed ?t" "\<not> slot_closed s"
    using pc by (auto simp: slot_preds)
  have cold: "slot_cold s" using I(5) pc by (simp add: pc_inv_def)
  then have free: "\<not> slot_quiet s" "sl_work s \<notin> {WRun, WStampCas, WAck}"
    using I(4) less by (auto simp: claim_inv_def)
  have nr: "\<not> slot_ran s" using I(3,5) free cold pc v(5) by (auto simp: ran_inv_def pc_inv_def)
  show ?thesis
  proof (rule producer_keeps [OF inv])
    show "runs_inv ?t" using I(1) by (rule runs_inv_cong) simp_all
    show "mb_done (sl_mailbox ?t) = (0 < sl_gen s \<and> (slot_quiet s \<or> slot_cold s \<and> slot_closed ?t))"
      using I(2) by (simp add: word_inv_def v)
    show "ran_inv ?t" using nr by (simp add: ran_inv_def v)
    show "claim_inv ?t" by (simp add: claim_inv_def v)
    show "pc_inv ?t" using I(5) free cold by (simp add: pc_inv_def v)
  qed (simp_all add: v)
qed

lemma PClaim_lost_inv:
  assumes inv: "slot_inv s" and pc: "sl_prod s = PClaim" and less: "\<not> sl_claimedAt s < sl_gen s"
  shows "slot_inv (s\<lparr> sl_prod := PWait \<rparr>)" (is "slot_inv ?t")
proof -
  note I = slot_invD [OF inv]
  have v: "slot_ran ?t = slot_ran s" "slot_cold ?t = slot_cold s" "slot_quiet ?t = slot_quiet s"
    "\<not> slot_closed ?t" "\<not> slot_closed s"
    using pc by (auto simp: slot_preds)
  have cold: "slot_cold s" using I(5) pc by (simp add: pc_inv_def)
  have eq: "sl_claimedAt s = sl_gen s" using I(4) less by (simp add: claim_inv_def)
  then have w: "slot_quiet s \<or> sl_work s \<in> {WRun, WStampCas}"
    using I(4,5) cold pc v(5) by (auto simp: claim_inv_def pc_inv_def)
  show ?thesis
  proof (rule producer_keeps [OF inv])
    show "runs_inv ?t" using I(1) by (rule runs_inv_cong) simp_all
    show "mb_done (sl_mailbox ?t) = (0 < sl_gen s \<and> (slot_quiet s \<or> slot_cold s \<and> slot_closed ?t))"
      using I(2) by (simp add: word_inv_def v)
    show "ran_inv ?t" using I(3) by (simp add: ran_inv_def v pc)
    show "claim_inv ?t" using eq by (simp add: claim_inv_def v)
    show "pc_inv ?t" using I(5) w by (auto simp: pc_inv_def v pc)
  qed (simp_all add: v)
qed

lemma PSteal_inv:
  assumes inv: "slot_inv s" and pc: "sl_prod s = PSteal"
  shows "slot_inv ((log_run s (sl_gen s) (sl_cmd s) False)\<lparr> sl_prod := PStampCas \<rparr>)"
    (is "slot_inv ?t")
proof -
  note I = slot_invD [OF inv]
  have nr: "\<not> slot_ran s" using I(3) pc by (simp add: ran_inv_def slot_closed_def)
  have v: "slot_ran ?t" "slot_cold ?t = slot_cold s" "slot_quiet ?t = slot_quiet s"
    "\<not> slot_closed ?t" "\<not> slot_closed s"
    using nr I(1) by (auto simp: runs_inv_def slot_preds log_run_def pc)
  show ?thesis
  proof (rule producer_keeps [OF inv])
    show "runs_inv ?t"
      by (rule runs_inv_log [OF I(1) nr, where w = False]) (simp_all add: log_run_def)
    show "mb_done (sl_mailbox ?t) = (0 < sl_gen s \<and> (slot_quiet s \<or> slot_cold s \<and> slot_closed ?t))"
      using I(2) by (simp add: word_inv_def v) (simp add: log_run_def)
    show "ran_inv ?t" by (simp add: ran_inv_def v) 
    show "claim_inv ?t" using I(4) by (simp add: claim_inv_def v pc) (simp add: log_run_def)
    show "pc_inv ?t" using I(5) by (auto simp: pc_inv_def v pc) (simp_all add: log_run_def)
  qed (simp_all add: v log_run_def)
qed

lemma PStampCas_inv:
  assumes inv: "slot_inv s" and pc: "sl_prod s = PStampCas" and eq: "sl_mailbox s = sl_pub s"
  shows "slot_inv (s\<lparr> sl_mailbox := doneSentinel s, sl_prod := PIdle,
     sl_coldMask := (sl_coldMask s \<or> \<not> mb_reuse (sl_pub s)) \<rparr>)" (is "slot_inv ?t")
proof -
  note I = slot_invD [OF inv]
  have v: "slot_ran ?t = slot_ran s" "slot_cold ?t = slot_cold s" "slot_quiet ?t = slot_quiet s"
    "slot_closed ?t" "\<not> slot_closed s"
    using pc by (auto simp: slot_preds)
  have d: "mb_phase (doneSentinel s) = mb_phase (sl_mailbox s)" "mb_done (doneSentinel s)"
    "mb_acked (doneSentinel s) = mb_acked (sl_mailbox s)"
    by (simp_all add: mb_phase_eq_iff doneSentinel_def eq)
  have cold: "slot_cold s" "0 < sl_gen s" using I(5) pc v(5) by (auto simp: pc_inv_def)
  then have nr: "\<not> mb_reuse (sl_pub s)" using I(6) by (auto simp: work_inv_def)
  show ?thesis
  proof (rule producer_keeps [OF inv])
    show "runs_inv ?t" using I(1) by (rule runs_inv_cong) simp_all
    show "mb_done (sl_mailbox ?t) = (0 < sl_gen s \<and> (slot_quiet s \<or> slot_cold s \<and> slot_closed ?t))"
      using cold v(4) by (simp add: d)
    show "ran_inv ?t" using I(3) by (simp add: ran_inv_def v pc)
    show "claim_inv ?t" using I(4) by (simp add: claim_inv_def v pc)
    show "pc_inv ?t" using I(5) cold nr unfolding pc_inv_def v by (simp add: v(5) pc) (simp add: slot_closed_def)
  qed (simp_all add: v d)
qed

lemma PStampCas_failed_inv:
  assumes inv: "slot_inv s" and pc: "sl_prod s = PStampCas" and neq: "sl_mailbox s \<noteq> sl_pub s"
  shows "slot_inv (s\<lparr> sl_prod := PIdle \<rparr>)" (is "slot_inv ?t")
proof -
  note I = slot_invD [OF inv]
  have v: "slot_ran ?t = slot_ran s" "slot_cold ?t = slot_cold s" "slot_quiet ?t = slot_quiet s"
    "slot_closed ?t" "\<not> slot_closed s"
    using pc by (auto simp: slot_preds)
  have "mb_done (sl_mailbox s) \<or> mb_acked (sl_mailbox s)"
    using neq I(2) unfolding word_inv_def mb_phase_eq_iff unfolding mailbox_eq_iff by blast
  then have q: "slot_quiet s" "0 < sl_gen s" "mb_done (sl_mailbox s)"
    using I(2) v(5) by (auto simp: word_inv_def)
  show ?thesis
  proof (rule producer_keeps [OF inv])
    show "runs_inv ?t" using I(1) by (rule runs_inv_cong) simp_all
    show "mb_done (sl_mailbox ?t) = (0 < sl_gen s \<and> (slot_quiet s \<or> slot_cold s \<and> slot_closed ?t))"
      using q by simp
    show "ran_inv ?t" using I(3) by (simp add: ran_inv_def v pc)
    show "claim_inv ?t" using I(4) by (simp add: claim_inv_def v pc)
    show "pc_inv ?t" using I(5) q by (simp add: pc_inv_def v pc quiet_idle)
  qed (simp_all add: v)
qed

lemma PPublish_inv:
  assumes inv: "slot_inv s" and pc: "sl_prod s = PPublish" and t: "producer_step s = Some t"
  shows "slot_inv t"
proof -
  note I = slot_invD [OF inv]
  have c: "\<not> slot_closed t" "slot_closed s" using pc t
    by (auto simp: slot_closed_def producer_defs Let_def)
  have q: "slot_quiet s" "slot_ran s" "mb_gen (sl_pub s) = sl_gen s" "\<not> sl_coldMask s"
    using I(2,3,5) c(2) pc by (auto simp: ran_inv_def pc_inv_def word_inv_def)
  have f: "sl_gen t = Suc (sl_gen s)" "sl_pub t = publishedMb s" "sl_mailbox t = publishedMb s"
    "sl_prod t = PProbe" "sl_claimedAt t = sl_claimedAt s" "\<not> sl_coldMask t"
    "sl_todo t = sl_todo s" "sl_work t = WIdle" "sl_runs t = sl_runs s"
    "sl_cmds t = sl_cmds s @ [sl_cmd t]"
    using t pc q(1,4) by (auto simp: producer_defs Let_def slot_quiet_def)
  have v: "\<not> slot_ran t" "slot_cold t = (rq_cap (sl_req s) \<and> \<not> rq_skip (sl_req s))" "\<not> slot_quiet t"
    using q t pc by (auto simp: slot_preds producer_defs Let_def publishedMb_def)
  have w: "wk_current t" if "rq_reuse (sl_req s)"
    using that I(6,7) t pc q(1)
    by (auto simp: work_inv_def req_inv_def wk_current_def producer_defs Let_def)
  have r: "rq_reuse (sl_req s) \<longrightarrow> \<not> slot_cold t" "\<forall>x\<in>set (sl_todo s). good_request x"
    using I(7) pc by (auto simp: req_inv_def v good_request_def)
  show ?thesis
  proof (intro slot_invI)
    show "runs_inv t" by (rule runs_inv_publish [OF I(1) q(2)]) (simp_all add: f)
    show "word_inv t" by (simp add: word_inv_def f v c publishedMb_def)
    show "ran_inv t" by (simp add: ran_inv_def v c f)
    show "claim_inv t" using I(4) by (simp add: claim_inv_def v(3) c f)
    show "pc_inv t" by (simp add: pc_inv_def f c)
    show "work_inv t" using w r by (auto simp: work_inv_def f v(3) publishedMb_def)
    show "req_inv t" using r by (simp add: req_inv_def f)
  qed
qed

section \<open>The worker keeps the invariant\<close>

lemma busy_facts:
  assumes inv: "slot_inv s" and pc: "sl_work s \<noteq> WIdle"
  shows "\<not> slot_quiet s" "0 < sl_gen s" "mb_gen (wk_mailbox s) = sl_gen s"
    "mb_skip (wk_mailbox s) = mb_skip (sl_pub s)" "mb_reuse (wk_mailbox s) = mb_reuse (sl_pub s)"
    "mb_phase (sl_mailbox s) = mb_phase (wk_mailbox s)" "\<not> mb_acked (sl_mailbox s)"
    "\<not> mb_acked (wk_mailbox s)" "mb_done (sl_mailbox s) = (slot_cold s \<and> slot_closed s)"
    "mb_done (wk_mailbox s) \<longrightarrow> slot_closed s" "slot_closed s \<longrightarrow> slot_cold s"
proof -
  show q: "\<not> slot_quiet s" using pc by (simp add: slot_quiet_def)
  have g: "0 < sl_gen s" using inv q by (auto simp: slot_inv_def pc_inv_def)
  then show "0 < sl_gen s" .
  have w: "mb_phase (wk_mailbox s) = mb_phase (sl_pub s)" "\<not> mb_acked (wk_mailbox s)"
    "mb_done (wk_mailbox s) \<longrightarrow> slot_closed s"
    using inv pc unfolding slot_inv_def work_inv_def by simp_all
  then show "\<not> mb_acked (wk_mailbox s)" "mb_done (wk_mailbox s) \<longrightarrow> slot_closed s" by simp_all
  have m: "mb_phase (sl_mailbox s) = mb_phase (sl_pub s)" "mb_gen (sl_pub s) = sl_gen s"
    "mb_done (sl_mailbox s) = (slot_cold s \<and> slot_closed s)" "\<not> mb_acked (sl_mailbox s)"
    using inv q g unfolding slot_inv_def word_inv_def by simp_all
  then show "mb_done (sl_mailbox s) = (slot_cold s \<and> slot_closed s)" "\<not> mb_acked (sl_mailbox s)"
    "mb_phase (sl_mailbox s) = mb_phase (wk_mailbox s)"
    using w by simp_all
  show "mb_gen (wk_mailbox s) = sl_gen s" "mb_skip (wk_mailbox s) = mb_skip (sl_pub s)"
    "mb_reuse (wk_mailbox s) = mb_reuse (sl_pub s)"
    using w(1) m(2) by (auto simp: mb_phase_eq_iff)
  show "slot_closed s \<longrightarrow> slot_cold s" using inv q unfolding slot_inv_def pc_inv_def by simp
qed


text \<open>A worker step that does not touch the word keeps the producer's side.\<close>

lemma worker_keeps:
  assumes inv: "slot_inv s"
    and frame: "sl_gen t = sl_gen s" "sl_pub t = sl_pub s" "sl_descCap t = sl_descCap s"
      "sl_mailbox t = sl_mailbox s" "sl_prod t = sl_prod s" "sl_coldMask t = sl_coldMask s"
      "sl_todo t = sl_todo s" "sl_req t = sl_req s"
    and "runs_inv t" and "\<not> slot_quiet s" "\<not> slot_quiet t"
    and "ran_inv t" and "claim_inv t" and "pc_inv t" and "work_inv t"
  shows "slot_inv t"
proof -
  note I = slot_invD [OF inv]
  have v: "slot_cold t = slot_cold s" "slot_closed t = slot_closed s"
    by (simp_all add: slot_preds frame)
  have "word_inv t" using I(2) assms(11,12) by (simp add: word_inv_def v frame)
  moreover have "req_inv t" using I(7) by (simp add: req_inv_def frame)
  ultimately show ?thesis using assms(10,13-16) by (intro slot_invI)
qed

lemma WIdle_inv:
  assumes inv: "slot_inv s" and pc: "sl_work s = WIdle" "mb_phase (sl_mailbox s) \<noteq> mb_phase (wk_lastSeen s)"
  shows "slot_inv (s\<lparr> wk_mailbox := sl_mailbox s, sl_work := WRead \<rparr>)" (is "slot_inv ?t")
proof -
  note I = slot_invD [OF inv]
  have q: "\<not> slot_quiet s" using I(2) pc(2) by (auto simp: word_inv_def slot_quiet_def)
  then have g: "0 < sl_gen s" using I(5) by (auto simp: pc_inv_def)
  have v: "slot_ran ?t = slot_ran s" "slot_cold ?t = slot_cold s" "\<not> slot_quiet ?t"
    "wk_current ?t = wk_current s" "slot_closed ?t = slot_closed s"
    by (simp_all add: slot_preds)
  show ?thesis
  proof (rule worker_keeps [OF inv])
    show "runs_inv ?t" using I(1) by (rule runs_inv_cong) simp_all
    show "ran_inv ?t" using I(3) by (simp add: ran_inv_def v pc q)
    show "claim_inv ?t" using I(4) by (simp add: claim_inv_def v pc q)
    show "pc_inv ?t" using I(5) g by (simp add: pc_inv_def v pc q)
    show "work_inv ?t" using I(2,6) g q by (simp add: work_inv_def word_inv_def v pc)
  qed (simp_all add: v q)
qed

lemma WRead_inv:
  assumes inv: "slot_inv s" and pc: "sl_work s = WRead" and t: "worker_step s = Some t"
  shows "slot_inv t"
proof -
  note I = slot_invD [OF inv]
  have busy: "sl_work s \<noteq> WIdle" using pc by simp
  note b = busy_facts [OF inv busy]
  have cur: "mb_reuse (sl_pub s) \<longrightarrow> wk_current s"
    using I(6) b(2) by (simp add: work_inv_def)
  have v: "slot_ran t = slot_ran s" "slot_cold t = slot_cold s" "\<not> slot_quiet t"
    "wk_current t" "slot_closed t = slot_closed s"
    using t pc cur b(4,5) by (auto simp: slot_preds worker_step_def Let_def read_desc_def split: if_splits)
  have w: "sl_work t = (if slot_cold s then WClaim else WRun)"
    using t pc cur b(4,5) by (auto simp: slot_preds worker_step_def Let_def read_desc_def split: if_splits)
  have f: "sl_gen t = sl_gen s" "sl_pub t = sl_pub s" "sl_mailbox t = sl_mailbox s"
    "sl_prod t = sl_prod s" "sl_claimedAt t = sl_claimedAt s" "sl_coldMask t = sl_coldMask s"
    "sl_todo t = sl_todo s" "sl_req t = sl_req s" "sl_descCap t = sl_descCap s"
    "wk_mailbox t = wk_mailbox s" "sl_cmds t = sl_cmds s" "sl_cmd t = sl_cmd s" "sl_runs t = sl_runs s"
    using t pc by (auto simp: worker_step_def Let_def read_desc_def split: if_splits)
  have p: "\<not> slot_cold s \<Longrightarrow> sl_prod s \<in> {PProbe, PClaim, PWait}"
    using I(5) b(11) by (cases "sl_prod s") (simp_all add: pc_inv_def slot_closed_def)
  show ?thesis
  proof (rule worker_keeps [OF inv])
    show "runs_inv t" using I(1) by (rule runs_inv_cong) (simp_all add: f)
    show "ran_inv t" using I(3) by (simp add: ran_inv_def v pc f w b(1))
    show "claim_inv t" using I(4) by (simp add: claim_inv_def v pc f w b(1))
    show "pc_inv t" using I(5) b(1,2) p by (cases "slot_cold s") (auto simp: pc_inv_def v pc f w)
    show "work_inv t" using I(6) b(1,2) by (simp add: work_inv_def v pc f)
  qed (simp_all add: v f b(1))
qed

lemma WClaim_won_inv:
  assumes inv: "slot_inv s" and pc: "sl_work s = WClaim" and less: "sl_claimedAt s < sl_gen s"
  shows "slot_inv (s\<lparr> sl_claimedAt := sl_gen s, sl_work := WRun \<rparr>)" (is "slot_inv ?t")
proof -
  note I = slot_invD [OF inv]
  have v: "slot_ran ?t = slot_ran s" "slot_cold ?t = slot_cold s" "\<not> slot_quiet ?t" "\<not> slot_quiet s"
    "wk_current ?t = wk_current s" "slot_closed ?t = slot_closed s"
    using pc by (simp_all add: slot_preds)
  have cold: "slot_cold s" using I(5) pc by (simp add: pc_inv_def)
  then have "\<not> slot_closed s" "sl_prod s \<noteq> PSteal" "sl_prod s \<noteq> PStampCas" "sl_prod s \<noteq> PWait"
    using I(4) less by (auto simp: claim_inv_def)
  then have p: "\<not> slot_closed s" "sl_prod s \<in> {PProbe, PClaim}"
    by (cases "sl_prod s"; simp add: slot_closed_def)+
  show ?thesis
  proof (rule worker_keeps [OF inv])
    show "runs_inv ?t" using I(1) by (rule runs_inv_cong) simp_all
    show "ran_inv ?t" using I(3) p by (auto simp: ran_inv_def v pc)
    show "claim_inv ?t" by (simp add: claim_inv_def v)
    show "pc_inv ?t" using I(5) p by (auto simp: pc_inv_def v pc)
    show "work_inv ?t" using I(6) by (simp add: work_inv_def v pc)
  qed (simp_all add: v)
qed

lemma WClaim_lost_inv:
  assumes inv: "slot_inv s" and pc: "sl_work s = WClaim" and less: "\<not> sl_claimedAt s < sl_gen s"
  shows "slot_inv (s\<lparr> sl_work := WStampCas \<rparr>)" (is "slot_inv ?t")
proof -
  note I = slot_invD [OF inv]
  have v: "slot_ran ?t = slot_ran s" "slot_cold ?t = slot_cold s" "\<not> slot_quiet ?t" "\<not> slot_quiet s"
    "wk_current ?t = wk_current s" "slot_closed ?t = slot_closed s"
    using pc by (simp_all add: slot_preds)
  have cold: "slot_cold s" using I(5) pc by (simp add: pc_inv_def)
  have eq: "sl_claimedAt s = sl_gen s" using I(4) less by (simp add: claim_inv_def)
  have nw: "sl_prod s \<noteq> PWait" using I(5) pc cold v(4) by (auto simp: pc_inv_def)
  have p: "slot_closed s \<or> sl_prod s = PSteal \<or> sl_prod s = PStampCas"
    using I(4) eq nw cold pc v(4) by (auto simp: claim_inv_def)
  show ?thesis
  proof (rule worker_keeps [OF inv])
    show "runs_inv ?t" using I(1) by (rule runs_inv_cong) simp_all
    show "ran_inv ?t" using I(3) p by (auto simp: ran_inv_def v pc slot_closed_def)
    show "claim_inv ?t" using eq by (simp add: claim_inv_def v)
    show "pc_inv ?t" using I(5) nw cold by (simp add: pc_inv_def v pc)
    show "work_inv ?t" using I(6) by (simp add: work_inv_def v pc)
  qed (simp_all add: v)
qed

lemma WRun_inv:
  assumes inv: "slot_inv s" and pc: "sl_work s = WRun" and t: "worker_step s = Some t"
  shows "slot_inv t"
proof -
  note I = slot_invD [OF inv]
  have busy: "sl_work s \<noteq> WIdle" using pc by simp
  note b = busy_facts [OF inv busy]
  have cur: "wk_current s" "sl_prod s \<in> {PProbe, PClaim, PWait}"
    using I(5,6) pc by (simp_all add: work_inv_def pc_inv_def)
  then have nr: "\<not> slot_ran s" "\<not> slot_closed s"
    using I(3) pc b(1) by (auto simp: ran_inv_def slot_closed_def)
  have w: "sl_work t = (if slot_cold s then WStampCas else WStampStore)"
    using t pc cur(1) b(4) by (auto simp: worker_step_def slot_cold_def wk_current_def log_run_def)
  have f: "sl_gen t = sl_gen s" "sl_pub t = sl_pub s" "sl_mailbox t = sl_mailbox s"
    "sl_prod t = sl_prod s" "sl_claimedAt t = sl_claimedAt s" "sl_coldMask t = sl_coldMask s"
    "sl_todo t = sl_todo s" "sl_req t = sl_req s" "sl_descCap t = sl_descCap s"
    "wk_mailbox t = wk_mailbox s" "sl_cmds t = sl_cmds s" "sl_cmd t = sl_cmd s"
    "sl_runs t = sl_runs s @ [(sl_gen s, sl_cmd s, True)]" "wk_cached t = wk_cached s"
    "wk_cap t = wk_cap s" "wk_cmd t = wk_cmd s"
    using t pc b(3) cur(1) by (auto simp: worker_step_def log_run_def wk_current_def)
  have v: "slot_ran t" "slot_cold t = slot_cold s" "\<not> slot_quiet t" "wk_current t"
    "slot_closed t = slot_closed s"
    using cur(1) nr I(1) by (auto simp: slot_preds f w runs_inv_def)
  show ?thesis
  proof (rule worker_keeps [OF inv])
    show "runs_inv t" by (rule runs_inv_log [OF I(1) nr(1)]) (simp_all add: f)
    show "ran_inv t" using cur(2) by (auto simp: ran_inv_def v f w)
    show "claim_inv t" using I(4) by (simp add: claim_inv_def v f w pc)
    show "pc_inv t" using I(5) b(1,2) by (simp add: pc_inv_def v f w pc)
    show "work_inv t" using I(6) v(3,4) by (simp add: work_inv_def v f pc)
  qed (simp_all add: v(3) f b(1))
qed

text \<open>The three ways the worker leaves its iteration all end with the generation seen.\<close>

lemma worker_leaves_inv:
  assumes inv: "slot_inv s" and pc: "sl_work s \<in> {WStampCas, WAck, WStampStore}"
    and m: "mb_phase m = mb_phase (sl_pub s)" "mb_done m" "mb_acked m = slot_cold s"
    and last': "mb_phase l = mb_phase (sl_pub s)"
  shows "slot_inv (s\<lparr> sl_mailbox := m, wk_lastSeen := l, sl_work := WIdle \<rparr>)" (is "slot_inv ?t")
proof -
  note I = slot_invD [OF inv]
  have busy: "sl_work s \<noteq> WIdle" using pc by auto
  note b = busy_facts [OF inv busy]
  have v: "slot_ran ?t = slot_ran s" "slot_cold ?t = slot_cold s" "slot_quiet ?t"
    "wk_current ?t = wk_current s" "slot_closed ?t = slot_closed s"
    using last' by (simp_all add: slot_preds)
  show ?thesis
  proof (intro slot_invI)
    show "runs_inv ?t" using I(1) by (rule runs_inv_cong) simp_all
    show "word_inv ?t" using I(2) b(2) m by (simp add: word_inv_def v)
    show "ran_inv ?t" using I(3) pc b(1) by (auto simp: ran_inv_def v)
    show "claim_inv ?t" using I(4,5) pc by (auto simp: claim_inv_def pc_inv_def v)
    show "pc_inv ?t" using I(5) b(2,11) pc by (simp add: pc_inv_def v)
    show "work_inv ?t" using I(6) pc by (auto simp: work_inv_def v)
    show "req_inv ?t" using I(7) by (simp add: req_inv_def)
  qed
qed

lemma WStampCas_inv:
  assumes inv: "slot_inv s" and pc: "sl_work s = WStampCas" and eq: "sl_mailbox s = wk_mailbox s"
  shows "slot_inv (s\<lparr> sl_mailbox := (wk_mailbox s)\<lparr> mb_done := True, mb_acked := True \<rparr>,
    wk_lastSeen := (wk_mailbox s)\<lparr> mb_done := True, mb_acked := True \<rparr>, sl_work := WIdle \<rparr>)"
proof -
  have "sl_work s \<noteq> WIdle" "slot_cold s" using pc inv by (simp_all add: slot_inv_def pc_inv_def)
  note b = busy_facts [OF inv this(1)] and cold = this(2)
  have "mb_phase (wk_mailbox s) = mb_phase (sl_pub s)"
    using inv pc by (simp add: slot_inv_def work_inv_def)
  then show ?thesis using b(8)
    by (intro worker_leaves_inv [OF inv]) (simp_all add: pc cold mb_phase_eq_iff)
qed

lemma WStampCas_failed_inv:
  assumes inv: "slot_inv s" and pc: "sl_work s = WStampCas" and neq: "sl_mailbox s \<noteq> wk_mailbox s"
  shows "slot_inv (s\<lparr> sl_work := WAck \<rparr>)" (is "slot_inv ?t")
proof -
  note I = slot_invD [OF inv]
  have "sl_work s \<noteq> WIdle" "slot_cold s" using pc inv by (simp_all add: slot_inv_def pc_inv_def)
  note b = busy_facts [OF inv this(1)] and cold = this(2)
  have "mb_done (sl_mailbox s) \<or> mb_done (wk_mailbox s)"
    using neq b(6,7,8) unfolding mb_phase_eq_iff unfolding mailbox_eq_iff by blast
  then have cl: "slot_closed s" "sl_prod s \<noteq> PWait" using b by (auto simp: slot_closed_def)
  have v: "slot_ran ?t = slot_ran s" "slot_cold ?t = slot_cold s" "\<not> slot_quiet ?t"
    "wk_current ?t = wk_current s" "slot_closed ?t = slot_closed s"
    using pc by (simp_all add: slot_preds)
  show ?thesis
  proof (rule worker_keeps [OF inv])
    show "runs_inv ?t" using I(1) by (rule runs_inv_cong) simp_all
    show "ran_inv ?t" using I(3) by (simp add: ran_inv_def v pc)
    show "claim_inv ?t" using I(4) by (simp add: claim_inv_def v pc)
    show "pc_inv ?t" using I(5) cl b(1,2) by (auto simp: pc_inv_def v pc cold)
    show "work_inv ?t" using I(6) by (simp add: work_inv_def v pc)
  qed (simp_all add: v b(1))
qed

lemma WAck_inv:
  assumes inv: "slot_inv s" and pc: "sl_work s = WAck"
  shows "slot_inv (s\<lparr> sl_mailbox := (sl_mailbox s)\<lparr> mb_acked := True \<rparr>,
    wk_lastSeen := (wk_mailbox s)\<lparr> mb_done := True, mb_acked := True \<rparr>, sl_work := WIdle \<rparr>)"
proof -
  have "sl_work s \<noteq> WIdle" "slot_cold s" "slot_closed s"
    using pc inv by (simp_all add: slot_inv_def pc_inv_def)
  note b = busy_facts [OF inv this(1)] and cold = this(2,3)
  have "mb_phase (wk_mailbox s) = mb_phase (sl_pub s)" "mb_done (sl_mailbox s)"
    using inv pc b(9) cold by (simp_all add: slot_inv_def work_inv_def)
  then show ?thesis using b(6)
    by (intro worker_leaves_inv [OF inv]) (simp_all add: pc cold(1) mb_phase_eq_iff)
qed

lemma WStampStore_inv:
  assumes inv: "slot_inv s" and pc: "sl_work s = WStampStore"
  shows "slot_inv (s\<lparr> sl_mailbox := (wk_mailbox s)\<lparr> mb_done := True \<rparr>,
    wk_lastSeen := (wk_mailbox s)\<lparr> mb_done := True \<rparr>, sl_work := WIdle \<rparr>)"
proof -
  have "sl_work s \<noteq> WIdle" "\<not> slot_cold s"
    using pc inv by (simp_all add: slot_inv_def pc_inv_def)
  note b = busy_facts [OF inv this(1)] and cold = this(2)
  have "mb_phase (wk_mailbox s) = mb_phase (sl_pub s)"
    using inv pc by (simp add: slot_inv_def work_inv_def)
  then show ?thesis using b(8)
    by (intro worker_leaves_inv [OF inv]) (simp_all add: pc cold mb_phase_eq_iff)
qed

lemma producer_step_inv:
  assumes inv: "slot_inv s" and step: "producer_step s = Some t"
  shows "slot_inv t"
proof (cases "sl_prod s")
  case PIdle then show ?thesis by (rule PIdle_inv [OF inv step])
next
  case PDrain then show ?thesis by (rule PDrain_inv [OF inv step])
next
  case PPublish then show ?thesis by (rule PPublish_inv [OF inv _ step])
next
  case PProbe with step show ?thesis
    using PLeave_inv [OF inv] PGo_inv [OF inv]
    by (auto simp: producer_defs slot_cold_def split: if_splits)
next
  case PClaim with step show ?thesis
    using PClaim_won_inv [OF inv] PClaim_lost_inv [OF inv]
    by (auto simp: producer_defs tryClaimRank_def split: if_splits)
next
  case PSteal with step show ?thesis
    using PSteal_inv [OF inv] by (auto simp: producer_defs)
next
  case PStampCas with step show ?thesis
    using PStampCas_inv [OF inv] PStampCas_failed_inv [OF inv]
    by (auto simp: producer_defs split: if_splits)
next
  case PWait with step show ?thesis
    using PLeave_inv [OF inv] by (auto simp: producer_defs split: if_splits)
qed

lemma worker_step_inv:
  assumes inv: "slot_inv s" and step: "worker_step s = Some t"
  shows "slot_inv t"
proof (cases "sl_work s")
  case WIdle with step show ?thesis
    using WIdle_inv [OF inv] by (auto simp: worker_step_def split: if_splits)
next
  case WRead then show ?thesis by (rule WRead_inv [OF inv _ step])
next
  case WClaim
  then have "mb_gen (wk_mailbox s) = sl_gen s" by (intro busy_facts [OF inv]) simp
  with WClaim step show ?thesis
    using WClaim_won_inv [OF inv] WClaim_lost_inv [OF inv]
    by (auto simp: worker_step_def tryClaimRank_def split: if_splits)
next
  case WRun then show ?thesis by (rule WRun_inv [OF inv _ step])
next
  case WStampCas with step show ?thesis
    using WStampCas_inv [OF inv] WStampCas_failed_inv [OF inv]
    by (auto simp: worker_step_def Let_def split: if_splits)
next
  case WAck with step show ?thesis
    using WAck_inv [OF inv] by (auto simp: worker_step_def)
next
  case WStampStore with step show ?thesis
    using WStampStore_inv [OF inv] by (auto simp: worker_step_def Let_def)
qed

lemma slot_step_inv: "slot_inv s \<Longrightarrow> slot_step s a = Some t \<Longrightarrow> slot_inv t"
  by (cases a) (auto intro: producer_step_inv worker_step_inv)

section \<open>Progress\<close>

definition prod_weight :: "prod_pc \<Rightarrow> nat" where
  "prod_weight p = (case p of PIdle \<Rightarrow> 0 | PDrain \<Rightarrow> 18 | PPublish \<Rightarrow> 17 | PProbe \<Rightarrow> 5 | PClaim \<Rightarrow> 4
     | PSteal \<Rightarrow> 3 | PStampCas \<Rightarrow> 2 | PWait \<Rightarrow> 1)"

definition work_weight :: "slot \<Rightarrow> nat" where
  "work_weight s = (case sl_work s of WIdle \<Rightarrow> if slot_quiet s then 0 else 6 | WRead \<Rightarrow> 5
     | WClaim \<Rightarrow> 4 | WRun \<Rightarrow> 3 | WStampCas \<Rightarrow> 2 | WAck \<Rightarrow> 1 | WStampStore \<Rightarrow> 2)"

definition slot_fuel :: "slot \<Rightarrow> nat" where
  "slot_fuel s = 20 * length (sl_todo s) + prod_weight (sl_prod s) + work_weight s"

lemma producer_fuel:
  assumes inv: "slot_inv s" and step: "producer_step s = Some t"
  shows "slot_fuel t < slot_fuel s"
proof (cases "sl_prod s = PPublish")
  case True
  have "slot_quiet s" using slot_invD(5) [OF inv] True by (auto simp: pc_inv_def slot_closed_def)
  then have "work_weight s = 0" by (simp add: work_weight_def quiet_idle)
  moreover have "work_weight t \<le> 6"
    by (simp add: work_weight_def split: work_pc.splits)
  ultimately show ?thesis using True step
    by (auto simp: slot_fuel_def prod_weight_def producer_defs Let_def)
next
  case False
  then have w: "work_weight t = work_weight s"
    using step by (auto simp: work_weight_def slot_quiet_def producer_defs begin_dispatch_def
      tryClaimRank_def log_run_def Let_def split: prod_pc.splits list.splits if_splits)
  show ?thesis unfolding slot_fuel_def w using False step
    by (auto simp: prod_weight_def producer_defs begin_dispatch_def
      tryClaimRank_def log_run_def Let_def split: prod_pc.splits list.splits if_splits)
qed

lemma worker_fuel:
  assumes inv: "slot_inv s" and step: "worker_step s = Some t"
  shows "slot_fuel t < slot_fuel s"
proof -
  have p: "sl_todo t = sl_todo s" "sl_prod t = sl_prod s" "sl_pub t = sl_pub s"
    using step by (auto simp: worker_step_def read_desc_def tryClaimRank_def log_run_def Let_def
      split: work_pc.splits if_splits)
  have "work_weight t < work_weight s"
  proof (cases "sl_work s = WIdle")
    case True
    then have "\<not> slot_quiet s" using step slot_invD(2) [OF inv]
      by (auto simp: worker_step_def slot_quiet_def word_inv_def)
    then show ?thesis using True step by (auto simp: work_weight_def worker_step_def split: if_splits)
  next
    case False
    then have ph: "mb_phase (wk_mailbox s) = mb_phase (sl_pub s)"
      using slot_invD(6) [OF inv] by (simp add: work_inv_def)
    then have ph': "mb_phase ((wk_mailbox s)\<lparr> mb_done := d, mb_acked := a \<rparr>) = mb_phase (sl_pub s)"
      "mb_phase ((wk_mailbox s)\<lparr> mb_done := d \<rparr>) = mb_phase (sl_pub s)" for d a
      by (simp_all add: mb_phase_def)
    show ?thesis using False step ph'
      by (auto simp: work_weight_def slot_quiet_def worker_step_def read_desc_def tryClaimRank_def
        log_run_def Let_def split: work_pc.splits if_splits)
  qed
  then show ?thesis by (simp add: slot_fuel_def p)
qed

lemma slot_progress:
  assumes inv: "slot_inv s" and live: "\<not> slot_final s"
  shows "\<exists>a t. slot_step s a = Some t"
proof (cases "worker_step s")
  case (Some t)
  then show ?thesis by (intro exI [of _ Worker] exI [of _ t]) simp
next
  case None
  note I = slot_invD [OF inv]
  have "sl_work s = WIdle" "mb_phase (sl_mailbox s) = mb_phase (wk_lastSeen s)"
    using None by (auto simp: worker_step_def Let_def tryClaimRank_def split: work_pc.splits if_splits)
  then have q: "slot_quiet s" using I(2) by (simp add: slot_quiet_def word_inv_def)
  have "producer_step s \<noteq> None"
  proof (cases "sl_prod s")
    case PIdle then show ?thesis using live
      by (auto simp: producer_defs slot_final_def split: list.splits)
  next
    case PDrain then show ?thesis using I(2,5) q
      by (auto simp: producer_defs word_inv_def pc_inv_def)
  next
    case PWait
    then have "0 < sl_gen s" using I(5) by (auto simp: pc_inv_def slot_closed_def)
    then have "mb_unacked (sl_mailbox s) = doneSentinel s"
      using I(2) q by (auto simp: mb_unacked_done_iff word_inv_def mb_phase_eq_iff)
    then show ?thesis using PWait by (simp add: producer_defs)
  qed (auto simp: producer_defs Let_def tryClaimRank_def)
  then obtain t where "producer_step s = Some t" by blast
  then show ?thesis by (intro exI [of _ Producer] exI [of _ t]) simp
qed

definition slot_init :: "slot \<Rightarrow> bool" where
  "slot_init s \<longleftrightarrow> (\<exists>rs. s = slot_start rs \<and> (\<forall>r\<in>set rs. good_request r))"

interpretation rendezvous: terminating_system slot_step slot_init slot_inv slot_final slot_fuel
proof
  show "slot_init s \<Longrightarrow> slot_inv s" for s by (auto simp: slot_init_def slot_start_inv)
  show "slot_inv s \<Longrightarrow> slot_step s a = Some t \<Longrightarrow> slot_inv t" for s a t by (rule slot_step_inv)
  show "slot_inv s \<Longrightarrow> slot_step s a = Some t \<Longrightarrow> slot_fuel t < slot_fuel s" for s a t
    by (cases a) (simp_all add: producer_fuel worker_fuel)
  show "slot_inv s \<Longrightarrow> \<not> slot_final s \<Longrightarrow> \<exists>a t. slot_step s a = Some t" for s
    by (rule slot_progress)
qed

text \<open>Every request taken from the list is published once.\<close>

definition slot_count :: "slot \<Rightarrow> nat" where
  "slot_count s = sl_gen s + length (sl_todo s) + (if sl_prod s \<in> {PDrain, PPublish} then 1 else 0)"

lemma slot_count_step: "slot_step s a = Some t \<Longrightarrow> slot_count t = slot_count s"
  by (cases a) (auto simp: slot_count_def producer_defs worker_step_def begin_dispatch_def
      read_desc_def tryClaimRank_def log_run_def Let_def
      split: prod_pc.splits work_pc.splits list.splits if_splits)

lemma slot_count_run: "run slot_step s as = Some t \<Longrightarrow> slot_count t = slot_count s"
  by (induction as arbitrary: s) (auto split: option.splits dest: slot_count_step)

text \<open>
  C13. The rendezvous is exactly-once: in every interleaving of a producer that publishes the
  requests and the slot's worker, in which no claimable dispatch is published with the reuse bit,
  the bodies run so far are those of the generations in order, each once, with the command that
  generation published, whether worker or producer ran it; between dispatches all of them have
  run, and at the end there is one per request.
\<close>

theorem rendezvous_exactly_once:
  assumes "\<forall>r\<in>set rs. good_request r" and "run slot_step (slot_start rs) as = Some t"
  shows "map (\<lambda>(g, c, w). (g, c)) (sl_runs t) = take (length (sl_runs t)) (numbered (sl_cmds t)) \<and>
    (sl_prod t \<in> {PIdle, PDrain, PPublish} \<longrightarrow> length (sl_runs t) = length (sl_cmds t)) \<and>
    (slot_final t \<longrightarrow> map (\<lambda>(g, c, w). g) (sl_runs t) = [1..<Suc (length rs)])"
proof -
  have "slot_inv t" using assms rendezvous.run_inv [of "slot_start rs" as t]
    by (auto simp: slot_init_def)
  note I = slot_invD [OF this]
  have n: "slot_count t = length rs"
    using slot_count_run [OF assms(2)] by (simp add: slot_count_def slot_start_def)
  have m: "map (\<lambda>(g, c, w). (g, c)) (sl_runs t) = take (length (sl_runs t)) (numbered (sl_cmds t))"
    using I(1) by (simp add: runs_inv_def)
  have c: "sl_prod t \<in> {PIdle, PDrain, PPublish} \<longrightarrow> length (sl_runs t) = length (sl_cmds t)"
    using I(1,3) by (auto simp: runs_inv_def ran_inv_def slot_closed_def slot_ran_def)
  have "map (\<lambda>(g, c, w). g) (sl_runs t) = map fst (map (\<lambda>(g, c, w). (g, c)) (sl_runs t))"
    by (simp add: case_prod_beta)
  also have "\<dots> = take (length (sl_runs t)) [1..<Suc (length (sl_cmds t))]"
    unfolding m numbered_def by (simp add: take_map [symmetric] del: upt_Suc)
  finally have g: "map (\<lambda>(g, c, w). g) (sl_runs t)
      = take (length (sl_runs t)) [1..<Suc (length (sl_cmds t))]" .
  have "map (\<lambda>(g, c, w). g) (sl_runs t) = [1..<Suc (length rs)]" if "slot_final t"
  proof -
    have "length (sl_runs t) = length (sl_cmds t)" "length (sl_cmds t) = length rs"
      using that c n I(1) by (simp_all add: slot_final_def slot_count_def runs_inv_def)
    then show ?thesis using g by (simp del: upt_Suc)
  qed
  with m c show ?thesis by blast
qed

text \<open>
  C14. The rendezvous terminates without deadlock as long as no claimable dispatch is published with the
  reuse bit unless it skips the claim (\<open>good_request\<close>): every run has at most twenty steps per request,
  and every run extends to one in which all dispatches are joined. C15 shows that the condition is
  needed.
\<close>

theorem rendezvous_terminates:
  assumes "\<forall>r\<in>set rs. good_request r" and "run slot_step (slot_start rs) as = Some t"
  shows "length as \<le> 20 * length rs \<and>
    (\<exists>bs u. run slot_step (slot_start rs) (as @ bs) = Some u \<and> slot_final u)"
proof -
  have i: "slot_init (slot_start rs)" using assms(1) by (auto simp: slot_init_def)
  have "slot_fuel (slot_start rs) = 20 * length rs"
    by (simp add: slot_fuel_def slot_start_def prod_weight_def work_weight_def slot_quiet_def)
  then show ?thesis
    using rendezvous.run_bounded [OF i assms(2)] rendezvous.run_completes [OF i assms(2)] by simp
qed

text \<open>One dispatch that the worker runs, and one that the producer steals and the worker acks.\<close>

definition example_requests :: "request list" where
  "example_requests = [\<lparr> rq_cap = True, rq_reuse = False, rq_skip = False \<rparr>,
     \<lparr> rq_cap = True, rq_reuse = False, rq_skip = False \<rparr>]"

definition example_rendezvous :: "slot_act list" where
  "example_rendezvous = replicate 3 Producer @ replicate 5 Worker @ replicate 4 Producer
     @ [Worker, Worker] @ replicate 4 Producer @ replicate 3 Worker"

lemma example_rendezvous_runs:
  "\<exists>t. run slot_step (slot_start example_requests) example_rendezvous = Some t \<and> slot_final t \<and>
     sl_runs t = [(1, 1, True), (2, 2, False)]"
  by (simp add: example_rendezvous_def example_requests_def slot_start_def zero_mailbox_def
    producer_defs worker_step_def begin_dispatch_def publishedMb_def doneSentinel_def
    mb_phase_def mb_unacked_def tryClaimRank_def log_run_def read_desc_def slot_final_def Let_def
    eval_nat_numeral)

theorem rendezvous_exactly_once_witness:
  "\<exists>t. run slot_step (slot_start example_requests) example_rendezvous = Some t \<and>
     map (\<lambda>(g, c, w). g) (sl_runs t) = [1, 2]"
proof -
  obtain t where t: "run slot_step (slot_start example_requests) example_rendezvous = Some t"
    "slot_final t"
    using example_rendezvous_runs by (elim exE conjE)
  have "\<forall>r\<in>set example_requests. good_request r"
    by (simp add: example_requests_def good_request_def)
  from rendezvous_exactly_once [OF this t(1)] t(2)
  have "map (\<lambda>(g, c, w). g) (sl_runs t) = [1, 2]"
    by (simp add: example_requests_def upt_rec)
  with t(1) show ?thesis by (intro exI conjI)
qed

theorem rendezvous_terminates_witness:
  "length example_rendezvous \<le> 20 * length example_requests"
proof -
  obtain t where t: "run slot_step (slot_start example_requests) example_rendezvous = Some t"
    using example_rendezvous_runs by (elim exE conjE)
  have "\<forall>r\<in>set example_requests. good_request r"
    by (simp add: example_requests_def good_request_def)
  from rendezvous_terminates [OF this t] show ?thesis by (elim conjE)
qed

text \<open>
  Without the condition on the requests: a claimable dispatch, the same again as a reuse, another
  claimable one, and one without a claim (no \<open>workerStateBase\<close>). The producer steals generations
  2 and 3; the worker's late ack of generation 2 falls on the word of generation 3, so that the
  producer's stamp of generation 3 fails and its slot is never waited for.
\<close>

definition stale_ack_requests :: "request list" where
  "stale_ack_requests = [\<lparr> rq_cap = True, rq_reuse = False, rq_skip = False \<rparr>,
     \<lparr> rq_cap = True, rq_reuse = True, rq_skip = False \<rparr>,
     \<lparr> rq_cap = True, rq_reuse = False, rq_skip = False \<rparr>,
     \<lparr> rq_cap = False, rq_reuse = False, rq_skip = False \<rparr>]"

definition stale_ack_schedule :: "slot_act list" where
  "stale_ack_schedule = replicate 3 Producer @ replicate 5 Worker @ replicate 4 Producer
     @ [Worker, Worker] @ replicate 4 Producer @ [Worker, Worker] @ replicate 3 Producer
     @ [Worker, Producer, Producer, Worker] @ replicate 5 Producer @ replicate 3 Worker @ [Producer]"

text \<open>
  C15. A stale acknowledgement breaks the rendezvous of a claimable reuse dispatch: there is a
  sequence of four dispatches and an interleaving after which the worker has run the rank's
  blocks for generation 3 a second time, with the command of generation 4, has overwritten the
  mailbox of generation 4, and both the producer's join and the worker wait forever.
\<close>

theorem rendezvous_stale_ack:
  "\<exists>t. run slot_step (slot_start stale_ack_requests) stale_ack_schedule = Some t \<and>
     sl_runs t = [(1, 1, True), (2, 1, False), (3, 3, False), (3, 4, True)] \<and>
     sl_prod t = PWait \<and> producer_step t = None \<and> worker_step t = None"
  by (simp add: stale_ack_schedule_def stale_ack_requests_def slot_start_def zero_mailbox_def
    producer_defs worker_step_def begin_dispatch_def publishedMb_def doneSentinel_def
    mb_phase_def mb_unacked_def tryClaimRank_def log_run_def read_desc_def Let_def eval_nat_numeral)

end
