(* ===== verification/ProbeBlob.thy ===== *)
theory ProbeBlob
  imports Prelude "HOL-Library.Monad_Syntax"
begin

text \<open>
  The coherence probe as data (\<open>coherence_probe.h\<close>), its binary blob and the process-wide cache:
  \<open>serializeCoherenceProbe\<close>, the bounds-checked reader, \<open>deserializeCoherenceProbe\<close>, and
  \<open>exportCoherenceProbe\<close>/\<open>importCoherenceProbe\<close> over the cache. A codec is an encoder and a decoder
  with two laws; the vector and matrix codecs are built from their element's.
\<close>

section \<open>The probe\<close>

type_synonym byte = "8 word"

text \<open>A \<open>double\<close> of the blob is its 64-bit pattern; \<open>'f\<close> is the type of the latencies.\<close>

record 'f LatencyMatrix =
  lm_cpus :: "u32 list"
  lm_matrix :: "'f list list"
  lm_valid :: bool

record 'f ClusterResult =
  cr_clusterIdOfCpuIndex :: "u32 list"
  cr_numClusters :: u32
  cr_clusterDistanceNs :: "'f list list"

record 'f CoherenceProbe =
  cp_valid :: bool
  cp_matrix :: "'f LatencyMatrix"
  cp_clusters :: "'f ClusterResult"
  cp_maxCrossOverIntraRatio :: 'f

section \<open>Scalars\<close>

text \<open>
  \<open>memcpy\<close> of a scalar in the machine's byte order: least significant byte first, or reversed on
  a big-endian machine.
\<close>

fun value_bytes :: "nat \<Rightarrow> nat \<Rightarrow> byte list" where
  "value_bytes 0 x = []"
| "value_bytes (Suc w) x = word_of_nat (x mod 256) # value_bytes w (x div 256)"

fun bytes_value :: "byte list \<Rightarrow> nat" where
  "bytes_value [] = 0"
| "bytes_value (b # bs) = unat b + 256 * bytes_value bs"

lemma length_value_bytes [simp]: "length (value_bytes w x) = w"
  by (induction w arbitrary: x) simp_all

lemma bytes_value_bytes: "bytes_value (value_bytes w x) = x mod 256 ^ w"
proof (induction w arbitrary: x)
  case (Suc w)
  have "unat (word_of_nat (x mod 256) :: byte) = x mod 256"
    by (simp add: unat_of_nat)
  then show ?case using Suc [of "x div 256"]
    by (simp add: mod_mult2_eq mult.commute)
qed simp

lemma bytes_value_less: "bytes_value bs < 256 ^ length bs"
proof (induction bs)
  case (Cons b bs)
  have "unat b < 256" using unsigned_less [of b] by simp
  then have "unat b + 256 * bytes_value bs < 256 * (bytes_value bs + 1)" by simp
  also have "\<dots> \<le> 256 * 256 ^ length bs" using Cons by (intro mult_le_mono2) simp
  finally show ?case by simp
qed simp

definition native :: "bool \<Rightarrow> byte list \<Rightarrow> byte list" where
  "native bigEndian bs = (if bigEndian then rev bs else bs)"

lemma native_native [simp]: "native e (native e bs) = bs"
  by (simp add: native_def)

lemma length_native [simp]: "length (native e bs) = length bs"
  by (simp add: native_def)

text \<open>
  \<open>readPod\<close>: a short read fails. A failure makes every caller return false at once, so the
  latched \<open>ok\<close> of the reader is the \<open>None\<close> of the option and the remaining bytes are the rest.
\<close>

definition readPod :: "bool \<Rightarrow> nat \<Rightarrow> byte list \<Rightarrow> (nat \<times> byte list) option" where
  "readPod e width cur = (if length cur < width then None
     else Some (bytes_value (native e (take width cur)), drop width cur))"

definition coherenceProbeWritePod :: "bool \<Rightarrow> nat \<Rightarrow> nat \<Rightarrow> byte list" where
  "coherenceProbeWritePod e width x = native e (value_bytes width x)"

section \<open>Codecs\<close>

locale codec =
  fixes ok :: "'a \<Rightarrow> bool" and enc :: "'a \<Rightarrow> byte list"
    and dec :: "byte list \<Rightarrow> ('a \<times> byte list) option"
  assumes dec_enc: "ok x \<Longrightarrow> dec (enc x @ rest) = Some (x, rest)"
    and dec_local: "dec bs = Some (x, rest) \<Longrightarrow> dec (bs @ extra) = Some (x, rest @ extra)"
    and dec_shrinks: "dec bs = Some (x, rest) \<Longrightarrow> length rest \<le> length bs"
begin

text \<open>A truncated encoding is not decoded.\<close>

lemma dec_truncated:
  assumes "ok x" "k < length (enc x)"
  shows "dec (take k (enc x)) = None"
proof (rule ccontr)
  assume "dec (take k (enc x)) \<noteq> None"
  then obtain y r where "dec (take k (enc x)) = Some (y, r)" by auto
  then have "dec (take k (enc x) @ drop k (enc x)) = Some (y, r @ drop k (enc x))"
    by (rule dec_local)
  moreover have "dec (enc x @ []) = Some (x, [])" using assms(1) by (rule dec_enc)
  ultimately show False using assms(2) by simp
qed

end

definition read_u8 :: "bool \<Rightarrow> byte list \<Rightarrow> (byte \<times> byte list) option" where
  "read_u8 e bs = do { (x, bs) \<leftarrow> readPod e 1 bs; Some (word_of_nat x, bs) }"

definition read_u32 :: "bool \<Rightarrow> byte list \<Rightarrow> (u32 \<times> byte list) option" where
  "read_u32 e bs = do { (x, bs) \<leftarrow> readPod e 4 bs; Some (word_of_nat x, bs) }"

definition read_u64 :: "bool \<Rightarrow> byte list \<Rightarrow> (u64 \<times> byte list) option" where
  "read_u64 e bs = do { (x, bs) \<leftarrow> readPod e 8 bs; Some (word_of_nat x, bs) }"

definition write_u8 :: "bool \<Rightarrow> byte \<Rightarrow> byte list" where
  "write_u8 e x = coherenceProbeWritePod e 1 (unat x)"

definition write_u32 :: "bool \<Rightarrow> u32 \<Rightarrow> byte list" where
  "write_u32 e x = coherenceProbeWritePod e 4 (unat x)"

definition write_u64 :: "bool \<Rightarrow> u64 \<Rightarrow> byte list" where
  "write_u64 e x = coherenceProbeWritePod e 8 (unat x)"

lemma readPod_write:
  assumes "x < 256 ^ width"
  shows "readPod e width (coherenceProbeWritePod e width x @ rest) = Some (x, rest)"
  using assms by (simp add: readPod_def coherenceProbeWritePod_def bytes_value_bytes)

lemma readPod_local:
  "readPod e width bs = Some (x, rest) \<Longrightarrow> readPod e width (bs @ extra) = Some (x, rest @ extra)"
  by (auto simp: readPod_def split: if_splits)

lemma readPod_shrinks: "readPod e width bs = Some (x, rest) \<Longrightarrow> length rest \<le> length bs"
  by (auto simp: readPod_def split: if_splits)

lemma word_less_256_power:
  "unat (x8 :: byte) < 256 ^ 1" "unat (x32 :: u32) < 256 ^ 4" "unat (x64 :: u64) < 256 ^ 8"
  using unsigned_less [of x8] unsigned_less [of x32] unsigned_less [of x64] by simp_all

interpretation u8: codec "\<lambda>_. True" "write_u8 e" "read_u8 e" for e
  using word_less_256_power(1)
  by unfold_locales (auto simp: read_u8_def write_u8_def readPod_write readPod_local
    split: Option.bind_splits dest: readPod_shrinks)

interpretation u32: codec "\<lambda>_. True" "write_u32 e" "read_u32 e" for e
  using word_less_256_power(2)
  by unfold_locales (auto simp: read_u32_def write_u32_def readPod_write readPod_local
    split: Option.bind_splits dest: readPod_shrinks)

interpretation u64: codec "\<lambda>_. True" "write_u64 e" "read_u64 e" for e
  using word_less_256_power(3)
  by unfold_locales (auto simp: read_u64_def write_u64_def readPod_write readPod_local
    split: Option.bind_splits dest: readPod_shrinks)

section \<open>Vectors and matrices\<close>

text \<open>
  The loop over the elements, and a vector: a 64-bit count checked against the bytes left before
  the storage is sized, \<open>least\<close> being the fewest bytes an element takes.
\<close>

fun read_elements :: "(byte list \<Rightarrow> ('a \<times> byte list) option) \<Rightarrow> nat \<Rightarrow> byte list \<Rightarrow>
    ('a list \<times> byte list) option" where
  "read_elements dec 0 bs = Some ([], bs)"
| "read_elements dec (Suc n) bs = do {
     (x, bs) \<leftarrow> dec bs;
     (xs, bs) \<leftarrow> read_elements dec n bs;
     Some (x # xs, bs)
   }"

definition read_vector :: "bool \<Rightarrow> nat \<Rightarrow> (byte list \<Rightarrow> ('a \<times> byte list) option) \<Rightarrow> byte list \<Rightarrow>
    ('a list \<times> byte list) option" where
  "read_vector e least dec bs = do {
     (count, bs) \<leftarrow> read_u64 e bs;
     if unat count > length bs div least then None else read_elements dec (unat count) bs
   }"

definition write_vector :: "bool \<Rightarrow> ('a \<Rightarrow> byte list) \<Rightarrow> 'a list \<Rightarrow> byte list" where
  "write_vector e enc xs = write_u64 e (word_of_nat (length xs)) @ concat (map enc xs)"

locale element_codec = codec +
  fixes least :: nat
  assumes least_pos: "0 < least"
    and enc_least: "ok x \<Longrightarrow> least \<le> length (enc x)"
begin

definition vec_ok :: "'a list \<Rightarrow> bool" where
  "vec_ok xs \<longleftrightarrow> length xs < 2 ^ 64 \<and> (\<forall>x\<in>set xs. ok x)"

lemma elements_enc:
  "\<forall>x\<in>set xs. ok x \<Longrightarrow> read_elements dec (length xs) (concat (map enc xs) @ rest) = Some (xs, rest)"
  by (induction xs) (simp_all add: dec_enc)

lemma elements_SucE:
  assumes "read_elements dec (Suc n) bs = Some (xs, rest)"
  obtains y b ys where "dec bs = Some (y, b)" "read_elements dec n b = Some (ys, rest)" "xs = y # ys"
  using assms by (auto split: Option.bind_splits)

lemma elements_local:
  "read_elements dec n bs = Some (xs, rest) \<Longrightarrow>
    read_elements dec n (bs @ extra) = Some (xs, rest @ extra)"
proof (induction n arbitrary: bs xs)
  case (Suc n)
  from Suc.prems obtain y b ys
    where s: "dec bs = Some (y, b)" "read_elements dec n b = Some (ys, rest)" "xs = y # ys"
    by (rule elements_SucE)
  show ?case using dec_local [OF s(1), of extra] Suc.IH [OF s(2)] s(3) by simp
qed simp

lemma elements_shrinks: "read_elements dec n bs = Some (xs, rest) \<Longrightarrow> length rest \<le> length bs"
proof (induction n arbitrary: bs xs)
  case (Suc n)
  from Suc.prems obtain y b ys
    where s: "dec bs = Some (y, b)" "read_elements dec n b = Some (ys, rest)" "xs = y # ys"
    by (rule elements_SucE)
  show ?case using dec_shrinks [OF s(1)] Suc.IH [OF s(2)] by simp
qed simp

lemma elements_length: "read_elements dec n bs = Some (xs, rest) \<Longrightarrow> length xs = n"
proof (induction n arbitrary: bs xs)
  case (Suc n)
  from Suc.prems obtain y b ys
    where s: "dec bs = Some (y, b)" "read_elements dec n b = Some (ys, rest)" "xs = y # ys"
    by (rule elements_SucE)
  show ?case using Suc.IH [OF s(2)] s(3) by simp
qed simp

lemma concat_enc_least:
  "\<forall>x\<in>set xs. ok x \<Longrightarrow> least * length xs \<le> length (concat (map enc xs))"
  by (induction xs) (use enc_least in \<open>fastforce simp: add_mono\<close>)+

lemma vector_enc:
  assumes "vec_ok xs"
  shows "read_vector e least dec (write_vector e enc xs @ rest) = Some (xs, rest)"
proof -
  have n: "unat (word_of_nat (length xs) :: u64) = length xs"
    using assms by (simp add: vec_ok_def unat_of_nat)
  have "length xs \<le> length (concat (map enc xs) @ rest) div least"
  proof -
    have "length xs * least \<le> length (concat (map enc xs) @ rest)"
      using concat_enc_least [of xs] assms by (simp add: vec_ok_def mult.commute trans_le_add1)
    then show ?thesis using least_pos by (simp add: less_eq_div_iff_mult_less_eq)
  qed
  moreover have "read_elements dec (length xs) (concat (map enc xs) @ rest) = Some (xs, rest)"
    using assms by (intro elements_enc) (simp add: vec_ok_def)
  ultimately show ?thesis
    unfolding read_vector_def write_vector_def append_assoc u64.dec_enc [OF TrueI] by (simp add: n)
qed

lemma vector_local:
  assumes "read_vector e least dec bs = Some (xs, rest)"
  shows "read_vector e least dec (bs @ extra) = Some (xs, rest @ extra)"
proof -
  from assms obtain c r where c: "read_u64 e bs = Some (c, r)" "unat c \<le> length r div least"
    "read_elements dec (unat c) r = Some (xs, rest)"
    by (auto simp: read_vector_def split: Option.bind_splits if_splits)
  have "unat c \<le> length (r @ extra) div least"
    using c(2) by (rule le_trans) (simp add: div_le_mono)
  then show ?thesis
    using u64.dec_local [OF c(1)] elements_local [OF c(3)] by (simp add: read_vector_def)
qed

lemma vector_shrinks:
  "read_vector e least dec bs = Some (xs, rest) \<Longrightarrow> length rest \<le> length bs"
  by (auto simp: read_vector_def split: Option.bind_splits if_splits
    dest!: u64.dec_shrinks elements_shrinks intro: le_trans)

text \<open>A decoded vector is no longer than the blob allows.\<close>

lemma vector_bounded:
  assumes "read_vector e least dec bs = Some (xs, rest)"
  shows "least * length xs \<le> length bs"
proof -
  from assms obtain c r where c: "read_u64 e bs = Some (c, r)" "unat c \<le> length r div least"
    "read_elements dec (unat c) r = Some (xs, rest)"
    by (auto simp: read_vector_def split: Option.bind_splits if_splits)
  have "length xs = unat c" by (rule elements_length [OF c(3)])
  with c(2) have "least * length xs \<le> length r" using least_pos
    by (simp add: less_eq_div_iff_mult_less_eq mult.commute)
  also have "\<dots> \<le> length bs" by (rule u64.dec_shrinks [OF c(1)])
  finally show ?thesis .
qed

lemma vector_codec: "codec vec_ok (write_vector e enc) (read_vector e least dec)"
  by unfold_locales (auto intro: vector_enc vector_local vector_shrinks)

lemma vector_least: "8 \<le> length (write_vector e enc xs)"
  by (simp add: write_vector_def write_u64_def coherenceProbeWritePod_def)

end


text \<open>
  What a decoder consumes: if an element takes at least \<open>weight\<close> bytes, a vector takes its count and
  the sum of them.
\<close>

lemma elements_consume:
  assumes "\<And>bs x rest. dec bs = Some (x, rest) \<Longrightarrow> length rest + weight x \<le> length bs"
    and "read_elements dec n bs = Some (xs, rest)"
  shows "length xs = n \<and> length rest + sum_list (map weight xs) \<le> length bs"
  using assms(2)
proof (induction n arbitrary: bs xs)
  case (Suc n)
  from Suc.prems obtain y b ys
    where s: "dec bs = Some (y, b)" "read_elements dec n b = Some (ys, rest)" "xs = y # ys"
    by (auto split: Option.bind_splits)
  show ?case using assms(1) [OF s(1)] Suc.IH [OF s(2)] s(3) by simp
qed simp

lemma readPod_consume: "readPod e width bs = Some (x, rest) \<Longrightarrow> length rest + width = length bs"
  by (auto simp: readPod_def split: if_splits)

lemma read_consume:
  "read_u8 e bs = Some (x8, rest) \<Longrightarrow> length rest + 1 = length bs"
  "read_u32 e bs = Some (x32, rest) \<Longrightarrow> length rest + 4 = length bs"
  "read_u64 e bs = Some (x64, rest) \<Longrightarrow> length rest + 8 = length bs"
  by (auto simp: read_u8_def read_u32_def read_u64_def split: Option.bind_splits dest: readPod_consume)

lemma vector_consume:
  assumes "\<And>bs x rest. dec bs = Some (x, rest) \<Longrightarrow> length rest + weight x \<le> length bs"
    and "read_vector e least dec bs = Some (xs, rest)"
  shows "length rest + (8 + sum_list (map weight xs)) \<le> length bs"
proof -
  from assms(2) obtain c r where c: "read_u64 e bs = Some (c, r)"
    "read_elements dec (unat c) r = Some (xs, rest)"
    by (auto simp: read_vector_def split: Option.bind_splits if_splits)
  with elements_consume [of dec weight, OF assms(1) c(2)] read_consume(3) [OF c(1)] show ?thesis by simp
qed


definition coherenceProbeWriteU32Vector :: "bool \<Rightarrow> u32 list \<Rightarrow> byte list" where
  "coherenceProbeWriteU32Vector e = write_vector e (write_u32 e)"

definition coherenceProbeWriteF64Vector :: "bool \<Rightarrow> u64 list \<Rightarrow> byte list" where
  "coherenceProbeWriteF64Vector e = write_vector e (write_u64 e)"

definition coherenceProbeWriteF64Matrix :: "bool \<Rightarrow> u64 list list \<Rightarrow> byte list" where
  "coherenceProbeWriteF64Matrix e = write_vector e (coherenceProbeWriteF64Vector e)"

definition coherenceProbeReadU32Vector :: "bool \<Rightarrow> byte list \<Rightarrow> (u32 list \<times> byte list) option" where
  "coherenceProbeReadU32Vector e = read_vector e 4 (read_u32 e)"

definition coherenceProbeReadF64Vector :: "bool \<Rightarrow> byte list \<Rightarrow> (u64 list \<times> byte list) option" where
  "coherenceProbeReadF64Vector e = read_vector e 8 (read_u64 e)"

definition coherenceProbeReadF64Matrix :: "bool \<Rightarrow> byte list \<Rightarrow>
    (u64 list list \<times> byte list) option" where
  "coherenceProbeReadF64Matrix e = read_vector e 8 (coherenceProbeReadF64Vector e)"

definition small :: "'a list \<Rightarrow> bool" where
  "small xs \<longleftrightarrow> length xs < 2 ^ 64"

interpretation u32_elements: element_codec "\<lambda>_. True" "write_u32 e" "read_u32 e" 4 for e
  by unfold_locales (simp_all add: write_u32_def coherenceProbeWritePod_def)

interpretation f64_elements: element_codec "\<lambda>_. True" "write_u64 e" "read_u64 e" 8 for e
  by unfold_locales (simp_all add: write_u64_def coherenceProbeWritePod_def)

lemma vec_ok_small: "u32_elements.vec_ok = small" "f64_elements.vec_ok = small"
  by (auto simp: fun_eq_iff u32_elements.vec_ok_def f64_elements.vec_ok_def small_def)

interpretation u32_vector: codec small "coherenceProbeWriteU32Vector e"
    "coherenceProbeReadU32Vector e" for e
  unfolding coherenceProbeWriteU32Vector_def coherenceProbeReadU32Vector_def vec_ok_small [symmetric]
  by (rule u32_elements.vector_codec)

interpretation f64_vector: codec small "coherenceProbeWriteF64Vector e"
    "coherenceProbeReadF64Vector e" for e
  unfolding coherenceProbeWriteF64Vector_def coherenceProbeReadF64Vector_def vec_ok_small [symmetric]
  by (rule f64_elements.vector_codec)

interpretation f64_rows: element_codec small "coherenceProbeWriteF64Vector e"
    "coherenceProbeReadF64Vector e" 8 for e
  by unfold_locales (simp_all add: coherenceProbeWriteF64Vector_def f64_elements.vector_least)

definition small_matrix :: "'a list list \<Rightarrow> bool" where
  "small_matrix m \<longleftrightarrow> small m \<and> (\<forall>row\<in>set m. small row)"

lemma rows_ok_small: "f64_rows.vec_ok = small_matrix"
  by (auto simp: fun_eq_iff f64_rows.vec_ok_def small_matrix_def small_def)

interpretation f64_matrix: codec small_matrix "coherenceProbeWriteF64Matrix e"
    "coherenceProbeReadF64Matrix e" for e
  unfolding coherenceProbeWriteF64Matrix_def coherenceProbeReadF64Matrix_def rows_ok_small [symmetric]
  by (rule f64_rows.vector_codec)

lemma u32_vector_consume:
  assumes "coherenceProbeReadU32Vector e bs = Some (xs, rest)"
  shows "length rest + (8 + 4 * length xs) \<le> length bs"
  using vector_consume [of "read_u32 e" "\<lambda>_. 4", OF _ assms [unfolded coherenceProbeReadU32Vector_def]]
  by (simp add: read_consume sum_list_triv)

lemma f64_vector_consume:
  assumes "coherenceProbeReadF64Vector e bs = Some (xs, rest)"
  shows "length rest + (8 + 8 * length xs) \<le> length bs"
  using vector_consume [of "read_u64 e" "\<lambda>_. 8", OF _ assms [unfolded coherenceProbeReadF64Vector_def]]
  by (simp add: read_consume sum_list_triv)

lemma f64_matrix_consume:
  assumes "coherenceProbeReadF64Matrix e bs = Some (m, rest)"
  shows "length rest + (8 + sum_list (map (\<lambda>row. 8 + 8 * length row) m)) \<le> length bs"
  using vector_consume [of "coherenceProbeReadF64Vector e", OF f64_vector_consume
    assms [unfolded coherenceProbeReadF64Matrix_def]] .

section \<open>The blob\<close>

definition kCoherenceProbeMagic :: u32 where "kCoherenceProbeMagic = 0x434F4850"
definition kCoherenceProbeFormatVersion :: u32 where "kCoherenceProbeFormatVersion = 1"

definition serializeCoherenceProbe :: "bool \<Rightarrow> u64 CoherenceProbe \<Rightarrow> byte list" where
  "serializeCoherenceProbe e probe =
     write_u32 e kCoherenceProbeMagic
     @ write_u32 e kCoherenceProbeFormatVersion
     @ write_u8 e (if cp_valid probe then 1 else 0)
     @ write_u64 e (cp_maxCrossOverIntraRatio probe)
     @ write_u8 e (if lm_valid (cp_matrix probe) then 1 else 0)
     @ coherenceProbeWriteU32Vector e (lm_cpus (cp_matrix probe))
     @ coherenceProbeWriteF64Matrix e (lm_matrix (cp_matrix probe))
     @ coherenceProbeWriteU32Vector e (cr_clusterIdOfCpuIndex (cp_clusters probe))
     @ write_u32 e (cr_numClusters (cp_clusters probe))
     @ coherenceProbeWriteF64Matrix e (cr_clusterDistanceNs (cp_clusters probe))"

text \<open>The structural checks at the end of the parse.\<close>

definition square :: "nat \<Rightarrow> 'a list list \<Rightarrow> bool" where
  "square n m \<longleftrightarrow> length m = n \<and> list_all (\<lambda>row. length row = n) m"

lemma square_sum: "square n m \<Longrightarrow> sum_list (map (\<lambda>row. 8 + 8 * length row) m) = n * (8 + 8 * n)"
  by (auto simp: square_def list_all_iff sum_list_triv cong: map_cong)

definition probe_consistent :: "'f CoherenceProbe \<Rightarrow> bool" where
  "probe_consistent probe \<longleftrightarrow>
     (let n = length (lm_cpus (cp_matrix probe)); k = unat (cr_numClusters (cp_clusters probe))
      in square n (lm_matrix (cp_matrix probe)) \<and>
         length (cr_clusterIdOfCpuIndex (cp_clusters probe)) = n \<and>
         square k (cr_clusterDistanceNs (cp_clusters probe)))"

definition parse_probe :: "bool \<Rightarrow> byte list \<Rightarrow> (u64 CoherenceProbe \<times> byte list) option" where
  "parse_probe e bytes = do {
     (magic, r) \<leftarrow> read_u32 e bytes;
     (version, r) \<leftarrow> read_u32 e r;
     if magic \<noteq> kCoherenceProbeMagic \<or> version \<noteq> kCoherenceProbeFormatVersion then None
     else do {
       (probeValid, r) \<leftarrow> read_u8 e r;
       (ratio, r) \<leftarrow> read_u64 e r;
       (matrixValid, r) \<leftarrow> read_u8 e r;
       (cpus, r) \<leftarrow> coherenceProbeReadU32Vector e r;
       (matrix, r) \<leftarrow> coherenceProbeReadF64Matrix e r;
       (ids, r) \<leftarrow> coherenceProbeReadU32Vector e r;
       (numClusters, r) \<leftarrow> read_u32 e r;
       (distances, r) \<leftarrow> coherenceProbeReadF64Matrix e r;
       let probe = \<lparr> cp_valid = (probeValid \<noteq> 0),
           cp_matrix = \<lparr> lm_cpus = cpus, lm_matrix = matrix, lm_valid = (matrixValid \<noteq> 0) \<rparr>,
           cp_clusters = \<lparr> cr_clusterIdOfCpuIndex = ids, cr_numClusters = numClusters,
             cr_clusterDistanceNs = distances \<rparr>,
           cp_maxCrossOverIntraRatio = ratio \<rparr>
       in if probe_consistent probe then Some (probe, r) else None
     }
   }"

definition deserializeCoherenceProbe :: "bool \<Rightarrow> byte list \<Rightarrow> u64 CoherenceProbe option" where
  "deserializeCoherenceProbe e bytes = map_option fst (parse_probe e bytes)"

definition probe_ok :: "u64 CoherenceProbe \<Rightarrow> bool" where
  "probe_ok probe \<longleftrightarrow> probe_consistent probe \<and> small (lm_cpus (cp_matrix probe))"

lemma square_small: "square n m \<Longrightarrow> n < 2 ^ 64 \<Longrightarrow> small_matrix m"
  by (auto simp: square_def small_matrix_def small_def list_all_iff)

lemma probe_eta:
  "\<lparr> cp_valid = cp_valid p,
     cp_matrix = \<lparr> lm_cpus = lm_cpus (cp_matrix p), lm_matrix = lm_matrix (cp_matrix p),
       lm_valid = lm_valid (cp_matrix p) \<rparr>,
     cp_clusters = \<lparr> cr_clusterIdOfCpuIndex = cr_clusterIdOfCpuIndex (cp_clusters p),
       cr_numClusters = cr_numClusters (cp_clusters p),
       cr_clusterDistanceNs = cr_clusterDistanceNs (cp_clusters p) \<rparr>,
     cp_maxCrossOverIntraRatio = cp_maxCrossOverIntraRatio p \<rparr> = (p :: 'f CoherenceProbe)"
  by simp

lemma parse_probe_enc:
  assumes "probe_ok probe"
  shows "parse_probe e (serializeCoherenceProbe e probe @ rest) = Some (probe, rest)"
proof -
  let ?n = "length (lm_cpus (cp_matrix probe))" and ?k = "unat (cr_numClusters (cp_clusters probe))"
  have c: "probe_consistent probe" "?n < 2 ^ 64" using assms by (simp_all add: probe_ok_def small_def)
  have k: "?k < 2 ^ 64" by (rule less_trans [OF unsigned_less]) simp
  have sq: "square ?n (lm_matrix (cp_matrix probe))"
    "length (cr_clusterIdOfCpuIndex (cp_clusters probe)) = ?n"
    "square ?k (cr_clusterDistanceNs (cp_clusters probe))"
    using c(1) by (simp_all add: probe_consistent_def Let_def)
  have s: "small (lm_cpus (cp_matrix probe))" "small_matrix (lm_matrix (cp_matrix probe))"
    "small (cr_clusterIdOfCpuIndex (cp_clusters probe))"
    "small_matrix (cr_clusterDistanceNs (cp_clusters probe))"
    using sq c(2) k by (auto simp: small_def intro: square_small)
  have flag: "(if b then 1 else (0 :: byte)) \<noteq> 0 \<longleftrightarrow> b" for b by simp
  show ?thesis
    unfolding parse_probe_def serializeCoherenceProbe_def append_assoc
    using c(1)
    by (simp add: u32.dec_enc u8.dec_enc u64.dec_enc u32_vector.dec_enc [OF s(1)]
      f64_matrix.dec_enc [OF s(2)] u32_vector.dec_enc [OF s(3)] f64_matrix.dec_enc [OF s(4)] flag
      Let_def probe_eta)
qed


text \<open>The reads of a successful parse, in order.\<close>

lemma parse_probeE:
  assumes "parse_probe e bs = Some (p, rest)"
  obtains v r1 r2 pv r3 ratio r4 mv r5 cpus r6 mat r7 ids r8 k r9 dist
  where "read_u32 e bs = Some (kCoherenceProbeMagic, r1)"
    "read_u32 e r1 = Some (kCoherenceProbeFormatVersion, r2)"
    "read_u8 e r2 = Some (pv, r3)" "read_u64 e r3 = Some (ratio, r4)"
    "read_u8 e r4 = Some (mv, r5)" "coherenceProbeReadU32Vector e r5 = Some (cpus, r6)"
    "coherenceProbeReadF64Matrix e r6 = Some (mat, r7)"
    "coherenceProbeReadU32Vector e r7 = Some (ids, r8)" "read_u32 e r8 = Some (k, r9)"
    "coherenceProbeReadF64Matrix e r9 = Some (dist, rest)"
    "p = \<lparr> cp_valid = (pv \<noteq> 0),
       cp_matrix = \<lparr> lm_cpus = cpus, lm_matrix = mat, lm_valid = (mv \<noteq> 0) \<rparr>,
       cp_clusters = \<lparr> cr_clusterIdOfCpuIndex = ids, cr_numClusters = k,
         cr_clusterDistanceNs = dist \<rparr>, cp_maxCrossOverIntraRatio = ratio \<rparr>"
    "probe_consistent p"
  using assms unfolding parse_probe_def
  by (auto simp: Let_def split: Option.bind_splits if_splits)

lemma parse_probe_local:
  assumes "parse_probe e bs = Some (p, rest)"
  shows "parse_probe e (bs @ extra) = Some (p, rest @ extra)"
  using assms
proof (rule parse_probeE)
  fix r1 r2 r3 r4 r5 r6 r7 r8 r9 and pv mv :: byte and ratio :: u64 and cpus ids :: "u32 list"
    and mat dist :: "u64 list list" and k :: u32
  assume p: "p = \<lparr> cp_valid = (pv \<noteq> 0),
       cp_matrix = \<lparr> lm_cpus = cpus, lm_matrix = mat, lm_valid = (mv \<noteq> 0) \<rparr>,
       cp_clusters = \<lparr> cr_clusterIdOfCpuIndex = ids, cr_numClusters = k,
         cr_clusterDistanceNs = dist \<rparr>, cp_maxCrossOverIntraRatio = ratio \<rparr>"
    and c: "probe_consistent p"
  assume s1: "read_u32 e bs = Some (kCoherenceProbeMagic, r1)"
    and s2: "read_u32 e r1 = Some (kCoherenceProbeFormatVersion, r2)"
    and s3: "read_u8 e r2 = Some (pv, r3)" and s4: "read_u64 e r3 = Some (ratio, r4)"
    and s5: "read_u8 e r4 = Some (mv, r5)"
    and s6: "coherenceProbeReadU32Vector e r5 = Some (cpus, r6)"
    and s7: "coherenceProbeReadF64Matrix e r6 = Some (mat, r7)"
    and s8: "coherenceProbeReadU32Vector e r7 = Some (ids, r8)"
    and s9: "read_u32 e r8 = Some (k, r9)"
    and s10: "coherenceProbeReadF64Matrix e r9 = Some (dist, rest)"
  show ?thesis
    unfolding parse_probe_def
    using c u32.dec_local [OF s1, of extra] u32.dec_local [OF s2, of extra]
      u8.dec_local [OF s3, of extra] u64.dec_local [OF s4, of extra] u8.dec_local [OF s5, of extra]
      u32_vector.dec_local [OF s6, of extra] f64_matrix.dec_local [OF s7, of extra]
      u32_vector.dec_local [OF s8, of extra] u32.dec_local [OF s9, of extra]
      f64_matrix.dec_local [OF s10, of extra]
    by (simp add: p Let_def)
qed

text \<open>The bytes a parse consumes: 54 of header fields and counts beside the elements.\<close>

definition probe_bytes :: "'f CoherenceProbe \<Rightarrow> nat" where
  "probe_bytes p = (let n = length (lm_cpus (cp_matrix p)); k = unat (cr_numClusters (cp_clusters p))
     in 54 + 4 * n + n * (8 + 8 * n) + 4 * length (cr_clusterIdOfCpuIndex (cp_clusters p)) + k * (8 + 8 * k))"

lemma parse_probe_consume:
  assumes "parse_probe e bs = Some (p, rest)"
  shows "length rest + probe_bytes p \<le> length bs"
  using assms
proof (rule parse_probeE)
  fix r1 r2 r3 r4 r5 r6 r7 r8 r9 and pv mv :: byte and ratio :: u64 and cpus ids :: "u32 list"
    and mat dist :: "u64 list list" and k :: u32
  assume p: "p = \<lparr> cp_valid = (pv \<noteq> 0),
       cp_matrix = \<lparr> lm_cpus = cpus, lm_matrix = mat, lm_valid = (mv \<noteq> 0) \<rparr>,
       cp_clusters = \<lparr> cr_clusterIdOfCpuIndex = ids, cr_numClusters = k,
         cr_clusterDistanceNs = dist \<rparr>, cp_maxCrossOverIntraRatio = ratio \<rparr>"
    and c: "probe_consistent p"
  assume s: "read_u32 e bs = Some (kCoherenceProbeMagic, r1)"
    "read_u32 e r1 = Some (kCoherenceProbeFormatVersion, r2)" "read_u8 e r2 = Some (pv, r3)"
    "read_u64 e r3 = Some (ratio, r4)" "read_u8 e r4 = Some (mv, r5)"
    "coherenceProbeReadU32Vector e r5 = Some (cpus, r6)" "coherenceProbeReadF64Matrix e r6 = Some (mat, r7)"
    "coherenceProbeReadU32Vector e r7 = Some (ids, r8)" "read_u32 e r8 = Some (k, r9)"
    "coherenceProbeReadF64Matrix e r9 = Some (dist, rest)"
  have "square (length cpus) mat" "square (unat k) dist" using c by (simp_all add: p probe_consistent_def Let_def)
  note sums = square_sum [OF this(1)] square_sum [OF this(2)]
  show ?thesis
    using read_consume(2) [OF s(1)] read_consume(2) [OF s(2)] read_consume(1) [OF s(3)] read_consume(3) [OF s(4)]
      read_consume(1) [OF s(5)] u32_vector_consume [OF s(6)] f64_matrix_consume [OF s(7), unfolded sums]
      u32_vector_consume [OF s(8)] read_consume(2) [OF s(9)] f64_matrix_consume [OF s(10), unfolded sums]
    by (simp add: p probe_bytes_def Let_def)
qed

lemma parse_probe_shrinks: "parse_probe e bs = Some (p, rest) \<Longrightarrow> length rest \<le> length bs"
  using parse_probe_consume by fastforce

interpretation blob: codec probe_ok "serializeCoherenceProbe e" "parse_probe e" for e
  by unfold_locales (auto intro: parse_probe_enc parse_probe_local dest: parse_probe_shrinks)

section \<open>The cache\<close>

text \<open>The process-wide map, keyed by the sorted cpu list without repetitions.\<close>

type_synonym 'f probe_cache = "u32 list \<rightharpoonup> 'f CoherenceProbe"

definition coherenceProbeCacheKey :: "u32 list \<Rightarrow> u32 list" where
  "coherenceProbeCacheKey cpus = remdups_adj (sort cpus)"

text \<open>
  \<open>cachedCoherenceProbe\<close>: a hit returns the entry; on a miss the probe \<open>fresh\<close> is taken outside
  the lock, and inserted into the cache as it is then, unless another thread was first.
\<close>

definition cached_lookup :: "'f probe_cache \<Rightarrow> u32 list \<Rightarrow> 'f CoherenceProbe option" where
  "cached_lookup cache cpus = cache (coherenceProbeCacheKey cpus)"

definition cached_insert :: "'f probe_cache \<Rightarrow> u32 list \<Rightarrow> 'f CoherenceProbe \<Rightarrow>
    'f CoherenceProbe \<times> 'f probe_cache" where
  "cached_insert cache cpus fresh = (case cache (coherenceProbeCacheKey cpus) of
       Some probe \<Rightarrow> (probe, cache)
     | None \<Rightarrow> (fresh, cache(coherenceProbeCacheKey cpus \<mapsto> fresh)))"

definition seedCoherenceProbeCache :: "'f probe_cache \<Rightarrow> u32 list \<Rightarrow> 'f CoherenceProbe \<Rightarrow>
    'f probe_cache" where
  "seedCoherenceProbeCache cache cpus probe = cache(coherenceProbeCacheKey cpus \<mapsto> probe)"

definition importCoherenceProbe :: "bool \<Rightarrow> byte list \<Rightarrow> u64 probe_cache \<Rightarrow> bool \<times> u64 probe_cache" where
  "importCoherenceProbe e bytes cache = (case deserializeCoherenceProbe e bytes of
       None \<Rightarrow> (False, cache)
     | Some probe \<Rightarrow> (True, seedCoherenceProbeCache cache (lm_cpus (cp_matrix probe)) probe))"

definition exportCoherenceProbe :: "bool \<Rightarrow> u64 CoherenceProbe \<Rightarrow> byte list" where
  "exportCoherenceProbe e probe = (if \<not> cp_valid probe then [] else serializeCoherenceProbe e probe)"

lemma cache_key_eq: "coherenceProbeCacheKey xs = coherenceProbeCacheKey ys \<longleftrightarrow> set xs = set ys"
proof
  assume eq: "coherenceProbeCacheKey xs = coherenceProbeCacheKey ys"
  have key: "set (coherenceProbeCacheKey zs) = set zs" for zs :: "u32 list"
    by (simp add: coherenceProbeCacheKey_def)
  from eq have "set (coherenceProbeCacheKey xs) = set (coherenceProbeCacheKey ys)" by simp
  then show "set xs = set ys" by (simp only: key)
next
  assume "set xs = set ys"
  then show "coherenceProbeCacheKey xs = coherenceProbeCacheKey ys"
    unfolding coherenceProbeCacheKey_def
    by (intro sorted_distinct_set_unique) (simp_all add: sorted_remdups_adj_distinct)
qed

section \<open>The properties of the blob\<close>

text \<open>A probe of two cpus in one cluster.\<close>

definition example_probe :: "u64 CoherenceProbe" where
  "example_probe = \<lparr> cp_valid = True,
     cp_matrix = \<lparr> lm_cpus = [5, 3], lm_matrix = [[0, 77], [77, 0]], lm_valid = True \<rparr>,
     cp_clusters = \<lparr> cr_clusterIdOfCpuIndex = [0, 0], cr_numClusters = 1,
       cr_clusterDistanceNs = [[77]] \<rparr>, cp_maxCrossOverIntraRatio = 1 \<rparr>"

lemma example_probe_ok: "probe_ok example_probe"
  by (simp add: probe_ok_def example_probe_def probe_consistent_def square_def small_def Let_def)

text \<open>
  C19. Persisting a probe and importing it in the next process brings back that probe: the parse
  of the exported blob (whatever follows it) succeeds, and afterwards the cache answers every cpu
  list with the same members, in any order, with it, and every other list as before.
\<close>

theorem probe_export_import:
  assumes "probe_ok p" and "cp_valid p"
  shows "\<exists>cache'. importCoherenceProbe e (exportCoherenceProbe e p @ extra) cache = (True, cache') \<and>
    (\<forall>cpus. cached_lookup cache' cpus = (if set cpus = set (lm_cpus (cp_matrix p)) then Some p
      else cached_lookup cache cpus))"
proof -
  have "deserializeCoherenceProbe e (exportCoherenceProbe e p @ extra) = Some p"
    using blob.dec_enc [OF assms(1)] assms(2)
    by (simp add: deserializeCoherenceProbe_def exportCoherenceProbe_def)
  then show ?thesis
    by (auto simp: importCoherenceProbe_def seedCoherenceProbeCache_def cached_lookup_def cache_key_eq)
qed

theorem probe_export_import_witness:
  "\<exists>cache'. importCoherenceProbe False (exportCoherenceProbe False example_probe) Map.empty
     = (True, cache') \<and> cached_lookup cache' [3, 5, 3] = Some example_probe"
proof -
  have "cp_valid example_probe" by (simp add: example_probe_def)
  from probe_export_import [OF example_probe_ok this, of False "[]" Map.empty]
  obtain cache' where "importCoherenceProbe False (exportCoherenceProbe False example_probe) Map.empty
     = (True, cache')" and l: "\<And>cpus. cached_lookup cache' cpus =
       (if set cpus = set (lm_cpus (cp_matrix example_probe)) then Some example_probe
        else cached_lookup Map.empty cpus)" by auto
  moreover have "cached_lookup cache' [3, 5, 3] = Some example_probe"
    unfolding l by (simp add: example_probe_def insert_commute)
  ultimately show ?thesis by blast
qed

text \<open>
  C20. A truncated blob is rejected: no strict prefix of a serialised probe is parsed, and the
  import of one leaves the cache as it was.
\<close>

theorem probe_truncation_rejected:
  assumes "probe_ok p" and "k < length (serializeCoherenceProbe e p)"
  shows "importCoherenceProbe e (take k (serializeCoherenceProbe e p)) cache = (False, cache)"
  using blob.dec_truncated [OF assms]
  by (simp add: importCoherenceProbe_def deserializeCoherenceProbe_def)

theorem probe_truncation_rejected_witness:
  "importCoherenceProbe True (take 50 (serializeCoherenceProbe True example_probe)) Map.empty
     = (False, Map.empty)"
proof (rule probe_truncation_rejected [OF example_probe_ok])
  show "50 < length (serializeCoherenceProbe True example_probe)"
    by (simp add: example_probe_def serializeCoherenceProbe_def write_u32_def write_u8_def
      write_u64_def coherenceProbeWritePod_def coherenceProbeWriteU32Vector_def
      coherenceProbeWriteF64Matrix_def coherenceProbeWriteF64Vector_def write_vector_def)
qed

text \<open>
  C21. Whatever the bytes, an accepted probe is well formed: its matrix is square over its cpus,
  every cpu has a cluster id, and the distances are square over the clusters. All its vectors
  together fit in the blob, element for element, so that no length prefix makes the reader allocate
  more than the bytes it was given; and the import stores exactly this probe.
\<close>

theorem probe_accepted_consistent:
  assumes "importCoherenceProbe e bytes cache = (True, cache')"
  shows "\<exists>p. cache' = seedCoherenceProbeCache cache (lm_cpus (cp_matrix p)) p \<and> probe_consistent p \<and>
    54 + 4 * length (lm_cpus (cp_matrix p)) + sum_list (map (\<lambda>row. 8 + 8 * length row) (lm_matrix (cp_matrix p))) +
    4 * length (cr_clusterIdOfCpuIndex (cp_clusters p)) +
    sum_list (map (\<lambda>row. 8 + 8 * length row) (cr_clusterDistanceNs (cp_clusters p))) \<le> length bytes"
proof -
  from assms obtain p rest where r: "parse_probe e bytes = Some (p, rest)"
    "cache' = seedCoherenceProbeCache cache (lm_cpus (cp_matrix p)) p"
    by (auto simp: importCoherenceProbe_def deserializeCoherenceProbe_def split: option.splits)
  from r(1) have "probe_consistent p" by (rule parse_probeE)
  moreover from this have "square (length (lm_cpus (cp_matrix p))) (lm_matrix (cp_matrix p))"
    "square (unat (cr_numClusters (cp_clusters p))) (cr_clusterDistanceNs (cp_clusters p))"
    by (simp_all add: probe_consistent_def Let_def)
  note square_sum [OF this(1)] square_sum [OF this(2)]
  ultimately show ?thesis using parse_probe_consume [OF r(1)] r(2)
    by (intro exI [of _ p]) (simp add: probe_bytes_def Let_def)
qed

theorem probe_accepted_consistent_witness:
  "importCoherenceProbe False (serializeCoherenceProbe False example_probe) Map.empty
      = (True, seedCoherenceProbeCache Map.empty [5, 3] example_probe) \<and>
    probe_consistent example_probe \<and> 134 \<le> length (serializeCoherenceProbe False example_probe)"
proof -
  have imp: "importCoherenceProbe False (serializeCoherenceProbe False example_probe) Map.empty
    = (True, seedCoherenceProbeCache Map.empty [5, 3] example_probe)"
    using blob.dec_enc [OF example_probe_ok, of False "[]"]
    by (simp add: importCoherenceProbe_def deserializeCoherenceProbe_def example_probe_def)
  from probe_accepted_consistent [OF this] obtain p where
    p: "seedCoherenceProbeCache Map.empty [5, 3] example_probe
      = seedCoherenceProbeCache Map.empty (lm_cpus (cp_matrix p)) p" "probe_consistent p"
    and size: "54 + 4 * length (lm_cpus (cp_matrix p)) +
      sum_list (map (\<lambda>row. 8 + 8 * length row) (lm_matrix (cp_matrix p))) +
      4 * length (cr_clusterIdOfCpuIndex (cp_clusters p)) +
      sum_list (map (\<lambda>row. 8 + 8 * length row) (cr_clusterDistanceNs (cp_clusters p)))
        \<le> length (serializeCoherenceProbe False example_probe)" by blast
  from p(1) have "p = example_probe"
    by (auto simp: seedCoherenceProbeCache_def fun_eq_iff split: if_splits)
  with imp p(2) size show ?thesis by (simp add: example_probe_def)
qed

end
