(* ===== verification/RoundRobin.thy ===== *)
theory RoundRobin
  imports Prelude
begin

text \<open>
  The disjoint-pair schedule of the coherence probe (\<open>roundRobinPairs\<close>, \<open>coherence_probe.h\<close>):
  a pivot and a rotating array; every pair of cpus is measured in exactly one round, and the
  pairs of a round are disjoint.
\<close>

section \<open>The schedule\<close>

definition rr_round :: "nat \<Rightarrow> bool \<Rightarrow> nat \<Rightarrow> nat list \<Rightarrow> (nat \<times> nat) list" where
  "rr_round n addBye m arr = concat (map (\<lambda>i.
     let a = arr ! i; b = arr ! (m - 1 - i)
     in if addBye \<and> (a = n \<or> b = n) then [] else [(a, b)]) [0..<m div 2])"

text \<open>The in-place shift, from the last index down to 2, and the store at index 1.\<close>

fun rr_shift :: "nat \<Rightarrow> nat list \<Rightarrow> nat list" where
  "rr_shift 0 arr = arr"
| "rr_shift (Suc 0) arr = arr"
| "rr_shift (Suc (Suc i)) arr = rr_shift (Suc i) (arr[Suc (Suc i) := arr ! Suc i])"

definition rr_rotate :: "nat \<Rightarrow> nat list \<Rightarrow> nat list" where
  "rr_rotate m arr = (let last' = arr ! (m - 1) in (rr_shift (m - 1) arr)[1 := last'])"

fun rr_rounds :: "nat \<Rightarrow> bool \<Rightarrow> nat \<Rightarrow> nat \<Rightarrow> nat list \<Rightarrow> (nat \<times> nat) list list" where
  "rr_rounds n addBye m 0 arr = []"
| "rr_rounds n addBye m (Suc k) arr =
     rr_round n addBye m arr # rr_rounds n addBye m k (rr_rotate m arr)"

definition roundRobinPairs :: "nat \<Rightarrow> (nat \<times> nat) list list" where
  "roundRobinPairs n = (if n < 2 then []
     else let addBye = (n mod 2 \<noteq> 0); m = (if addBye then w32 (n + 1) else n)
          in rr_rounds n addBye m (m - 1) [0..<m])"

section \<open>The rotating array\<close>

lemma length_rr_shift [simp]: "length (rr_shift i arr) = length arr"
  by (induction i arr rule: rr_shift.induct) simp_all

lemma rr_shift_nth:
  "i < length arr \<Longrightarrow> j < length arr \<Longrightarrow>
    rr_shift i arr ! j = (if 2 \<le> j \<and> j \<le> i then arr ! (j - 1) else arr ! j)"
proof (induction i arr rule: rr_shift.induct)
  case (3 i arr)
  let ?arr = "arr[Suc (Suc i) := arr ! Suc i]"
  have "rr_shift (Suc i) ?arr ! j = (if 2 \<le> j \<and> j \<le> Suc i then ?arr ! (j - 1) else ?arr ! j)"
    using 3 by simp
  then show ?case using "3.prems" by (auto simp: nth_list_update)
qed auto

lemma length_rr_rotate [simp]: "length (rr_rotate m arr) = length arr"
  by (simp add: rr_rotate_def Let_def)

lemma rr_rotate_nth:
  assumes "length arr = m" "2 \<le> m" "j < m"
  shows "rr_rotate m arr ! j =
    (if j = 0 then arr ! 0 else if j = 1 then arr ! (m - 1) else arr ! (j - 1))"
  using assms by (auto simp: rr_rotate_def Let_def nth_list_update rr_shift_nth)

text \<open>The array in round \<open>r\<close> for \<open>Suc M\<close> places, and where an element stands.\<close>

definition rr_array :: "nat \<Rightarrow> nat \<Rightarrow> nat list" where
  "rr_array M r = map (\<lambda>i. if i = 0 then 0 else Suc ((i - 1 + M - r) mod M)) [0..<Suc M]"

definition rr_pos :: "nat \<Rightarrow> nat \<Rightarrow> nat \<Rightarrow> nat" where
  "rr_pos M r x = (if x = 0 then 0 else Suc ((x - 1 + r) mod M))"

lemma length_rr_array [simp]: "length (rr_array M r) = Suc M"
  by (simp add: rr_array_def)

lemma rr_array_nth: "i \<le> M \<Longrightarrow> rr_array M r ! i = (if i = 0 then 0 else Suc ((i - 1 + M - r) mod M))"
  by (simp add: rr_array_def del: upt_Suc)

lemma rr_array_0: "rr_array M 0 = [0..<Suc M]"
proof (rule nth_equalityI)
  fix i assume "i < length (rr_array M 0)"
  then have i: "i \<le> M" by simp
  then show "rr_array M 0 ! i = [0..<Suc M] ! i"
    by (cases i) (simp_all add: rr_array_nth less_Suc_eq_le del: upt_Suc)
qed simp

lemma rr_array_Suc:
  assumes "0 < M" "r < M"
  shows "rr_rotate (Suc M) (rr_array M r) = rr_array M (Suc r)"
proof (rule nth_equalityI)
  fix j assume "j < length (rr_rotate (Suc M) (rr_array M r))"
  then have j: "j \<le> M" by simp
  have last': "(M - 1 + M - r) mod M = (M - Suc r) mod M"
  proof -
    have "M - 1 + M - r = (M - Suc r) + M" using assms by simp
    then show ?thesis by (metis mod_add_self2)
  qed
  show "rr_rotate (Suc M) (rr_array M r) ! j = rr_array M (Suc r) ! j"
    using j assms last' by (auto simp: rr_rotate_nth rr_array_nth Suc_diff_Suc numeral_2_eq_2)
qed simp

lemma rr_rounds_nth:
  "r < k \<Longrightarrow> s + k \<le> M \<Longrightarrow>
    rr_rounds n bye (Suc M) k (rr_array M s) ! r = rr_round n bye (Suc M) (rr_array M (s + r))"
proof (induction k arbitrary: r s)
  case (Suc k)
  show ?case
  proof (cases r)
    case (Suc q)
    have "rr_rotate (Suc M) (rr_array M s) = rr_array M (Suc s)"
      using Suc.prems by (intro rr_array_Suc) simp_all
    then show ?thesis using Suc Suc.IH [of q "Suc s"] Suc.prems by simp
  qed simp
qed simp

lemma length_rr_rounds [simp]: "length (rr_rounds n bye m k arr) = k"
  by (induction k arbitrary: arr) simp_all

lemma mod_back:
  fixes x r M :: nat
  assumes "x < M" "r \<le> M"
  shows "((x + r) mod M + M - r) mod M = x" "((x + M - r) mod M + r) mod M = x"
proof -
  have "((x + r) mod M + M - r) mod M = ((x + r) mod M + (M - r)) mod M"
    by (simp only: Nat.diff_add_assoc [OF assms(2)])
  also have "\<dots> = (x + r + (M - r)) mod M" by (simp add: mod_add_left_eq)
  also have "\<dots> = x" using assms by simp
  finally show "((x + r) mod M + M - r) mod M = x" .
  have "((x + M - r) mod M + r) mod M = (x + M - r + r) mod M" by (simp add: mod_add_left_eq)
  also have "\<dots> = x" using assms by simp
  finally show "((x + M - r) mod M + r) mod M = x" .
qed

lemma rr_pos_le: "0 < M \<Longrightarrow> rr_pos M r x \<le> M"
  by (simp add: rr_pos_def Suc_le_eq)

lemma rr_array_pos: "r \<le> M \<Longrightarrow> x \<le> M \<Longrightarrow> 0 < M \<Longrightarrow> rr_array M r ! rr_pos M r x = x"
  using mod_back(1) [of "x - 1" M r] rr_pos_le [of M r x]
  by (cases x) (simp_all add: rr_array_nth rr_pos_def)

lemma rr_pos_array: "r \<le> M \<Longrightarrow> i \<le> M \<Longrightarrow> 0 < M \<Longrightarrow> rr_pos M r (rr_array M r ! i) = i"
  using mod_back(2) [of "i - 1" M r] by (cases i) (simp_all add: rr_array_nth rr_pos_def)

lemma rr_array_le: "r \<le> M \<Longrightarrow> i \<le> M \<Longrightarrow> 0 < M \<Longrightarrow> rr_array M r ! i \<le> M"
  by (simp add: rr_array_nth Suc_le_eq)

section \<open>Each pair in one round\<close>

lemma rr_round_mem:
  "(a, b) \<in> set (rr_round n bye m arr) \<longleftrightarrow>
    (\<exists>i < m div 2. a = arr ! i \<and> b = arr ! (m - 1 - i) \<and> \<not> (bye \<and> (a = n \<or> b = n)))"
  by (auto simp: rr_round_def Let_def split: if_splits)

lemma rr_round_pos:
  assumes "odd M" "r \<le> M" "a < n" "b < n" "n \<le> Suc M"
  shows "(a, b) \<in> set (rr_round n bye (Suc M) (rr_array M r)) \<or>
      (b, a) \<in> set (rr_round n bye (Suc M) (rr_array M r))
    \<longleftrightarrow> rr_pos M r a + rr_pos M r b = M"
proof -
  have M: "0 < M" using assms(1) by (rule odd_pos)
  have ab: "a \<le> M" "b \<le> M" using assms(3-5) by simp_all
  have mem: "(x, y) \<in> set (rr_round n bye (Suc M) (rr_array M r)) \<longleftrightarrow>
      rr_pos M r x < Suc M div 2 \<and> rr_pos M r x + rr_pos M r y = M"
    if "x \<in> {a, b}" "y \<in> {a, b}" for x y
  proof -
    have xy: "x \<le> M" "y \<le> M" "x \<noteq> n" "y \<noteq> n" using that ab assms(3,4) by auto
    show ?thesis
    proof
      assume "(x, y) \<in> set (rr_round n bye (Suc M) (rr_array M r))"
      then obtain i where i: "i < Suc M div 2" "x = rr_array M r ! i" "y = rr_array M r ! (M - i)"
        by (auto simp: rr_round_mem)
      then have "rr_pos M r x = i" "rr_pos M r y = M - i"
        using assms(2) M by (simp_all add: rr_pos_array)
      with i(1) show "rr_pos M r x < Suc M div 2 \<and> rr_pos M r x + rr_pos M r y = M" by simp
    next
      assume p: "rr_pos M r x < Suc M div 2 \<and> rr_pos M r x + rr_pos M r y = M"
      then have "M - rr_pos M r x = rr_pos M r y" by linarith
      with p xy assms(2) M show "(x, y) \<in> set (rr_round n bye (Suc M) (rr_array M r))"
        by (auto simp: rr_round_mem rr_array_pos intro!: exI [of _ "rr_pos M r x"])
    qed
  qed
  have "rr_pos M r a < Suc M div 2 \<or> rr_pos M r b < Suc M div 2"
    if "rr_pos M r a + rr_pos M r b = M" using that assms(1) by (auto elim!: oddE)
  then show ?thesis using mem [of a b] mem [of b a] by (auto simp: add.commute)
qed


text \<open>For an odd modulus, \<open>s + 2 * r\<close> vanishes for one \<open>r\<close>.\<close>

lemma odd_double_solution:
  assumes "odd (M :: nat)"
  shows "\<exists>!r. r < M \<and> (s + 2 * r) mod M = 0"
proof (rule ex_ex1I)
  have M: "0 < M" using assms by (rule odd_pos)
  define t where "t = M - s mod M"
  define r where "r = (t * ((M + 1) div 2)) mod M"
  have two: "2 * ((M + 1) div 2) = M + 1" using assms by simp
  have "(s + 2 * r) mod M = (s + 2 * (t * ((M + 1) div 2))) mod M"
    unfolding r_def by (metis mod_add_right_eq mod_mult_right_eq)
  also have "2 * (t * ((M + 1) div 2)) = t * (M + 1)" by (metis two mult.left_commute)
  also have "(s + t * (M + 1)) mod M = (s mod M + t) mod M"
  proof -
    have "s + t * (M + 1) = (s + t) + M * t" by simp
    then show ?thesis by (simp only: mod_mult_self2 mod_add_left_eq)
  qed
  also have "s mod M + t = M" unfolding t_def using M by (simp add: less_imp_le)
  finally have "(s + 2 * r) mod M = 0" by simp
  moreover have "r < M" using M by (simp add: r_def)
  ultimately show "\<exists>r. r < M \<and> (s + 2 * r) mod M = 0" by (intro exI [of _ r] conjI)
next
  have le: "r = q" if "r \<le> q" "q < M" "(s + 2 * r) mod M = 0" "(s + 2 * q) mod M = 0" for r q
  proof -
    have "M dvd (s + 2 * q) - (s + 2 * r)"
      using that(3,4) by (intro dvd_diff_nat) (simp_all add: mod_eq_0_iff_dvd)
    then have "M dvd 2 * (q - r)" using that(1) by (simp add: diff_mult_distrib2)
    moreover have "coprime M 2" using assms by simp
    ultimately have "M dvd q - r" by (simp add: coprime_dvd_mult_right_iff)
    with that(1,2) show ?thesis by (auto dest: dvd_imp_le)
  qed
  show "r < M \<and> (s + 2 * r) mod M = 0 \<Longrightarrow> q < M \<and> (s + 2 * q) mod M = 0 \<Longrightarrow> r = q" for r q
    using le [of r q] le [of q r] by (cases "r \<le> q") auto
qed

lemma two_mods:
  assumes "u < M" "v < M" "u \<noteq> v"
  shows "Suc u + Suc v = M \<longleftrightarrow> (u + v + 2) mod M = 0"
proof
  assume "(u + v + 2) mod M = 0"
  then obtain k where k: "u + v + 2 = M * k" by (auto simp: mod_eq_0_iff_dvd elim!: dvdE)
  have "M * k < M * 2" using assms k by linarith
  then have "k < 2" by simp
  moreover have "k \<noteq> 0" using k by (cases k) auto
  ultimately show "Suc u + Suc v = M" using k by (simp add: less_2_cases_iff)
qed (use assms in auto)

lemma pos_sum_solution:
  assumes "odd M" "a < b" "b \<le> M"
  shows "\<exists>!r. r < M \<and> rr_pos M r a + rr_pos M r b = M"
proof (cases "a = 0")
  case True
  have M: "0 < M" using assms(1) by (rule odd_pos)
  have "rr_pos M r a + rr_pos M r b = M \<longleftrightarrow> (2 * b + 2 * r) mod M = 0" if "r < M" for r
  proof -
    have "rr_pos M r a + rr_pos M r b = M \<longleftrightarrow> Suc ((b - 1 + r) mod M) = M"
      using True assms(2) by (simp add: rr_pos_def)
    also have "\<dots> \<longleftrightarrow> (b - 1 + r + 1) mod M = 0" by (simp add: mod_Suc)
    also have "\<dots> \<longleftrightarrow> (b + r) mod M = 0" using True assms(2) by simp
    also have "\<dots> \<longleftrightarrow> (2 * (b + r)) mod M = 0"
    proof -
      have "coprime M 2" using assms(1) by simp
      then show ?thesis unfolding mod_eq_0_iff_dvd by (simp only: coprime_dvd_mult_right_iff)
    qed
    finally show ?thesis by (simp only: distrib_left)
  qed
  then show ?thesis using odd_double_solution [OF assms(1), of "2 * b"] by (simp cong: conj_cong)
next
  case False
  have M: "0 < M" using assms(1) by (rule odd_pos)
  have "rr_pos M r a + rr_pos M r b = M \<longleftrightarrow> (a + b + 2 * r) mod M = 0" if "r < M" for r
  proof -
    let ?u = "(a - 1 + r) mod M" and ?v = "(b - 1 + r) mod M"
    have "?u \<noteq> ?v"
    proof
      assume eq: "?u = ?v"
      have "((a - 1 + r) mod M + M - r) mod M = ((b - 1 + r) mod M + M - r) mod M" by (simp only: eq)
      then have "a - 1 = b - 1"
        using mod_back(1) [of "a - 1" M r] mod_back(1) [of "b - 1" M r] assms(2,3) \<open>r < M\<close> False
        by linarith
      then show False using assms(2) False by linarith
    qed
    then have "Suc ?u + Suc ?v = M \<longleftrightarrow> (?u + ?v + 2) mod M = 0"
      using M by (intro two_mods) simp_all
    also have "(?u + ?v + 2) mod M = (a - 1 + r + (b - 1 + r) + 2) mod M"
      by (rule mod_add_cong) (simp_all only: mod_add_eq)
    also have "a - 1 + r + (b - 1 + r) + 2 = a + b + 2 * r" using False assms(2) by linarith
    finally show ?thesis using False assms(2) by (simp add: rr_pos_def)
  qed
  then show ?thesis using odd_double_solution [OF assms(1), of "a + b"] by (simp cong: conj_cong)
qed


text \<open>The members of a round are pairwise different.\<close>

lemma concat_map_concat: "concat (map f (concat xss)) = concat (map (\<lambda>xs. concat (map f xs)) xss)"
  by (induction xss) simp_all

lemma rr_round_members:
  assumes "odd M" "r \<le> M"
  shows "distinct (concat (map (\<lambda>(a, b). [a, b]) (rr_round n bye (Suc M) (rr_array M r))))"
proof -
  let ?arr = "rr_array M r" and ?h = "Suc M div 2"
  have M: "0 < M" using assms(1) by (rule odd_pos)
  have inj: "i = j" if "?arr ! i = ?arr ! j" "i \<le> M" "j \<le> M" for i j
    using arg_cong [OF that(1), of "rr_pos M r"]
    unfolding rr_pos_array [OF assms(2) that(2) M] rr_pos_array [OF assms(2) that(3) M] .
  let ?f = "\<lambda>i. if bye \<and> (?arr ! i = n \<or> ?arr ! (M - i) = n) then [] else [?arr ! i, ?arr ! (M - i)]"
  have e: "concat (map (\<lambda>(a, b). [a, b]) (rr_round n bye (Suc M) ?arr))
      = concat (map ?f [0..<?h])"
    unfolding rr_round_def concat_map_concat map_map
    by (rule arg_cong [where f = concat], rule map_cong) (simp_all add: Let_def)
  have half: "2 * i < M" if "i < ?h" for i using that assms(1) by (auto elim!: oddE)
  show ?thesis unfolding e
  proof (rule distinct_concat_rows)
    fix i assume i: "i < ?h"
    then have "?arr ! i \<noteq> ?arr ! (M - i)" using inj [of i "M - i"] half [OF i] by auto
    then show "distinct (?f i)" by simp
  next
    fix i j assume ij: "i < ?h" "j < ?h" "i \<noteq> j"
    then have "2 * i < M" "2 * j < M" by (simp_all add: half)
    then have "?arr ! i \<noteq> ?arr ! j" "?arr ! i \<noteq> ?arr ! (M - j)" "?arr ! (M - i) \<noteq> ?arr ! j"
      "?arr ! (M - i) \<noteq> ?arr ! (M - j)"
      using ij(3) inj [of i j] inj [of i "M - j"] inj [of "M - i" j] inj [of "M - i" "M - j"]
      by auto
    then show "set (?f i) \<inter> set (?f j) = {}" by auto
  qed
qed

lemma roundRobin_rounds:
  assumes "2 \<le> n" "n + 1 < 2 ^ 32"
  obtains M where "odd M" "n \<le> Suc M" "Suc M \<le> n + n mod 2" "length (roundRobinPairs n) = M"
    "\<And>r. r < M \<Longrightarrow> roundRobinPairs n ! r = rr_round n (n mod 2 \<noteq> 0) (Suc M) (rr_array M r)"
proof -
  define M where "M = (if n mod 2 = 0 then n - 1 else n)"
  have odd: "odd M" using assms(1) by (cases "even n") (simp_all add: M_def even_iff_mod_2_eq_zero [symmetric])
  have m: "(if n mod 2 \<noteq> 0 then w32 (n + 1) else n) = Suc M"
    using assms by (auto simp: M_def)
  have rr: "roundRobinPairs n = rr_rounds n (n mod 2 \<noteq> 0) (Suc M) M (rr_array M 0)"
    using assms(1) by (simp only: roundRobinPairs_def Let_def m rr_array_0) simp
  show ?thesis
  proof (rule that [OF odd])
    show "n \<le> Suc M" "Suc M \<le> n + n mod 2" using assms(1) by (simp_all add: M_def)
    show "length (roundRobinPairs n) = M" by (simp add: rr)
    show "roundRobinPairs n ! r = rr_round n (n mod 2 \<noteq> 0) (Suc M) (rr_array M r)" if "r < M" for r
      unfolding rr using rr_rounds_nth [of r M 0 M] that by simp
  qed
qed

lemma rr_pair_once:
  assumes "2 \<le> n" "n + 1 < 2 ^ 32" "a < b" "b < n"
  shows "\<exists>!r. r < length (roundRobinPairs n) \<and>
    ((a, b) \<in> set (roundRobinPairs n ! r) \<or> (b, a) \<in> set (roundRobinPairs n ! r))"
proof -
  from assms(1,2) obtain M where M: "odd M" "n \<le> Suc M" "length (roundRobinPairs n) = M"
    "\<And>r. r < M \<Longrightarrow> roundRobinPairs n ! r = rr_round n (n mod 2 \<noteq> 0) (Suc M) (rr_array M r)"
    using roundRobin_rounds [OF assms(1,2)] by metis
  have "(a, b) \<in> set (roundRobinPairs n ! r) \<or> (b, a) \<in> set (roundRobinPairs n ! r)
      \<longleftrightarrow> rr_pos M r a + rr_pos M r b = M" if "r < M" for r
    unfolding M(4) [OF that] using that assms(3,4) M(1,2) by (intro rr_round_pos) simp_all
  then show ?thesis
    using pos_sum_solution [OF M(1) assms(3)] assms(4) M(2,3) by (simp cong: conj_cong)
qed

text \<open>A pair of the schedule consists of two different cpus of the list.\<close>

lemma rr_pair_range:
  assumes "2 \<le> n" "n + 1 < 2 ^ 32" "(a, b) \<in> set (concat (roundRobinPairs n))"
  shows "a < n \<and> b < n \<and> a \<noteq> b"
proof -
  from assms(1,2) obtain M where M: "odd M" "n \<le> Suc M" "Suc M \<le> n + n mod 2" "length (roundRobinPairs n) = M"
    "\<And>r. r < M \<Longrightarrow> roundRobinPairs n ! r = rr_round n (n mod 2 \<noteq> 0) (Suc M) (rr_array M r)"
    using roundRobin_rounds [OF assms(1,2)] by metis
  from assms(3) obtain r where r: "r < M" "(a, b) \<in> set (rr_round n (n mod 2 \<noteq> 0) (Suc M) (rr_array M r))"
  proof -
    obtain rd where rd: "rd \<in> set (roundRobinPairs n)" "(a, b) \<in> set rd" using assms(3) by auto
    then obtain r where "r < M" "rd = roundRobinPairs n ! r" by (metis in_set_conv_nth M(4))
    with rd(2) M(5) that show ?thesis by simp
  qed
  have "0 < M" using M(1) by (rule odd_pos)
  obtain i where i: "i < Suc M div 2" "a = rr_array M r ! i" "b = rr_array M r ! (M - i)"
    "\<not> (n mod 2 \<noteq> 0 \<and> (a = n \<or> b = n))" using r(2) by (auto simp: rr_round_mem)
  then have "a \<le> M" "b \<le> M" using r(1) \<open>0 < M\<close> by (auto intro: rr_array_le)
  moreover have "a \<noteq> b"
    using rr_round_members [OF M(1), of r n "n mod 2 \<noteq> 0"] r by (fastforce dest!: split_list)
  ultimately show ?thesis using M(2,3) i(4) by (cases "n mod 2 = 0") (auto simp: le_less)
qed

text \<open>
  C22. The probe schedule is a one-factorisation of the complete graph: for at least two cpus,
  every two of them are paired in exactly one round, and no cpu occurs twice in a round, so that
  the measurements of a round run on disjoint cpus.
\<close>

theorem roundRobinPairs_schedule:
  assumes "2 \<le> n" and "n + 1 < 2 ^ 32"
  shows "(\<forall>b<n. \<forall>a<b. \<exists>!r. r < length (roundRobinPairs n) \<and>
      ((a, b) \<in> set (roundRobinPairs n ! r) \<or> (b, a) \<in> set (roundRobinPairs n ! r))) \<and>
    (\<forall>round \<in> set (roundRobinPairs n). distinct (concat (map (\<lambda>(a, b). [a, b]) round)))"
proof -
  from assms obtain M where M: "odd M" "length (roundRobinPairs n) = M"
    "\<And>r. r < M \<Longrightarrow> roundRobinPairs n ! r = rr_round n (n mod 2 \<noteq> 0) (Suc M) (rr_array M r)"
    using roundRobin_rounds [OF assms] by metis
  have "distinct (concat (map (\<lambda>(a, b). [a, b]) round))"
    if round: "round \<in> set (roundRobinPairs n)" for round
  proof -
    from round obtain r where "r < M" "round = roundRobinPairs n ! r"
      by (auto simp: in_set_conv_nth M(2))
    then show ?thesis using rr_round_members [OF M(1)] by (simp add: M(3))
  qed
  then show ?thesis using rr_pair_once [OF assms] by blast
qed

theorem roundRobinPairs_schedule_witness:
  "\<exists>!r. r < length (roundRobinPairs 5) \<and>
    ((1, 3) \<in> set (roundRobinPairs 5 ! r) \<or> (3, 1) \<in> set (roundRobinPairs 5 ! r))"
  using roundRobinPairs_schedule [of 5] by simp

end
