(* ===== verification/Cluster.thy ===== *)
theory Cluster
  imports Arith ProbeBlob RoundRobin "HOL-Library.Code_Target_Nat"
begin

text \<open>
  The measurement loop of the coherence probe and the clustering of its matrix
  (\<open>coherence_probe.h\<close>): \<open>probeLatencyMatrix\<close> over the disjoint-pair schedule, Otsu's threshold on
  the histogram of the log-latencies, \<open>clusterByLatency\<close> (union-find with path halving on the
  pairs below the threshold, or the L3 groups of the system as a fallback), the median distances,
  and \<open>runCoherenceProbe\<close>. One ping-pong measurement is a parameter \<open>ping a b\<close>.
\<close>

section \<open>Otsu's threshold\<close>

text \<open>The further operations on \<open>double\<close> that the clustering uses.\<close>

record 'f fpx = "'f fp" +
  fx_one :: 'f
  fx_half :: 'f
  fx_infinity :: 'f
  fx_div :: "'f \<Rightarrow> 'f \<Rightarrow> 'f"
  fx_log :: "'f \<Rightarrow> 'f"
  fx_trunc :: "'f \<Rightarrow> nat"              \<comment> \<open>\<open>static_cast<std::size_t>\<close>\<close>
  fx_bimodalCutoff :: 'f               \<comment> \<open>the literal \<open>0.55\<close>\<close>

definition std_min :: "('f, 'x) fp_scheme \<Rightarrow> 'f \<Rightarrow> 'f \<Rightarrow> 'f" where
  "std_min ops a b = (if fp_lt ops b a then b else a)"

definition std_max :: "('f, 'x) fp_scheme \<Rightarrow> 'f \<Rightarrow> 'f \<Rightarrow> 'f" where
  "std_max ops a b = (if fp_lt ops a b then b else a)"

definition kBins :: nat where
  "kBins = 64"

definition otsu_range :: "'f fpx \<Rightarrow> 'f list \<Rightarrow> 'f \<times> 'f" where
  "otsu_range ops vs = foldl (\<lambda>(minV, maxV) v.
     if fp_le ops v (fp_zero ops) then (minV, maxV)
     else let lv = fx_log ops v in (std_min ops minV lv, std_max ops maxV lv))
     (fx_infinity ops, fp_neg ops (fx_infinity ops)) vs"

definition otsu_bin :: "'f fpx \<Rightarrow> 'f \<Rightarrow> 'f \<Rightarrow> 'f \<Rightarrow> nat" where
  "otsu_bin ops minV maxV v =
     (let bin = fx_trunc ops (fp_mul ops (fx_div ops (fp_sub ops (fx_log ops v) minV) (fp_sub ops maxV minV))
        (fp_of_nat ops (kBins - 1)))
      in if bin \<ge> kBins then kBins - 1 else bin)"

definition otsu_hist :: "'f fpx \<Rightarrow> 'f \<Rightarrow> 'f \<Rightarrow> 'f list \<Rightarrow> nat list" where
  "otsu_hist ops minV maxV vs = foldl (\<lambda>hist v.
     if fp_le ops v (fp_zero ops) then hist
     else let bin = otsu_bin ops minV maxV v in hist[bin := w32 (hist ! bin + 1)])
     (replicate kBins 0) vs"

definition otsu_sumAll :: "'f fpx \<Rightarrow> nat list \<Rightarrow> 'f" where
  "otsu_sumAll ops hist = foldl (\<lambda>sumAll b.
     fp_add ops sumAll (fp_mul ops (fp_of_nat ops (hist ! b)) (fp_of_nat ops b))) (fp_zero ops) [0..<kBins]"

text \<open>One bin of the search for the largest between-class variance.\<close>

definition otsu_scan_bin :: "'f fpx \<Rightarrow> nat list \<Rightarrow> nat \<Rightarrow> 'f \<Rightarrow> nat \<times> 'f \<times> 'f \<times> nat \<Rightarrow> nat \<Rightarrow> nat \<times> 'f \<times> 'f \<times> nat" where
  "otsu_scan_bin ops hist cnt sumAll st b =
     (case st of (cumCount, cumSum, bestVar, bestBin) \<Rightarrow>
      (let cumCount' = cumCount + hist ! b;
           cumSum' = fp_add ops cumSum (fp_mul ops (fp_of_nat ops (hist ! b)) (fp_of_nat ops b))
       in if cumCount' = 0 \<or> cumCount' = cnt then (cumCount', cumSum', bestVar, bestBin)
          else
            let w0 = fx_div ops (fp_of_nat ops cumCount') (fp_of_nat ops cnt);
                w1 = fp_sub ops (fx_one ops) w0;
                m0 = fx_div ops cumSum' (fp_of_nat ops cumCount');
                m1 = fx_div ops (fp_sub ops sumAll cumSum') (fp_of_nat ops (cnt - cumCount'));
                d = fp_sub ops m0 m1;
                bcv = fp_mul ops (fp_mul ops (fp_mul ops w0 w1) d) d
            in if fp_lt ops bestVar bcv then (cumCount', cumSum', bcv, b)
               else (cumCount', cumSum', bestVar, bestBin)))"

definition otsu_variance :: "'f fpx \<Rightarrow> nat list \<Rightarrow> nat \<Rightarrow> 'f \<Rightarrow> 'f" where
  "otsu_variance ops hist cnt sumAll =
     (let mean = fx_div ops sumAll (fp_of_nat ops cnt) in
      fx_div ops (foldl (\<lambda>tv b. let diff = fp_sub ops (fp_of_nat ops b) mean in
        fp_add ops tv (fp_mul ops (fp_mul ops (fp_of_nat ops (hist ! b)) diff) diff)) (fp_zero ops) [0..<kBins])
        (fp_of_nat ops cnt))"

record 'f OtsuResult =
  ot_threshold :: 'f
  ot_bimodality :: 'f

definition otsuThresholdLog :: "'f fpx \<Rightarrow> 'f list \<Rightarrow> 'f OtsuResult" where
  "otsuThresholdLog ops vs =
     (let none = \<lparr> ot_threshold = fp_zero ops, ot_bimodality = fp_zero ops \<rparr>;
          (minV, maxV) = otsu_range ops vs;
          hist = otsu_hist ops minV maxV vs;
          cnt = sum_list hist;
          sumAll = otsu_sumAll ops hist;
          (_, _, bestVar, bestBin) = foldl (otsu_scan_bin ops hist cnt sumAll)
             (0, fp_zero ops, fp_neg ops (fx_one ops), 0) [0..<kBins];
          tv = otsu_variance ops hist cnt sumAll
      in if length vs < 2 \<or> \<not> fp_lt ops minV maxV \<or> cnt = 0 then none
         else \<lparr> ot_threshold = fp_add ops minV (fp_mul ops
                  (fx_div ops (fp_add ops (fp_of_nat ops bestBin) (fx_half ops)) (fp_of_nat ops (kBins - 1)))
                  (fp_sub ops maxV minV)),
                ot_bimodality = (if fp_lt ops (fp_zero ops) tv then fx_div ops bestVar tv else fp_zero ops) \<rparr>)"

text \<open>The bins stay inside the histogram, and every positive value is counted in one.\<close>

lemma otsu_bin_less: "otsu_bin ops minV maxV v < kBins"
  by (simp add: otsu_bin_def Let_def kBins_def)

lemma otsu_hist_sum:
  assumes "length vs < 2 ^ 32"
  shows "length (otsu_hist ops minV maxV vs) = kBins \<and>
    sum_list (otsu_hist ops minV maxV vs) = length (filter (\<lambda>v. \<not> fp_le ops v (fp_zero ops)) vs)"
proof -
  let ?step = "\<lambda>hist v. if fp_le ops v (fp_zero ops) then hist
     else let bin = otsu_bin ops minV maxV v in hist[bin := w32 (hist ! bin + 1)]"
  have "length (foldl ?step h vs) = kBins \<and>
      sum_list (foldl ?step h vs) = sum_list h + length (filter (\<lambda>v. \<not> fp_le ops v (fp_zero ops)) vs)"
    if "length h = kBins" "sum_list h + length vs < 2 ^ 32" for h
    using that
  proof (induction vs arbitrary: h)
    case (Cons v vs)
    let ?b = "otsu_bin ops minV maxV v"
    have b: "?b < length h" using otsu_bin_less Cons.prems(1) by simp
    then have "h ! ?b \<le> sum_list h" by (simp add: elem_le_sum_list)
    then have w: "w32 (h ! ?b + 1) = h ! ?b + 1" using Cons.prems(2) by simp
    have "sum_list (h[?b := h ! ?b + 1]) = Suc (sum_list h)"
      using b \<open>h ! ?b \<le> sum_list h\<close> by (simp add: sum_list_update)
    with Cons.IH [of h] Cons.IH [of "h[?b := h ! ?b + 1]"] Cons.prems w show ?case by (simp add: Let_def)
  qed simp
  from this [of "replicate kBins 0"] assms show ?thesis by (simp add: otsu_hist_def sum_list_replicate)
qed

section \<open>Union-find with path halving\<close>

partial_function (option) uf_find :: "nat list \<Rightarrow> nat \<Rightarrow> (nat list \<times> nat) option" where
  "uf_find parent x =
     (if parent ! x = x then Some (parent, x)
      else let parent' = parent[x := parent ! (parent ! x)] in uf_find parent' (parent' ! x))"

lemmas [code] = uf_find.simps

definition uf_unite :: "nat list \<Rightarrow> nat \<Rightarrow> nat \<Rightarrow> nat list option" where
  "uf_unite parent a b =
     do { (p1, ra) \<leftarrow> uf_find parent a;
          (p2, rb) \<leftarrow> uf_find p1 b;
          Some (if ra \<noteq> rb then p2[ra := rb] else p2) }"

fun uf_unite_all :: "(nat \<Rightarrow> nat \<Rightarrow> bool) \<Rightarrow> nat list \<Rightarrow> (nat \<times> nat) list \<Rightarrow> nat list option" where
  "uf_unite_all fast p [] = Some p"
| "uf_unite_all fast p ((i, j) # es) =
     (if fast i j then do { p' \<leftarrow> uf_unite p i j; uf_unite_all fast p' es } else uf_unite_all fast p es)"

text \<open>The pairs \<open>i < j\<close> in the order of the two nested loops.\<close>

definition upper_pairs :: "nat \<Rightarrow> (nat \<times> nat) list" where
  "upper_pairs n = concat (map (\<lambda>i. map (Pair i) [Suc i..<n]) [0..<n])"

lemma set_upper_pairs: "set (upper_pairs n) = {(i, j). i < j \<and> j < n}"
  unfolding upper_pairs_def set_concat set_map by fastforce

text \<open>
  The forest invariant: \<open>R\<close> is the root of an index, \<open>h\<close> grows along the parent edges.
\<close>

definition uf_ok :: "(nat \<Rightarrow> nat) \<Rightarrow> (nat \<Rightarrow> nat) \<Rightarrow> nat list \<Rightarrow> bool" where
  "uf_ok R h p = (\<forall>x < length p. p ! x < length p \<and> R x < length p \<and> R (p ! x) = R x \<and> p ! R x = R x \<and>
     (p ! x = x \<longrightarrow> R x = x) \<and> (p ! x \<noteq> x \<longrightarrow> h x < h (p ! x)))"

lemma uf_okD:
  assumes "uf_ok R h p" "x < length p"
  shows "p ! x < length p" "R x < length p" "R (p ! x) = R x" "p ! R x = R x" "p ! x = x \<Longrightarrow> R x = x"
    "p ! x \<noteq> x \<Longrightarrow> h x < h (p ! x)"
  using assms unfolding uf_ok_def by blast+

lemma uf_halve:
  assumes ok: "uf_ok R h p" and x: "x < length p" "p ! x \<noteq> x"
  shows "uf_ok R h (p[x := p ! (p ! x)])" "h x < h (p ! (p ! x))"
proof -
  have px: "p ! x < length p" using uf_okD(1) [OF ok x(1)] .
  show lt: "h x < h (p ! (p ! x))"
    using uf_okD(6) [OF ok x] uf_okD(6) [OF ok px] by (cases "p ! (p ! x) = p ! x") auto
  have ppx: "p ! (p ! x) \<noteq> x" "p ! (p ! x) < length p" "R (p ! (p ! x)) = R x"
    using lt uf_okD(1,3) [OF ok px] uf_okD(3) [OF ok x(1)] by auto
  have root: "R y \<noteq> x" if "y < length p" for y using uf_okD(4) [OF ok that] x(2) by auto
  show "uf_ok R h (p[x := p ! (p ! x)])"
    unfolding uf_ok_def length_list_update
  proof (intro allI impI)
    fix y assume y: "y < length p"
    note d = uf_okD [OF ok y] and r = root [OF y]
    show "p[x := p ! (p ! x)] ! y < length p \<and> R y < length p \<and> R (p[x := p ! (p ! x)] ! y) = R y \<and>
        p[x := p ! (p ! x)] ! R y = R y \<and> (p[x := p ! (p ! x)] ! y = y \<longrightarrow> R y = y) \<and>
        (p[x := p ! (p ! x)] ! y \<noteq> y \<longrightarrow> h y < h (p[x := p ! (p ! x)] ! y))"
      using d r ppx lt x(1) by (cases "y = x") simp_all
  qed
qed

lemma uf_find_ok:
  assumes "uf_ok R h p" "x < length p"
  shows "\<exists>p'. uf_find p x = Some (p', R x) \<and> uf_ok R h p' \<and> length p' = length p"
proof -
  define B where "B = Max (h ` {..<length p})"
  have bound: "\<And>y. y < length p \<Longrightarrow> h y \<le> B" unfolding B_def by simp
  show ?thesis
    using assms bound
  proof (induction "B - h x" arbitrary: p x rule: less_induct)
    case less
    show ?case
    proof (cases "p ! x = x")
      case True
      with less.prems show ?thesis by (subst uf_find.simps) (auto dest: uf_okD(5))
    next
      case False
      let ?q = "p[x := p ! (p ! x)]" and ?y = "p ! (p ! x)"
      note q = uf_halve [OF less.prems(1,2) False]
      have y: "?y < length p" by (intro uf_okD(1) [OF less.prems(1)] less.prems(2))
      have "R ?y = R x" using uf_okD(1,3) [OF less.prems(1)] less.prems(2) by metis
      moreover have "\<exists>p'. uf_find ?q ?y = Some (p', R ?y) \<and> uf_ok R h p' \<and> length p' = length ?q"
        using less.hyps [OF _ q(1), of ?y] y q(2) less.prems(3) less.prems(3) [OF y]
        by (simp add: diff_less_mono2 less_le_trans)
      ultimately show ?thesis using less.prems(2) False by (subst uf_find.simps) (simp add: Let_def)
    qed
  qed
qed

text \<open>Connected by edges, in either direction.\<close>

definition conn :: "(nat \<times> nat) set \<Rightarrow> (nat \<times> nat) set" where
  "conn E = (E \<union> E\<inverse>)\<^sup>*"

definition uf_conn :: "(nat \<Rightarrow> nat) \<Rightarrow> nat \<Rightarrow> (nat \<times> nat) set \<Rightarrow> bool" where
  "uf_conn R n E = (\<forall>x < n. \<forall>y < n. R x = R y \<longleftrightarrow> (x, y) \<in> conn E)"

lemma conn_mono: "E \<subseteq> F \<Longrightarrow> conn E \<subseteq> conn F"
  unfolding conn_def by (intro rtrancl_mono) auto

lemma conn_insert_const:
  assumes step: "\<And>u v. (u, v) \<in> E \<Longrightarrow> R u = R v" and "(x, y) \<in> conn E"
  shows "R x = R y"
  using assms(2) unfolding conn_def by (induction rule: rtrancl_induct) (auto simp: step)

lemma uf_conn_insert:
  assumes c: "uf_conn R n E" and E: "E \<subseteq> {..<n} \<times> {..<n}" "i < n" "j < n"
  shows "uf_conn (\<lambda>x. if R x = R i then R j else R x) n (insert (i, j) E)"
proof -
  let ?R = "\<lambda>x. if R x = R i then R j else R x" and ?F = "insert (i, j) E"
  have in_E: "R u = R v" if "(u, v) \<in> E" for u v
  proof -
    have "(u, v) \<in> conn E" using that by (auto simp: conn_def)
    with c E that show ?thesis unfolding uf_conn_def by blast
  qed
  have F: "(u, v) \<in> conn ?F" if "R u = R v" "u < n" "v < n" for u v
    using c that conn_mono [of E ?F] unfolding uf_conn_def by blast
  have sym: "(v, u) \<in> conn ?F" if "(u, v) \<in> conn ?F" for u v
    using sym_rtrancl [OF sym_Un_converse] that unfolding conn_def by (rule symD)
  have tr: "(u, w) \<in> conn ?F" if "(u, v) \<in> conn ?F" "(v, w) \<in> conn ?F" for u v w
    using that unfolding conn_def by (rule rtrancl_trans)
  have ij: "(i, j) \<in> conn ?F" by (auto simp: conn_def)
  have "?R x = ?R y \<longleftrightarrow> (x, y) \<in> conn ?F" if xy: "x < n" "y < n" for x y
  proof
    assume "(x, y) \<in> conn ?F"
    then show "?R x = ?R y" by (rule conn_insert_const [rotated]) (auto simp: in_E)
  next
    assume "?R x = ?R y"
    then consider "R x = R y" | "R x = R i" "R y = R j" | "R x = R j" "R y = R i" by (auto split: if_splits)
    then show "(x, y) \<in> conn ?F"
    proof cases
      case 1
      then show ?thesis using F xy by blast
    next
      case 2
      then have "(x, i) \<in> conn ?F" "(j, y) \<in> conn ?F" using F xy E(2,3) by auto
      then show ?thesis using ij tr by blast
    next
      case 3
      then have "(x, j) \<in> conn ?F" "(i, y) \<in> conn ?F" using F xy E(2,3) by auto
      then show ?thesis using sym [OF ij] tr by blast
    qed
  qed
  then show ?thesis by (simp add: uf_conn_def)
qed

lemma uf_unite_ok:
  assumes ok: "uf_ok R h p" and i: "i < length p" and j: "j < length p"
  shows "\<exists>p' h'. uf_unite p i j = Some p' \<and> length p' = length p \<and>
    uf_ok (\<lambda>x. if R x = R i then R j else R x) h' p'"
proof -
  from uf_find_ok [OF ok i] obtain p1 where p1: "uf_find p i = Some (p1, R i)" "uf_ok R h p1" "length p1 = length p" by blast
  from uf_find_ok [OF p1(2), of j] j p1(3) obtain p2
    where p2: "uf_find p1 j = Some (p2, R j)" "uf_ok R h p2" "length p2 = length p" by auto
  show ?thesis
  proof (cases "R i = R j")
    case True
    then have "(\<lambda>x. if R x = R i then R j else R x) = R" by auto
    with True p1 p2 show ?thesis by (auto simp: uf_unite_def)
  next
    case False
    let ?a = "R i" and ?b = "R j"
    have r: "?a < length p2" "?b < length p2" "p2 ! ?a = ?a" "p2 ! ?b = ?b"
      using uf_okD(2,4) [OF p2(2)] i j p2(3) by simp_all
    then have Rr: "R ?a = ?a" "R ?b = ?b" using uf_okD(5) [OF p2(2)] by simp_all
    let ?h = "h(?b := max (h ?b) (Suc (h ?a)))" and ?q = "p2[?a := ?b]"
      and ?R = "\<lambda>x. if R x = ?a then ?b else R x"
    have "uf_ok ?R ?h ?q"
      unfolding uf_ok_def length_list_update
    proof (intro allI impI)
      fix y assume y: "y < length p2"
      note d = uf_okD [OF p2(2) y]
      show "?q ! y < length p2 \<and> ?R y < length p2 \<and> ?R (?q ! y) = ?R y \<and> ?q ! ?R y = ?R y \<and>
          (?q ! y = y \<longrightarrow> ?R y = y) \<and> (?q ! y \<noteq> y \<longrightarrow> ?h y < ?h (?q ! y))"
        using d r Rr False y by (cases "y = ?a") (auto simp: nth_list_update less_max_iff_disj)
    qed
    with False p1 p2 show ?thesis by (auto simp: uf_unite_def)
  qed
qed

lemma uf_unite_all_ok:
  assumes "uf_ok R h p" "uf_conn R (length p) E" "E \<subseteq> {..<length p} \<times> {..<length p}"
    "set es \<subseteq> {..<length p} \<times> {..<length p}"
  shows "\<exists>p' R' h'. uf_unite_all fast p es = Some p' \<and> length p' = length p \<and> uf_ok R' h' p' \<and>
    uf_conn R' (length p) (E \<union> {(i, j) \<in> set es. fast i j})"
  using assms
proof (induction es arbitrary: p R h E)
  case (Cons e es)
  obtain i j where e: "e = (i, j)" by (cases e)
  show ?case
  proof (cases "fast i j")
    case True
    have ij: "i < length p" "j < length p" using Cons.prems(4) e by auto
    from uf_unite_ok [OF Cons.prems(1) ij] obtain q h' where q: "uf_unite p i j = Some q" "length q = length p"
      "uf_ok (\<lambda>x. if R x = R i then R j else R x) h' q" by blast
    have "insert (i, j) E \<union> {(i, j) \<in> set es. fast i j} = E \<union> {(i, j) \<in> set (e # es). fast i j}"
      using True e by auto
    with Cons.IH [OF q(3), of "insert (i, j) E"] uf_conn_insert [OF Cons.prems(2,3) ij] Cons.prems(3,4) q(1,2) ij True e
    show ?thesis by auto
  next
    case False
    then have "{(i, j) \<in> set (e # es). fast i j} = {(i, j) \<in> set es. fast i j}" using e by auto
    with Cons.IH [OF Cons.prems(1-3)] Cons.prems(4) False e show ?thesis by simp
  qed
qed auto

section \<open>Dense cluster ids\<close>

text \<open>Roots are numbered_roots in the order of their first index; \<open>None\<close> is \<open>kUnassigned\<close>.\<close>

fun uf_compact :: "nat list \<Rightarrow> nat option list \<Rightarrow> nat \<Rightarrow> nat list \<Rightarrow> (nat \<times> nat list) option" where
  "uf_compact p rootTo nxt [] = Some (nxt, [])"
| "uf_compact p rootTo nxt (i # is) =
     do { (p', r) \<leftarrow> uf_find p i;
          (case rootTo ! r of
             Some k \<Rightarrow> do { (m, ids) \<leftarrow> uf_compact p' rootTo nxt is; Some (m, k # ids) }
           | None \<Rightarrow> do { (m, ids) \<leftarrow> uf_compact p' (rootTo[r := Some nxt]) (Suc nxt) is; Some (m, nxt # ids) }) }"

definition numbered_roots :: "nat option list \<Rightarrow> nat set" where
  "numbered_roots t = {r. r < length t \<and> t ! r \<noteq> None}"

lemma numbered_roots_update:
  "r < length t \<Longrightarrow> numbered_roots (t[r := Some k]) = insert r (numbered_roots t)"
  by (auto simp: numbered_roots_def nth_list_update)

lemma uf_compact_ok:
  assumes "uf_ok R h p" "length t = length p" "set is \<subseteq> {..<length p}"
    "bij_betw (\<lambda>r. the (t ! r)) (numbered_roots t) {..<nxt}"
  shows "\<exists>m f. uf_compact p t nxt is = Some (m, map (\<lambda>i. f (R i)) is) \<and>
    (\<forall>r \<in> numbered_roots t. f r = the (t ! r)) \<and> bij_betw f (numbered_roots t \<union> R ` set is) {..<m}"
  using assms
proof (induction "is" arbitrary: p t nxt)
  case Nil
  then show ?case by (intro exI [of _ nxt] exI [of _ "\<lambda>r. the (t ! r)"]) simp
next
  case (Cons i "is")
  have i: "i < length p" using Cons.prems(3) by simp
  from uf_find_ok [OF Cons.prems(1) i] obtain p' where p': "uf_find p i = Some (p', R i)" "uf_ok R h p'" "length p' = length p"
    by blast
  have r: "R i < length t" using uf_okD(2) [OF Cons.prems(1) i] Cons.prems(2) by simp
  show ?case
  proof (cases "t ! R i")
    case (Some k)
    have "R i \<in> numbered_roots t" using Some r by (simp add: numbered_roots_def)
    moreover from Cons.IH [OF p'(2), of t nxt] Cons.prems p'(3) obtain m f where
      "uf_compact p' t nxt is = Some (m, map (\<lambda>i. f (R i)) is)" "\<forall>r \<in> numbered_roots t. f r = the (t ! r)"
      "bij_betw f (numbered_roots t \<union> R ` set is) {..<m}" by auto
    ultimately show ?thesis using Some p'(1)
      by (intro exI [of _ m] exI [of _ f]) (auto simp: insert_absorb)
  next
    case None
    let ?t = "t[R i := Some nxt]"
    have n: "R i \<notin> numbered_roots t" using None by (simp add: numbered_roots_def)
    have "bij_betw (\<lambda>r. the (?t ! r)) (numbered_roots t) {..<nxt} = bij_betw (\<lambda>r. the (t ! r)) (numbered_roots t) {..<nxt}"
      by (rule bij_betw_cong) (use n r in \<open>auto simp: nth_list_update\<close>)
    then have "bij_betw (\<lambda>r. the (?t ! r)) (insert (R i) (numbered_roots t)) (insert nxt {..<nxt})"
      using notIn_Un_bij_betw [of "R i" "numbered_roots t" "\<lambda>r. the (?t ! r)" "{..<nxt}"] n Cons.prems(4) r by simp
    then have "bij_betw (\<lambda>r. the (?t ! r)) (numbered_roots ?t) {..<Suc nxt}"
      by (simp add: numbered_roots_update [OF r] lessThan_Suc)
    with Cons.IH [OF p'(2), of ?t "Suc nxt"] Cons.prems p'(3) obtain m f where
      f: "uf_compact p' ?t (Suc nxt) is = Some (m, map (\<lambda>i. f (R i)) is)" "\<forall>r \<in> numbered_roots ?t. f r = the (?t ! r)"
      "bij_betw f (numbered_roots ?t \<union> R ` set is) {..<m}" by auto
    have "f (R i) = nxt" "\<forall>r \<in> numbered_roots t. f r = the (t ! r)"
      using f(2) n r by (auto simp: numbered_roots_update [OF r] nth_list_update)
    then show ?thesis using None p'(1) f(1,3)
      by (intro exI [of _ m] exI [of _ f]) (simp add: numbered_roots_update [OF r] insert_commute)
  qed
qed

section \<open>The fallback to the system's L3 groups\<close>

text \<open>
  The table from cpu to group, a later group overriding an earlier one; it holds \<open>int32_t\<close> entries
  and a negative one counts as no entry. Orphans get ids of their own.
\<close>

definition group_entry :: "nat \<Rightarrow> nat option" where
  "group_entry k = (if w32 k < 2 ^ 31 then Some (w32 k) else None)"

definition sysfs_table :: "nat list list \<Rightarrow> nat option list" where
  "sysfs_table sysfsPrior =
     (let maxCpu = foldl (foldl max) 0 sysfsPrior in
      foldl (\<lambda>t (k, grp). foldl (\<lambda>t c. t[c := group_entry k]) t grp) (replicate (w32 (maxCpu + 1)) None)
        (enumerate 0 sysfsPrior))"

fun prior_ids :: "nat option list \<Rightarrow> nat \<Rightarrow> nat list \<Rightarrow> nat list" where
  "prior_ids t orphan [] = []"
| "prior_ids t orphan (cpu # cpus) =
     (case (if cpu < length t then t ! cpu else None) of
        Some k \<Rightarrow> k # prior_ids t orphan cpus
      | None \<Rightarrow> orphan # prior_ids t (w32 (orphan + 1)) cpus)"

lemma length_prior_ids [simp]: "length (prior_ids t orphan cpus) = length cpus"
  by (induction t orphan cpus rule: prior_ids.induct) (auto split: option.splits)

text \<open>A cpu of a group gets the group's number, the others are numbered_roots on from the groups.\<close>

definition sysfs_group :: "nat option list \<Rightarrow> nat \<Rightarrow> nat option" where
  "sysfs_group t cpu = (if cpu < length t then t ! cpu else None)"

lemma prior_ids_nth:
  assumes "orphan + length cpus < 2 ^ 32" "i < length cpus"
  shows "prior_ids t orphan cpus ! i = (case sysfs_group t (cpus ! i) of Some k \<Rightarrow> k
    | None \<Rightarrow> orphan + length (filter (\<lambda>c. sysfs_group t c = None) (take i cpus)))"
  using assms
proof (induction t orphan cpus arbitrary: i rule: prior_ids.induct)
  case (2 t orphan cpu cpus)
  then show ?case
    by (cases i; cases "sysfs_group t cpu") (auto simp: sysfs_group_def split: if_splits option.splits)
qed simp

section \<open>The clusters and their distances\<close>

fun fp_insert :: "('f, 'x) fp_scheme \<Rightarrow> 'f \<Rightarrow> 'f list \<Rightarrow> 'f list" where
  "fp_insert ops x [] = [x]"
| "fp_insert ops x (y # ys) = (if fp_lt ops y x then y # fp_insert ops x ys else x # y # ys)"

text \<open>\<open>std::sort\<close> of a bucket and its middle element; an empty bucket leaves the zero of \<open>assign\<close>.\<close>

definition bucket_median :: "('f, 'x) fp_scheme \<Rightarrow> 'f list \<Rightarrow> 'f" where
  "bucket_median ops xs = (if xs = [] then fp_zero ops else foldr (fp_insert ops) xs [] ! (length xs div 2))"

definition bucket :: "nat list \<Rightarrow> 'f list list \<Rightarrow> nat \<Rightarrow> nat \<Rightarrow> 'f list" where
  "bucket ids mat a b = concat (map (\<lambda>(i, j). let ci = ids ! i; cj = ids ! j in
     (if ci = a \<and> cj = b then [mat ! i ! j] else []) @ (if ci \<noteq> cj \<and> cj = a \<and> ci = b then [mat ! i ! j] else []))
     (upper_pairs (length ids)))"

definition clusterDistance :: "('f, 'x) fp_scheme \<Rightarrow> nat list \<Rightarrow> 'f list list \<Rightarrow> nat \<Rightarrow> 'f list list" where
  "clusterDistance ops ids mat k =
     map (\<lambda>a. map (\<lambda>b. bucket_median ops (bucket ids mat a b)) [0..<k]) [0..<k]"

definition offDiag :: "'f list list \<Rightarrow> nat \<Rightarrow> 'f list" where
  "offDiag mat n = map (\<lambda>(i, j). mat ! i ! j) (upper_pairs n)"

definition fast_pair :: "'f fpx \<Rightarrow> 'f list list \<Rightarrow> nat \<Rightarrow> nat \<Rightarrow> nat \<Rightarrow> bool" where
  "fast_pair ops mat n i j =
     (fp_lt ops (fp_zero ops) (mat ! i ! j) \<and>
      fp_le ops (fx_log ops (mat ! i ! j)) (ot_threshold (otsuThresholdLog ops (offDiag mat n))))"

definition otsu_trusted :: "'f fpx \<Rightarrow> 'f list list \<Rightarrow> nat \<Rightarrow> bool" where
  "otsu_trusted ops mat n =
     (length (offDiag mat n) \<ge> 10 \<and>
      fp_le ops (fx_bimodalCutoff ops) (ot_bimodality (otsuThresholdLog ops (offDiag mat n))))"

definition cluster_ids :: "'f fpx \<Rightarrow> 'f list list \<Rightarrow> nat list \<Rightarrow> nat list list \<Rightarrow> (nat list \<times> nat) option" where
  "cluster_ids ops mat cpus sysfsPrior =
     (let n = length cpus in
      if otsu_trusted ops mat n then
        do { parent \<leftarrow> uf_unite_all (fast_pair ops mat n) [0..<n] (upper_pairs n);
             (k, ids) \<leftarrow> uf_compact parent (replicate n None) 0 [0..<n];
             Some (ids, k) }
      else if sysfsPrior \<noteq> [] then
        (let ids = prior_ids (sysfs_table sysfsPrior) (w32 (length sysfsPrior)) cpus
         in Some (ids, w32 (foldl max 0 ids + 1)))
      else Some (replicate n 0, 1))"

definition clusterByLatency :: "'f fpx \<Rightarrow> 'f LatencyMatrix \<Rightarrow> nat list list \<Rightarrow> 'f ClusterResult option" where
  "clusterByLatency ops mat sysfsPrior =
     (let n = length (lm_cpus mat) in
      if \<not> lm_valid mat \<or> n < 2 then
        Some (if n > 0
          then \<lparr> cr_clusterIdOfCpuIndex = replicate n 0, cr_numClusters = 1, cr_clusterDistanceNs = [[fp_zero ops]] \<rparr>
          else \<lparr> cr_clusterIdOfCpuIndex = [], cr_numClusters = 0, cr_clusterDistanceNs = [] \<rparr>)
      else do { (ids, k) \<leftarrow> cluster_ids ops (lm_matrix mat) (map unat (lm_cpus mat)) sysfsPrior;
        Some \<lparr> cr_clusterIdOfCpuIndex = map word_of_nat ids, cr_numClusters = word_of_nat k,
          cr_clusterDistanceNs = clusterDistance ops ids (lm_matrix mat) k \<rparr> })"

lemma foldl_max_ge: "m \<le> foldl max m xs" for m :: nat
  by (induction xs arbitrary: m) (auto intro: order_trans [OF max.cobounded1])

lemma foldl_max: "x \<in> set xs \<Longrightarrow> x \<le> foldl max m xs" for m :: nat
proof (induction xs arbitrary: m)
  case (Cons y ys)
  then show ?case using foldl_max_ge [of "max m y" ys] by auto
qed simp

lemma foldl_max_less: "m < b \<Longrightarrow> \<forall>x \<in> set xs. x < b \<Longrightarrow> foldl max m xs < b" for m :: nat
  by (induction xs arbitrary: m) auto

lemma sysfs_table_less: "Some k \<in> set (sysfs_table sysfsPrior) \<Longrightarrow> k < length sysfsPrior"
proof -
  have inner: "set (foldl (\<lambda>t c. t[c := e]) t grp) \<subseteq> insert e (set t)" for e :: "nat option" and t and grp :: "nat list"
    by (induction grp arbitrary: t) (auto dest!: subsetD [OF set_update_subset_insert] subsetD)
  have "set (foldl (\<lambda>t (k, grp). foldl (\<lambda>t c. t[c := group_entry k]) t grp) t xs)
      \<subseteq> group_entry ` fst ` set xs \<union> set t"
    for t :: "nat option list" and xs :: "(nat \<times> nat list) list"
    using inner by (induction xs arbitrary: t) fastforce+
  then have "set (sysfs_table sysfsPrior) \<subseteq> group_entry ` {..<length sysfsPrior} \<union> {None}"
    unfolding sysfs_table_def Let_def by (fastforce simp: in_set_enumerate_eq)
  moreover have "k < n" if "group_entry i = Some k" "i < n" for i n
    using that mod_less_eq_dividend [of i "2 ^ 32"] by (auto simp: group_entry_def w32_def split: if_splits)
  ultimately show "Some k \<in> set (sysfs_table sysfsPrior) \<Longrightarrow> k < length sysfsPrior" by fastforce
qed

text \<open>The entry of a cpu is the last group that has it.\<close>

definition last_group :: "nat list list \<Rightarrow> nat \<Rightarrow> nat \<Rightarrow> bool" where
  "last_group sysfsPrior cpu k \<longleftrightarrow> k < length sysfsPrior \<and> cpu \<in> set (sysfsPrior ! k) \<and>
     (\<forall>l. k < l \<and> l < length sysfsPrior \<longrightarrow> cpu \<notin> set (sysfsPrior ! l))"

lemma nth_foldl_update:
  "c < length t \<Longrightarrow> foldl (\<lambda>t c. t[c := e]) t grp ! c = (if c \<in> set grp then e else t ! c)"
  by (induction grp arbitrary: t) (auto simp: nth_list_update)

lemma length_foldl_update [simp]: "length (foldl (\<lambda>t c. t[c := e]) t grp) = length t"
  by (induction grp arbitrary: t) simp_all

lemma last_group_snoc:
  "last_group (gs @ [g]) cpu k \<longleftrightarrow> (if cpu \<in> set g then k = length gs else last_group gs cpu k)"
proof (cases "cpu \<in> set g")
  case True
  then have "last_group (gs @ [g]) cpu (length gs)" by (auto simp: last_group_def)
  moreover have "k = length gs" if "last_group (gs @ [g]) cpu k"
    using that True unfolding last_group_def
    by (metis length_append_singleton lessI less_antisym nth_append_length)
  ultimately show ?thesis using True by auto
next
  case False
  have "(\<forall>l. k < l \<and> l < Suc (length gs) \<longrightarrow> cpu \<notin> set ((gs @ [g]) ! l)) \<longleftrightarrow>
      (\<forall>l. k < l \<and> l < length gs \<longrightarrow> cpu \<notin> set (gs ! l))"
    using False by (metis less_Suc_eq nth_append nth_append_length)
  then show ?thesis using False by (auto simp: last_group_def nth_append)
qed

lemma foldl_groups:
  fixes gs :: "nat list list"
  assumes "c < n" "length gs \<le> 2 ^ 31"
  defines "f \<equiv> \<lambda>t (k, grp). foldl (\<lambda>t c. t[c := group_entry k]) t grp"
  shows "length (foldl f (replicate n None) (enumerate 0 gs)) = n \<and>
    (foldl f (replicate n None) (enumerate 0 gs) ! c = Some k \<longleftrightarrow> last_group gs c k)"
  using assms(1,2)
proof (induction gs rule: rev_induct)
  case Nil
  then show ?case by (simp add: last_group_def)
next
  case (snoc g gs)
  have e: "group_entry (length gs) = Some (length gs)" using snoc.prems(2) by (simp add: group_entry_def)
  let ?t = "foldl f (replicate n None) (enumerate 0 gs)"
  have IH: "length ?t = n" "?t ! c = Some k \<longleftrightarrow> last_group gs c k" using snoc by simp_all
  have t: "foldl f (replicate n None) (enumerate 0 (gs @ [g])) = foldl (\<lambda>t c. t[c := Some (length gs)]) ?t g"
    unfolding enumerate_append_eq by (simp add: f_def e)
  have "foldl (\<lambda>t c. t[c := Some (length gs)]) ?t g ! c = (if c \<in> set g then Some (length gs) else ?t ! c)"
    by (rule nth_foldl_update) (simp add: IH(1) snoc.prems(1))
  then show ?case unfolding t length_foldl_update IH(1) last_group_snoc using IH(2) by auto
qed

lemma foldl_foldl: "foldl (foldl f) x xss = foldl f x (concat xss)"
  by (induction xss arbitrary: x) simp_all

lemma sysfs_group_eq:
  assumes "length sysfsPrior \<le> 2 ^ 31" "\<forall>g \<in> set sysfsPrior. \<forall>c \<in> set g. c + 1 < 2 ^ 32"
  shows "sysfs_group (sysfs_table sysfsPrior) cpu = Some k \<longleftrightarrow> last_group sysfsPrior cpu k"
proof -
  define M where "M = foldl max 0 (concat sysfsPrior)"
  have "M < 2 ^ 32 - 1" unfolding M_def using assms(2) by (intro foldl_max_less) auto
  then have n: "w32 (M + 1) = M + 1" by simp
  have t: "sysfs_table sysfsPrior = foldl (\<lambda>t (k, grp). foldl (\<lambda>t c. t[c := group_entry k]) t grp)
      (replicate (M + 1) None) (enumerate 0 sysfsPrior)"
    unfolding sysfs_table_def Let_def foldl_foldl M_def [symmetric] n ..
  note f = foldl_groups [OF _ assms(1), of _ "M + 1", folded t]
  show ?thesis
  proof (cases "cpu < M + 1")
    case True
    with f [OF True] show ?thesis by (simp add: sysfs_group_def)
  next
    case False
    then have "\<not> last_group sysfsPrior cpu k"
      using foldl_max [of cpu "concat sysfsPrior" 0] unfolding last_group_def M_def
      by (metis UN_I nth_mem set_concat less_Suc_eq_le Suc_eq_plus1)
    moreover have "length (sysfs_table sysfsPrior) = M + 1" using f [of 0 k] by simp
    ultimately show ?thesis using False by (simp add: sysfs_group_def)
  qed
qed

text \<open>Two cpus get the same id if they are the same index or in the same group.\<close>

lemma count_take_less:
  assumes "i < j" "i < length xs" "P (xs ! i)"
  shows "length (filter P (take i xs)) < length (filter P (take j xs))"
proof -
  have "take j xs = take i xs @ xs ! i # drop (Suc i) (take j xs)"
    using assms(1,2) id_take_nth_drop [of i "take j xs"] by (cases "j \<le> length xs") (auto simp: min_def)
  then have "filter P (take j xs) = filter P (take i xs) @ xs ! i # filter P (drop (Suc i) (take j xs))"
    using assms(3) by (metis filter.simps(2) filter_append)
  then show ?thesis by simp
qed

lemma prior_ids_eq:
  assumes "orphan + length cpus < 2 ^ 32" "\<forall>k. Some k \<in> set t \<longrightarrow> k < orphan" "i < length cpus" "j < length cpus"
  shows "prior_ids t orphan cpus ! i = prior_ids t orphan cpus ! j \<longleftrightarrow>
    i = j \<or> (\<exists>k. sysfs_group t (cpus ! i) = Some k \<and> sysfs_group t (cpus ! j) = Some k)"
proof -
  have "k < orphan" if "sysfs_group t c = Some k" for c k
    using that assms(2) by (auto simp: sysfs_group_def split: if_splits dest: nth_mem)
  moreover have "length (filter (\<lambda>c. sysfs_group t c = None) (take a cpus)) \<noteq>
      length (filter (\<lambda>c. sysfs_group t c = None) (take b cpus))"
    if "sysfs_group t (cpus ! a) = None" "sysfs_group t (cpus ! b) = None" "a \<noteq> b" "a < length cpus" "b < length cpus"
    for a b
    using count_take_less [of a b cpus "\<lambda>c. sysfs_group t c = None"]
      count_take_less [of b a cpus "\<lambda>c. sysfs_group t c = None"] that by (cases "a < b") auto
  ultimately show ?thesis
    unfolding prior_ids_nth [OF assms(1,3)] prior_ids_nth [OF assms(1,4)] using assms(3,4)
    by (cases "sysfs_group t (cpus ! i)"; cases "sysfs_group t (cpus ! j)") (auto dest: sym less_le_trans)
qed

lemma clusterDistance_square: "square k (clusterDistance ops ids mat k)"
  by (simp add: clusterDistance_def square_def list_all_iff)

text \<open>The clustering returns, ids are in range, and in the bimodal case they are the connected components.\<close>

definition fast_edges :: "'f fpx \<Rightarrow> 'f list list \<Rightarrow> nat \<Rightarrow> (nat \<times> nat) set" where
  "fast_edges ops mat n = {(i, j). i < j \<and> j < n \<and> fast_pair ops mat n i j}"

text \<open>
  Which cpus belong together: those connected by fast pairs, if the histogram is trusted; else those
  of one group of the prior; without a prior all.
\<close>

definition same_cluster :: "'f fpx \<Rightarrow> 'f list list \<Rightarrow> nat list \<Rightarrow> nat list list \<Rightarrow> nat \<Rightarrow> nat \<Rightarrow> bool" where
  "same_cluster ops mat cpus sysfsPrior i j =
     (if otsu_trusted ops mat (length cpus) then (i, j) \<in> conn (fast_edges ops mat (length cpus))
      else sysfsPrior = [] \<or> i = j \<or>
        (\<exists>k. last_group sysfsPrior (cpus ! i) k \<and> last_group sysfsPrior (cpus ! j) k))"

definition prior_ok :: "nat list list \<Rightarrow> bool" where
  "prior_ok sysfsPrior \<longleftrightarrow> length sysfsPrior \<le> 2 ^ 31 \<and> (\<forall>g \<in> set sysfsPrior. \<forall>c \<in> set g. c + 1 < 2 ^ 32)"

text \<open>The trusted path: the numbered components.\<close>

lemma cluster_ids_components:
  assumes trusted: "otsu_trusted ops mat (length cpus)" and size: "length cpus < 2 ^ 30"
  shows "\<exists>ids k. cluster_ids ops mat cpus sysfsPrior = Some (ids, k) \<and> length ids = length cpus \<and>
    (\<forall>c \<in> set ids. c < k) \<and> k < 2 ^ 32 \<and>
    (otsu_trusted ops mat (length cpus) \<longrightarrow> set ids = {..<k}) \<and>
    (\<forall>i < length cpus. \<forall>j < length cpus. ids ! i = ids ! j \<longleftrightarrow> same_cluster ops mat cpus sysfsPrior i j)"
proof -
  let ?n = "length cpus"
  have "uf_ok (\<lambda>x. x) (\<lambda>_. 0) [0..<?n]" by (simp add: uf_ok_def)
  moreover have "uf_conn (\<lambda>x. x) (length [0..<?n]) {}" by (auto simp: uf_conn_def conn_def)
  moreover have edges: "{(i, j) \<in> set (upper_pairs ?n). fast_pair ops mat ?n i j} = fast_edges ops mat ?n"
    by (auto simp: set_upper_pairs fast_edges_def)
  ultimately obtain p R h where p: "uf_unite_all (fast_pair ops mat ?n) [0..<?n] (upper_pairs ?n) = Some p"
    "length p = ?n" "uf_ok R h p" "uf_conn R ?n (fast_edges ops mat ?n)"
    using uf_unite_all_ok [of "\<lambda>x. x" "\<lambda>_. 0" "[0..<?n]" "{}" "upper_pairs ?n" "fast_pair ops mat ?n"] edges
    by (fastforce simp: set_upper_pairs)
  have "numbered_roots (replicate ?n None) = {}" by (auto simp: numbered_roots_def)
  moreover have "set [0..<?n] \<subseteq> {..<?n}" by auto
  ultimately have "\<exists>m f. uf_compact p (replicate ?n None) 0 [0..<?n] = Some (m, map (\<lambda>i. f (R i)) [0..<?n]) \<and>
      bij_betw f (R ` set [0..<?n]) {..<m}"
    using uf_compact_ok [OF p(3), of "replicate ?n None" "[0..<?n]" 0] p(2) by (simp add: bij_betw_def)
  then obtain k f
    where c: "uf_compact p (replicate ?n None) 0 [0..<?n] = Some (k, map (\<lambda>i. f (R i)) [0..<?n])"
      "bij_betw f (R ` set [0..<?n]) {..<k}" by blast
  have im: "f ` R ` {..<?n} = {..<k}" using c(2) by (simp add: bij_betw_def atLeast0LessThan)
  have "f (R i) = f (R j) \<longleftrightarrow> R i = R j" if "i < ?n" "j < ?n" for i j
    using c(2) that by (auto simp: bij_betw_def inj_on_def)
  with p(4) have conn: "\<forall>i < ?n. \<forall>j < ?n. f (R i) = f (R j) \<longleftrightarrow> (i, j) \<in> conn (fast_edges ops mat ?n)"
    by (simp add: uf_conn_def)
  have "card {..<k} \<le> card {..<?n}" using im by (metis image_image card_image_le finite_lessThan)
  with size trusted p(1) c(1) im conn show ?thesis
    by (auto simp: cluster_ids_def image_image atLeast0LessThan same_cluster_def)
qed

text \<open>The fallback: the groups of the prior.\<close>

lemma prior_ids_less:
  assumes size: "length sysfsPrior + length cpus + 1 < 2 ^ 32"
    and c: "c \<in> set (prior_ids (sysfs_table sysfsPrior) (w32 (length sysfsPrior)) cpus)"
  shows "c < length sysfsPrior + length cpus"
proof -
  let ?ids = "prior_ids (sysfs_table sysfsPrior) (w32 (length sysfsPrior)) cpus"
  obtain i where i: "i < length cpus" "c = ?ids ! i" using c by (auto simp: in_set_conv_nth)
  show ?thesis
  proof (cases "sysfs_group (sysfs_table sysfsPrior) (cpus ! i)")
    case None
    have "length (filter (\<lambda>c. sysfs_group (sysfs_table sysfsPrior) c = None) (take i cpus)) \<le> i"
      using length_filter_le [of _ "take i cpus"] i(1) by (metis length_take min.absorb4)
    with None i size prior_ids_nth [of "w32 (length sysfsPrior)" cpus i "sysfs_table sysfsPrior"] show ?thesis by simp
  next
    case (Some k)
    then have "Some k \<in> set (sysfs_table sysfsPrior)" by (auto simp: sysfs_group_def split: if_splits dest: nth_mem)
    from sysfs_table_less [OF this] Some i size prior_ids_nth [of "w32 (length sysfsPrior)" cpus i "sysfs_table sysfsPrior"]
    show ?thesis by simp
  qed
qed

lemma cluster_ids_prior:
  assumes untrusted: "\<not> otsu_trusted ops mat (length cpus)"
    and n: "2 \<le> length cpus" and prior: "prior_ok sysfsPrior" and size: "length cpus < 2 ^ 30"
  shows "\<exists>ids k. cluster_ids ops mat cpus sysfsPrior = Some (ids, k) \<and> length ids = length cpus \<and>
    (\<forall>c \<in> set ids. c < k) \<and> k < 2 ^ 32 \<and>
    (otsu_trusted ops mat (length cpus) \<longrightarrow> set ids = {..<k}) \<and>
    (\<forall>i < length cpus. \<forall>j < length cpus. ids ! i = ids ! j \<longleftrightarrow> same_cluster ops mat cpus sysfsPrior i j)"
proof -
  have size': "length sysfsPrior + length cpus + 1 < 2 ^ 32" using prior size by (simp add: prior_ok_def)
  let ?ids = "prior_ids (sysfs_table sysfsPrior) (w32 (length sysfsPrior)) cpus"
  have small: "foldl max 0 ?ids < length sysfsPrior + length cpus"
    using n prior_ids_less [OF size'] by (intro foldl_max_less) auto
  have "?ids ! i = ?ids ! j \<longleftrightarrow> i = j \<or> (\<exists>k. last_group sysfsPrior (cpus ! i) k \<and> last_group sysfsPrior (cpus ! j) k)"
    if "i < length cpus" "j < length cpus" for i j
  proof -
    have w: "w32 (length sysfsPrior) = length sysfsPrior" using size' by simp
    show ?thesis unfolding w
      by (subst prior_ids_eq) (use size' sysfs_table_less prior that in \<open>auto simp: sysfs_group_eq prior_ok_def\<close>)
  qed
  with untrusted size' small show ?thesis using foldl_max [of _ ?ids 0]
    by (cases "sysfsPrior = []") (auto simp: cluster_ids_def same_cluster_def Let_def less_Suc_eq_le)
qed

lemma cluster_ids_ok:
  assumes "2 \<le> length cpus" "prior_ok sysfsPrior" "length cpus < 2 ^ 30"
  shows "\<exists>ids k. cluster_ids ops mat cpus sysfsPrior = Some (ids, k) \<and> length ids = length cpus \<and>
    (\<forall>c \<in> set ids. c < k) \<and> k < 2 ^ 32 \<and>
    (otsu_trusted ops mat (length cpus) \<longrightarrow> set ids = {..<k}) \<and>
    (\<forall>i < length cpus. \<forall>j < length cpus. ids ! i = ids ! j \<longleftrightarrow> same_cluster ops mat cpus sysfsPrior i j)"
  using cluster_ids_components cluster_ids_prior assms by (cases "otsu_trusted ops mat (length cpus)") blast+

section \<open>The measured matrix and the probe\<close>

definition set_pair :: "'f list list \<Rightarrow> nat \<Rightarrow> nat \<Rightarrow> 'f \<Rightarrow> 'f list list" where
  "set_pair m a b v = (let m1 = m[a := (m ! a)[b := v]] in m1[b := (m1 ! b)[a := v]])"

definition probeLatencyMatrix :: "('f, 'x) fp_scheme \<Rightarrow> (nat \<Rightarrow> nat \<Rightarrow> 'f) \<Rightarrow> u32 list \<Rightarrow> 'f LatencyMatrix" where
  "probeLatencyMatrix ops ping cpus =
     (let n = length cpus in
      if n < 2 then \<lparr> lm_cpus = [], lm_matrix = [], lm_valid = False \<rparr>
      else \<lparr> lm_cpus = cpus,
        lm_matrix = foldl (foldl (\<lambda>m (a, b). set_pair m a b (ping (unat (cpus ! a)) (unat (cpus ! b)))))
          (replicate n (replicate n (fp_zero ops))) (roundRobinPairs n),
        lm_valid = True \<rparr>)"

definition cross_over_intra :: "'f fpx \<Rightarrow> nat \<Rightarrow> 'f list list \<Rightarrow> 'f" where
  "cross_over_intra ops k dist =
     (let maxIntra = foldl (\<lambda>x a. std_max ops x (dist ! a ! a)) (fp_zero ops) [0..<k];
          maxCross = foldl (\<lambda>x (a, b). if a = b then x else std_max ops x (dist ! a ! b)) (fp_zero ops)
            (List.product [0..<k] [0..<k])
      in if fp_lt ops (fp_zero ops) maxIntra \<and> fp_lt ops (fp_zero ops) maxCross
         then fx_div ops maxCross maxIntra else fx_one ops)"

definition runCoherenceProbe :: "'f fpx \<Rightarrow> (nat \<Rightarrow> nat \<Rightarrow> 'f) \<Rightarrow> u32 list \<Rightarrow> nat list list \<Rightarrow> 'f CoherenceProbe option" where
  "runCoherenceProbe ops ping cpus sysfsPrior =
     (let m = probeLatencyMatrix ops ping cpus in
      if length cpus < 2 \<or> \<not> lm_valid m then
        Some \<lparr> cp_valid = False, cp_matrix = m,
          cp_clusters = \<lparr> cr_clusterIdOfCpuIndex = [], cr_numClusters = 0, cr_clusterDistanceNs = [] \<rparr>,
          cp_maxCrossOverIntraRatio = fx_one ops \<rparr>
      else do { c \<leftarrow> clusterByLatency ops m sysfsPrior;
        Some \<lparr> cp_valid = (cr_clusterIdOfCpuIndex c \<noteq> []), cp_matrix = m, cp_clusters = c,
          cp_maxCrossOverIntraRatio =
            cross_over_intra ops (unat (cr_numClusters c)) (cr_clusterDistanceNs c) \<rparr> })"

text \<open>
  The matrix after a list of stores: square, symmetric, zero on the diagonal, and wherever a pair
  was stored, one of its two orientations.
\<close>

definition matrix_ok :: "(nat \<Rightarrow> nat \<Rightarrow> 'f) \<Rightarrow> 'f \<Rightarrow> nat \<Rightarrow> (nat \<times> nat) set \<Rightarrow> 'f list list \<Rightarrow> bool" where
  "matrix_ok v z n S m \<longleftrightarrow> length m = n \<and> (\<forall>i < n. length (m ! i) = n) \<and>
     (\<forall>i < n. m ! i ! i = z) \<and> (\<forall>i < n. \<forall>j < n. m ! i ! j = m ! j ! i) \<and>
     (\<forall>(i, j) \<in> S. i < n \<longrightarrow> j < n \<longrightarrow> m ! i ! j \<in> {v i j, v j i})"

lemma set_pair_nth:
  assumes "length m = n" "\<forall>i < n. length (m ! i) = n" "a < n" "b < n" "a \<noteq> b" "i < n" "j < n"
  shows "set_pair m a b x ! i ! j = (if i = a \<and> j = b \<or> i = b \<and> j = a then x else m ! i ! j)"
  using assms by (auto simp: set_pair_def Let_def nth_list_update)

lemma matrix_ok_set_pair:
  assumes m: "matrix_ok v z n S m" and ab: "a < n" "b < n" "a \<noteq> b"
  shows "matrix_ok v z n (insert (a, b) S) (set_pair m a b (v a b))"
proof -
  have l: "length m = n" "\<forall>i < n. length (m ! i) = n" using m by (auto simp: matrix_ok_def)
  have "length (set_pair m a b (v a b)) = n" "\<forall>i < n. length (set_pair m a b (v a b) ! i) = n"
    using l ab by (auto simp: set_pair_def Let_def nth_list_update)
  then show ?thesis using m ab unfolding matrix_ok_def
    by (auto simp: set_pair_nth [OF l ab])
qed

lemma matrix_ok_pairs:
  assumes "matrix_ok v z n S m" "\<forall>(a, b) \<in> set ps. a < n \<and> b < n \<and> a \<noteq> b"
  shows "matrix_ok v z n (S \<union> set ps) (foldl (\<lambda>m (a, b). set_pair m a b (v a b)) m ps)"
  using assms
proof (induction ps arbitrary: m S)
  case (Cons p ps)
  obtain a b where p: "p = (a, b)" by (cases p)
  then have "matrix_ok v z n (insert (a, b) S) (set_pair m a b (v a b))"
    using Cons.prems by (intro matrix_ok_set_pair) auto
  from Cons.IH [OF this] Cons.prems(2) p show ?case by simp
qed simp

lemma probeLatencyMatrix_ok:
  fixes cpus :: "u32 list"
  assumes "2 \<le> length cpus" "length cpus + 1 < 2 ^ 32"
  shows "matrix_ok (\<lambda>a b. ping (unat (cpus ! a)) (unat (cpus ! b))) (fp_zero ops) (length cpus)
    {(a, b). a < length cpus \<and> b < length cpus \<and> a \<noteq> b} (lm_matrix (probeLatencyMatrix ops ping cpus))"
proof -
  let ?n = "length cpus" and ?v = "\<lambda>a b. ping (unat (cpus ! a)) (unat (cpus ! b))"
  let ?ps = "concat (roundRobinPairs ?n)"
  have m0: "matrix_ok ?v (fp_zero ops) ?n {} (replicate ?n (replicate ?n (fp_zero ops)))"
    by (auto simp: matrix_ok_def)
  have ps: "\<forall>(a, b) \<in> set ?ps. a < ?n \<and> b < ?n \<and> a \<noteq> b" using rr_pair_range [OF assms] by blast
  have m: "matrix_ok ?v (fp_zero ops) ?n ({} \<union> set ?ps) (lm_matrix (probeLatencyMatrix ops ping cpus))"
    using matrix_ok_pairs [OF m0 ps] assms(1) by (simp add: probeLatencyMatrix_def Let_def foldl_foldl del: set_concat)
  have all: "(a, b) \<in> set ?ps \<or> (b, a) \<in> set ?ps" if "a < ?n" "b < ?n" "a \<noteq> b" for a b
  proof -
    have "\<exists>r < length (roundRobinPairs ?n). (x, y) \<in> set (roundRobinPairs ?n ! r) \<or> (y, x) \<in> set (roundRobinPairs ?n ! r)"
      if "x < y" "y < ?n" for x y using rr_pair_once [OF assms that] by blast
    then show ?thesis using that by (metis UN_I linorder_neq_iff nth_mem set_concat)
  qed
  have stored: "lm_matrix (probeLatencyMatrix ops ping cpus) ! i ! j \<in> {?v i j, ?v j i}"
    if "i < ?n" "j < ?n" "i \<noteq> j" for i j
    using all [OF that]
  proof
    assume "(i, j) \<in> set ?ps"
    with m that show ?thesis unfolding matrix_ok_def Un_empty_left by blast
  next
    assume "(j, i) \<in> set ?ps"
    with m that have "lm_matrix (probeLatencyMatrix ops ping cpus) ! j ! i \<in> {?v j i, ?v i j}"
      unfolding matrix_ok_def Un_empty_left by blast
    moreover have "lm_matrix (probeLatencyMatrix ops ping cpus) ! i ! j = lm_matrix (probeLatencyMatrix ops ping cpus) ! j ! i"
      using m that unfolding matrix_ok_def by blast
    ultimately show ?thesis by auto
  qed
  from m show ?thesis unfolding matrix_ok_def by (intro conjI) (simp_all, use stored in blast)
qed

lemma clusterByLatency_ok:
  assumes "lm_valid mat" "2 \<le> length (lm_cpus mat)" "prior_ok sysfsPrior" "length (lm_cpus mat) < 2 ^ 30"
  shows "\<exists>c. clusterByLatency ops mat sysfsPrior = Some c \<and>
    length (cr_clusterIdOfCpuIndex c) = length (lm_cpus mat) \<and>
    (\<forall>k \<in> set (cr_clusterIdOfCpuIndex c). k < cr_numClusters c) \<and>
    square (unat (cr_numClusters c)) (cr_clusterDistanceNs c) \<and>
    (otsu_trusted ops (lm_matrix mat) (length (lm_cpus mat)) \<longrightarrow>
      set (cr_clusterIdOfCpuIndex c) = {k. k < cr_numClusters c}) \<and>
    (\<forall>i < length (lm_cpus mat). \<forall>j < length (lm_cpus mat).
      cr_clusterIdOfCpuIndex c ! i = cr_clusterIdOfCpuIndex c ! j \<longleftrightarrow>
      same_cluster ops (lm_matrix mat) (map unat (lm_cpus mat)) sysfsPrior i j)"
proof -
  let ?n = "length (lm_cpus mat)"
  obtain ids k where c: "cluster_ids ops (lm_matrix mat) (map unat (lm_cpus mat)) sysfsPrior = Some (ids, k)"
    "length ids = ?n" "\<forall>c \<in> set ids. c < k" "k < 2 ^ 32"
    "otsu_trusted ops (lm_matrix mat) ?n \<longrightarrow> set ids = {..<k}"
    "\<forall>i < ?n. \<forall>j < ?n. ids ! i = ids ! j \<longleftrightarrow>
      same_cluster ops (lm_matrix mat) (map unat (lm_cpus mat)) sysfsPrior i j"
    using cluster_ids_ok [of "map unat (lm_cpus mat)" sysfsPrior ops "lm_matrix mat"] assms(2,3,4) by auto
  have u: "unat (word_of_nat x :: u32) = x" if "x < 2 ^ 32" for x
    using that by (simp add: unat_of_nat)
  have small: "x < 2 ^ 32" if "x \<in> set ids" for x using c(3,4) that by (meson less_trans)
  have inj: "(word_of_nat x :: u32) = word_of_nat y \<longleftrightarrow> x = y" if "x < 2 ^ 32" "y < 2 ^ 32" for x y
    using u that by metis
  let ?c = "\<lparr> cr_clusterIdOfCpuIndex = map word_of_nat ids, cr_numClusters = word_of_nat k :: u32,
    cr_clusterDistanceNs = clusterDistance ops ids (lm_matrix mat) k \<rparr>"
  have "word_of_nat ` {..<k} = {x :: u32. x < word_of_nat k}"
  proof safe
    fix x assume "x < k"
    then show "(word_of_nat x :: u32) < word_of_nat k" using c(4) u [of x] u [of k] by (simp add: word_less_nat_alt)
  next
    fix x :: u32 assume "x < word_of_nat k"
    then have "unat x < k" using u [OF c(4)] by (simp add: word_less_nat_alt)
    then show "x \<in> word_of_nat ` {..<k}" by (intro image_eqI [of _ _ "unat x"]) simp_all
  qed
  moreover have "\<forall>x \<in> set ids. (word_of_nat x :: u32) < word_of_nat k"
    using c(3) u small u [OF c(4)] by (simp add: word_less_nat_alt)
  moreover have "(map word_of_nat ids ! i :: u32) = map word_of_nat ids ! j \<longleftrightarrow> ids ! i = ids ! j"
    if "i < ?n" "j < ?n" for i j using inj small that c(2) by simp
  ultimately show ?thesis
    using assms(1,2) c u [OF c(4)] clusterDistance_square [of k ops ids "lm_matrix mat"]
    by (intro exI [of _ ?c]) (simp add: clusterByLatency_def Let_def)
qed

text \<open>
  C23. A live probe of at least two cpus always returns, in spite of the loop of the union-find. Its
  matrix is symmetric with a zero diagonal, and every other entry was measured on that pair of cpus;
  the probe passes the structural checks of the importer. Two cpus are in one cluster exactly when
  fast pairs connect them, where the histogram of the latencies is trusted, and otherwise exactly
  when their last group in the prior is the same (or there is no prior). Ids are below the number of
  clusters, and on the trusted path each number is used.
\<close>

theorem runCoherenceProbe_sound:
  fixes cpus :: "u32 list"
  assumes "2 \<le> length cpus" and "length cpus < 2 ^ 30" and "prior_ok sysfsPrior"
  shows "\<exists>probe. runCoherenceProbe ops ping cpus sysfsPrior = Some probe \<and> cp_valid probe \<and> probe_consistent probe \<and>
    lm_cpus (cp_matrix probe) = cpus \<and>
    matrix_ok (\<lambda>a b. ping (unat (cpus ! a)) (unat (cpus ! b))) (fp_zero ops) (length cpus)
      {(a, b). a < length cpus \<and> b < length cpus \<and> a \<noteq> b} (lm_matrix (cp_matrix probe)) \<and>
    (\<forall>k \<in> set (cr_clusterIdOfCpuIndex (cp_clusters probe)). k < cr_numClusters (cp_clusters probe)) \<and>
    (otsu_trusted ops (lm_matrix (cp_matrix probe)) (length cpus) \<longrightarrow>
      set (cr_clusterIdOfCpuIndex (cp_clusters probe)) = {k. k < cr_numClusters (cp_clusters probe)}) \<and>
    (\<forall>i < length cpus. \<forall>j < length cpus.
      cr_clusterIdOfCpuIndex (cp_clusters probe) ! i = cr_clusterIdOfCpuIndex (cp_clusters probe) ! j \<longleftrightarrow>
      same_cluster ops (lm_matrix (cp_matrix probe)) (map unat cpus) sysfsPrior i j)"
proof -
  let ?m = "probeLatencyMatrix ops ping cpus"
  have m: "lm_valid ?m" "lm_cpus ?m = cpus" using assms(1) by (simp_all add: probeLatencyMatrix_def Let_def)
  have "length cpus + 1 < 2 ^ 32" using assms(2) by simp
  note ok = probeLatencyMatrix_ok [OF assms(1) this, where ping = ping and ops = ops]
  from clusterByLatency_ok [of ?m sysfsPrior ops, unfolded m(2), OF m(1) assms(1,3,2)] obtain c where
    c: "clusterByLatency ops ?m sysfsPrior = Some c" "length (cr_clusterIdOfCpuIndex c) = length cpus"
    "\<forall>k \<in> set (cr_clusterIdOfCpuIndex c). k < cr_numClusters c"
    "square (unat (cr_numClusters c)) (cr_clusterDistanceNs c)"
    "otsu_trusted ops (lm_matrix ?m) (length cpus) \<longrightarrow> set (cr_clusterIdOfCpuIndex c) = {k. k < cr_numClusters c}"
    "\<forall>i < length cpus. \<forall>j < length cpus.
        cr_clusterIdOfCpuIndex c ! i = cr_clusterIdOfCpuIndex c ! j \<longleftrightarrow>
        same_cluster ops (lm_matrix ?m) (map unat cpus) sysfsPrior i j"
    by blast
  have sq: "square (length cpus) (lm_matrix ?m)" using ok assms(2)
    by (simp add: matrix_ok_def square_def list_all_length)
  have ne: "cr_clusterIdOfCpuIndex c \<noteq> []" using c(2) assms(1) by auto
  define probe where "probe = \<lparr> cp_valid = (cr_clusterIdOfCpuIndex c \<noteq> []), cp_matrix = ?m, cp_clusters = c,
    cp_maxCrossOverIntraRatio = cross_over_intra ops (unat (cr_numClusters c)) (cr_clusterDistanceNs c) \<rparr>"
  have sel: "cp_valid probe = (cr_clusterIdOfCpuIndex c \<noteq> [])" "cp_matrix probe = ?m" "cp_clusters probe = c"
    by (simp_all add: probe_def)
  show ?thesis
  proof (rule exI [of _ probe], intro conjI)
    show "runCoherenceProbe ops ping cpus sysfsPrior = Some probe"
      using assms(1) m(1) c(1) by (simp add: runCoherenceProbe_def probe_def Let_def)
    show "probe_consistent probe"
      unfolding probe_consistent_def Let_def sel m(2) using sq c(2,4) by blast
    show "cp_valid probe" unfolding sel by (rule ne)
    show "lm_cpus (cp_matrix probe) = cpus" unfolding sel by (rule m(2))
  qed (unfold sel, rule ok, rule c(3), rule c(5), rule c(6))
qed

section \<open>A probe evaluated\<close>

text \<open>Five cpus, three on one chiplet and two on another; fixed-point numbers in thousandths, the identity as logarithm.\<close>

definition fixed_ops :: "int fpx" where
  "fixed_ops = \<lparr> fp_zero = 0, fp_milli = 1, fp_of_nat = (\<lambda>n. 1000 * int n), fp_add = (+), fp_sub = (-),
     fp_mul = (\<lambda>a b. a * b div 1000), fp_neg = uminus, fp_le = (\<le>), fp_lt = (<), fx_one = 1000, fx_half = 500,
     fx_infinity = 1000000000, fx_div = (\<lambda>a b. a * 1000 div b), fx_log = (\<lambda>x. x), fx_trunc = (\<lambda>x. nat (x div 1000)),
     fx_bimodalCutoff = 550 \<rparr>"

definition ping5 :: "nat \<Rightarrow> nat \<Rightarrow> int" where
  "ping5 a b = (if (a < 3) = (b < 3) then 40000 else 200000)"

definition mat5 :: "int list list" where
  "mat5 = [[0, 40000, 40000, 200000, 200000], [40000, 0, 40000, 200000, 200000], [40000, 40000, 0, 200000, 200000],
     [200000, 200000, 200000, 0, 40000], [200000, 200000, 200000, 40000, 0]]"

definition off5 :: "int list" where
  "off5 = [40000, 40000, 200000, 200000, 40000, 200000, 200000, 200000, 200000, 40000]"

definition hist5 :: "nat list" where
  "hist5 = 4 # replicate 62 0 @ [6]"

lemma matrix5: "probeLatencyMatrix fixed_ops ping5 [0, 1, 2, 3, 4]
    = \<lparr> lm_cpus = [0, 1, 2, 3, 4], lm_matrix = mat5, lm_valid = True \<rparr>"
  by code_simp

lemma histogram5: "length off5 = 10 \<and> offDiag mat5 5 = off5 \<and> otsu_range fixed_ops off5 = (40000, 200000) \<and>
  otsu_hist fixed_ops 40000 200000 off5 = hist5 \<and> sum_list hist5 = 10 \<and> otsu_sumAll fixed_ops hist5 = 378000"
  by code_simp

lemma scan5: "foldl (otsu_scan_bin fixed_ops hist5 10 378000) (0, 0, - 1000, 0) [0..<kBins] = (10, 378000, 952560, 0)"
  by code_simp

lemma variance5: "otsu_variance fixed_ops hist5 10 378000 = 952560"
  by code_simp

lemma components5:
  "uf_unite_all (\<lambda>i j. 0 < mat5 ! i ! j \<and> mat5 ! i ! j \<le> 41120) [0..<5] (upper_pairs 5) = Some [1, 2, 2, 4, 4] \<and>
  uf_compact [1, 2, 2, 4, 4] (replicate 5 None) 0 [0..<5] = Some (2, [0, 0, 0, 1, 1]) \<and>
  clusterDistance fixed_ops [0, 0, 0, 1, 1] mat5 2 = [[40000, 200000], [200000, 40000]] \<and>
  cross_over_intra fixed_ops 2 [[40000, 200000], [200000, 40000]] = 5000"
  by code_simp

lemma fixed_ops_simps:
  "fp_zero fixed_ops = 0" "fp_of_nat fixed_ops n = 1000 * int n" "fp_add fixed_ops a b = a + b" "fp_sub fixed_ops a b = a - b"
  "fp_mul fixed_ops a b = a * b div 1000" "fp_neg fixed_ops a = - a" "fp_le fixed_ops a b \<longleftrightarrow> a \<le> b"
  "fp_lt fixed_ops a b \<longleftrightarrow> a < b" "fx_one fixed_ops = 1000" "fx_half fixed_ops = 500" "fx_log fixed_ops a = a"
  "fx_div fixed_ops a b = a * 1000 div b" "fx_bimodalCutoff fixed_ops = 550"
  by (simp_all add: fixed_ops_def)

lemma threshold5: "otsuThresholdLog fixed_ops off5 = \<lparr> ot_threshold = 41120, ot_bimodality = 1000 \<rparr>"
  using histogram5 scan5 variance5 by (simp add: otsuThresholdLog_def fixed_ops_simps kBins_def del: sum_list_eq_0_iff)

lemma fast5: "otsu_trusted fixed_ops mat5 5"
  "fast_pair fixed_ops mat5 5 = (\<lambda>i j. 0 < mat5 ! i ! j \<and> mat5 ! i ! j \<le> 41120)"
  using histogram5 by (simp_all add: otsu_trusted_def fast_pair_def threshold5 fixed_ops_simps fun_eq_iff)

lemma cluster_ids_trusted:
  assumes "otsu_trusted ops mat (length cpus)"
    "uf_unite_all (fast_pair ops mat (length cpus)) [0..<length cpus] (upper_pairs (length cpus)) = Some p"
    "uf_compact p (replicate (length cpus) None) 0 [0..<length cpus] = Some (k, ids)"
  shows "cluster_ids ops mat cpus sysfsPrior = Some (ids, k)"
  using assms by (simp add: cluster_ids_def)

lemma cluster5: "cluster_ids fixed_ops mat5 [0, 1, 2, 3, 4] [] = Some ([0, 0, 0, 1, 1], 2)"
proof -
  have n: "length [0, 1, 2, 3, 4 :: nat] = 5" by simp
  show ?thesis using cluster_ids_trusted [of fixed_ops mat5 "[0, 1, 2, 3, 4]"] unfolding n fast5(2)
    using fast5(1) components5 by blast
qed

lemma probe5: "runCoherenceProbe fixed_ops ping5 [0, 1, 2, 3, 4] [] = Some probe \<Longrightarrow>
    cr_clusterIdOfCpuIndex (cp_clusters probe) = [0, 0, 0, 1, 1] \<and>
    cr_clusterDistanceNs (cp_clusters probe) = [[40000, 200000], [200000, 40000]] \<and>
    cp_maxCrossOverIntraRatio probe = 5000"
  using cluster5 matrix5 components5 by (auto simp: runCoherenceProbe_def clusterByLatency_def)

theorem runCoherenceProbe_sound_witness:
  "\<exists>probe. runCoherenceProbe fixed_ops ping5 [0, 1, 2, 3, 4] [] = Some probe \<and> probe_consistent probe \<and>
    cr_clusterIdOfCpuIndex (cp_clusters probe) = [0, 0, 0, 1, 1] \<and>
    cr_clusterDistanceNs (cp_clusters probe) = [[40000, 200000], [200000, 40000]] \<and>
    cp_maxCrossOverIntraRatio probe = 5000"
proof -
  have "2 \<le> length [0, 1, 2, 3, 4 :: u32]" "length [0, 1, 2, 3, 4 :: u32] < 2 ^ 30" "prior_ok []"
    by (simp_all add: prior_ok_def)
  from runCoherenceProbe_sound [OF this, of fixed_ops ping5] show ?thesis using probe5 by blast
qed

end
