(* ===== verification/Sysfs.thy ===== *)
theory Sysfs
  imports Prelude "HOL-Library.Monad_Syntax"
begin

text \<open>
  The text the topology probe reads (\<open>topology.h\<close>): \<open>readCpuList\<close> and \<open>readCacheSizeKib\<close> over the
  contents of a sysfs file, with the standard library's \<open>getline\<close>, \<open>stoul\<close> and \<open>to_string\<close> as far
  as they use them. \<open>None\<close> for a content is a file that cannot be opened; memory is unbounded.
\<close>

section \<open>Characters and numbers\<close>

definition isdigit :: "char \<Rightarrow> bool" where
  "isdigit c \<longleftrightarrow> 48 \<le> (of_char c :: nat) \<and> (of_char c :: nat) \<le> 57"

definition isspace :: "char \<Rightarrow> bool" where
  "isspace c \<longleftrightarrow> (of_char c :: nat) \<in> {9, 10, 11, 12, 13, 32}"

definition digit_value :: "char \<Rightarrow> nat" where
  "digit_value c = of_char c - 48"

definition digit_char :: "nat \<Rightarrow> char" where
  "digit_char d = char_of (48 + d)"

definition dec_value :: "string \<Rightarrow> nat" where
  "dec_value ds = foldl (\<lambda>v c. v * 10 + digit_value c) 0 ds"

fun to_string :: "nat \<Rightarrow> string" where
  "to_string n = (if n < 10 then [digit_char n] else to_string (n div 10) @ [digit_char (n mod 10)])"

declare to_string.simps [simp del]

lemma digit_char [simp]: "d < 10 \<Longrightarrow> of_char (digit_char d) = 48 + d"
  by (simp add: digit_char_def)

lemma isdigit_digit_char [simp]: "d < 10 \<Longrightarrow> isdigit (digit_char d)"
  by (simp add: isdigit_def)

lemma digit_value_char [simp]: "d < 10 \<Longrightarrow> digit_value (digit_char d) = d"
  by (simp add: digit_value_def)

lemma to_string_digits: "\<forall>c\<in>set (to_string n). isdigit c"
  by (induction n rule: to_string.induct) (subst to_string.simps, auto)

lemma to_string_not_Nil [simp]: "to_string n \<noteq> []"
  by (subst to_string.simps) simp

lemma dec_value_to_string [simp]: "dec_value (to_string n) = n"
  by (induction n rule: to_string.induct) (subst to_string.simps, auto simp: dec_value_def)

lemma isdigit_not: "isdigit c \<Longrightarrow> c \<noteq> CHR ''-'' \<and> c \<noteq> CHR ''+'' \<and> c \<noteq> CHR '','' \<and> c \<noteq> CHR 0x0A \<and> \<not> isspace c"
  by (auto simp: isdigit_def isspace_def)

text \<open>\<open>std::stoul\<close>: blanks, a sign, digits; \<open>None\<close> for its exceptions.\<close>

definition stoul :: "string \<Rightarrow> nat option" where
  "stoul str =
     (let s = dropWhile isspace str;
          neg = (s \<noteq> [] \<and> hd s = CHR ''-'');
          s = (if s \<noteq> [] \<and> (hd s = CHR ''-'' \<or> hd s = CHR ''+'') then tl s else s);
          ds = takeWhile isdigit s; v = dec_value ds
      in if ds = [] \<or> 2 ^ 64 \<le> v then None
         else Some (if neg then w64 (2 ^ 64 - v) else v))"

lemma stoul_to_string: "n < 2 ^ 64 \<Longrightarrow> stoul (to_string n) = Some n"
proof -
  assume n: "n < 2 ^ 64"
  obtain c cs where c: "to_string n = c # cs" by (cases "to_string n") simp_all
  then have d: "isdigit c" using to_string_digits [of n] by simp
  have dw: "dropWhile isspace (to_string n) = to_string n" using isdigit_not [OF d] by (simp add: c)
  have tw: "takeWhile isdigit (to_string n) = to_string n"
    using to_string_digits [of n] by (simp add: takeWhile_eq_all_conv)
  have hd: "hd (to_string n) \<noteq> CHR ''-''" "hd (to_string n) \<noteq> CHR ''+''"
    using isdigit_not [OF d] by (simp_all add: c)
  show ?thesis unfolding stoul_def Let_def dw
    by (simp del: takeWhile_eq_all_conv add: hd tw) (use n in simp)
qed

section \<open>Cache sizes\<close>

definition unit_factor :: "string \<Rightarrow> nat" where
  "unit_factor rest = (case rest of [] \<Rightarrow> 1
     | u # _ \<Rightarrow> if u = CHR ''M'' \<or> u = CHR ''m'' then 1024
                else if u = CHR ''G'' \<or> u = CHR ''g'' then 1024 * 1024 else 1)"

definition readCacheSizeKib :: "string option \<Rightarrow> nat" where
  "readCacheSizeKib content = (case content of None \<Rightarrow> 0
     | Some text \<Rightarrow>
         let token = takeWhile (\<lambda>c. \<not> isspace c) (dropWhile isspace text);
             ds = takeWhile isdigit token;
             value = foldl (\<lambda>v c. w64 (w64 (v * 10) + digit_value c)) 0 ds
         in if ds = [] then 0 else w64 (value * unit_factor (dropWhile isdigit token)))"

section \<open>Cpu lists\<close>

fun split_commas :: "string \<Rightarrow> string list" where
  "split_commas [] = [[]]"
| "split_commas (c # cs) = (if c = CHR '','' then [] # split_commas cs
     else (c # hd (split_commas cs)) # tl (split_commas cs))"

text \<open>The range loop counts in 32 bits; \<open>None\<close> is a loop that never ends.\<close>

partial_function (option) cpu_range :: "nat list \<Rightarrow> nat \<Rightarrow> nat \<Rightarrow> nat list option" where
  "cpu_range result cpu last' =
     (if cpu \<le> last' then cpu_range (result @ [cpu]) (w32 (cpu + 1)) last' else Some result)"

definition parse_token :: "string \<Rightarrow> nat list \<Rightarrow> nat list option" where
  "parse_token token result =
     (if token = [] then Some result
      else if CHR ''-'' \<notin> set token
      then (case stoul token of None \<Rightarrow> Some result | Some v \<Rightarrow> Some (result @ [w32 v]))
      else let dash = length (takeWhile (\<lambda>c. c \<noteq> CHR ''-'') token)
           in case stoul (take dash token) of None \<Rightarrow> Some result
              | Some first \<Rightarrow> (case stoul (drop (dash + 1) token) of None \<Rightarrow> Some result
                 | Some last' \<Rightarrow> cpu_range result (w32 first) (w32 last')))"

fun fold_option :: "('a \<Rightarrow> 's \<Rightarrow> 's option) \<Rightarrow> 'a list \<Rightarrow> 's \<Rightarrow> 's option" where
  "fold_option f [] s = Some s"
| "fold_option f (x # xs) s = do { s \<leftarrow> f x s; fold_option f xs s }"

definition readCpuList :: "string option \<Rightarrow> nat list option" where
  "readCpuList content = (case content of None \<Rightarrow> Some []
     | Some text \<Rightarrow> map_option (\<lambda>result. remdups_adj (sort result))
         (fold_option parse_token (split_commas (takeWhile (\<lambda>c. c \<noteq> CHR 0x0A) text)) []))"

subsection \<open>Reading back what the kernel prints\<close>

definition show_range :: "nat \<times> nat \<Rightarrow> string" where
  "show_range r = (if fst r = snd r then to_string (fst r)
     else to_string (fst r) @ CHR ''-'' # to_string (snd r))"

fun show_cpu_list :: "(nat \<times> nat) list \<Rightarrow> string" where
  "show_cpu_list [] = []"
| "show_cpu_list [r] = show_range r"
| "show_cpu_list (r # rs) = show_range r @ CHR '','' # show_cpu_list rs"

lemma cpu_range_upto:
  assumes "last' < 2 ^ 32 - 1"
  shows "cpu \<le> last' + 1 \<Longrightarrow> cpu_range result cpu last' = Some (result @ [cpu..<last' + 1])"
proof (induction "last' + 1 - cpu" arbitrary: cpu result)
  case 0
  then show ?case by (subst cpu_range.simps) simp
next
  case (Suc k)
  then have le: "cpu \<le> last'" by simp
  have "w32 (cpu + 1) = cpu + 1" using le assms by (intro w32_id) linarith
  then have "cpu_range result cpu last' = cpu_range (result @ [cpu]) (cpu + 1) last'"
    using le by (subst cpu_range.simps) simp
  also have "\<dots> = Some ((result @ [cpu]) @ [cpu + 1..<last' + 1])"
    by (rule Suc.hyps(1)) (use Suc.hyps(2) le in linarith)+
  also have "[cpu] @ [cpu + 1..<last' + 1] = [cpu..<last' + 1]"
    using le by (simp add: upt_conv_Cons del: upt_Suc)
  then have "(result @ [cpu]) @ [cpu + 1..<last' + 1] = result @ [cpu..<last' + 1]" by simp
  finally show ?case .
qed

lemma show_range_chars: "c \<in> set (show_range r) \<Longrightarrow> isdigit c \<or> c = CHR ''-''"
  using to_string_digits [of "fst r"] to_string_digits [of "snd r"]
  by (auto simp: show_range_def split: if_splits)

lemma parse_token_show:
  assumes "fst r \<le> snd r" "snd r < 2 ^ 32 - 1"
  shows "parse_token (show_range r) result = Some (result @ [fst r..<snd r + 1])"
proof -
  have st: "stoul (to_string (fst r)) = Some (fst r)" "stoul (to_string (snd r)) = Some (snd r)"
    using assms by (auto intro!: stoul_to_string)
  have w: "w32 (fst r) = fst r" "w32 (snd r) = snd r" using assms by (auto intro!: w32_id)
  have nd: "CHR ''-'' \<notin> set (to_string n)" for n
    using to_string_digits [of n] isdigit_not by blast
  show ?thesis
  proof (cases "fst r = snd r")
    case True
    then show ?thesis using st w by (simp add: show_range_def parse_token_def nd)
  next
    case False
    have "takeWhile (\<lambda>c. c \<noteq> CHR ''-'') (to_string (fst r) @ CHR ''-'' # to_string (snd r))
        = to_string (fst r)"
      using nd [of "fst r"] by (subst takeWhile_append2) auto
    moreover have "cpu_range result (fst r) (snd r) = Some (result @ [fst r..<snd r + 1])"
      using assms by (intro cpu_range_upto) simp_all
    ultimately show ?thesis using False st w
      by (simp add: show_range_def parse_token_def Let_def)
  qed
qed

lemma split_commas_no: "CHR '','' \<notin> set s \<Longrightarrow> split_commas s = [s]"
  by (induction s) auto

lemma split_commas_append:
  "CHR '','' \<notin> set s \<Longrightarrow> split_commas (s @ CHR '','' # t) = s # split_commas t"
  by (induction s) auto

lemma show_range_no_comma: "CHR '','' \<notin> set (show_range r)"
  using show_range_chars isdigit_not by fastforce

lemma split_show: "rs \<noteq> [] \<Longrightarrow> split_commas (show_cpu_list rs) = map show_range rs"
  by (induction rs rule: show_cpu_list.induct)
    (simp_all add: split_commas_no split_commas_append show_range_no_comma)

lemma parse_tokens_show:
  "\<forall>r\<in>set rs. fst r \<le> snd r \<and> snd r < 2 ^ 32 - 1 \<Longrightarrow>
    fold_option parse_token (map show_range rs) result
      = Some (result @ concat (map (\<lambda>r. [fst r..<snd r + 1]) rs))"
  by (induction rs arbitrary: result) (simp_all add: parse_token_show del: upt_Suc)

lemma show_cpu_list_no_newline: "CHR 0x0A \<notin> set (show_cpu_list rs)"
proof -
  have "CHR 0x0A \<notin> set (show_range r)" for r using show_range_chars isdigit_not by fastforce
  then show ?thesis by (induction rs rule: show_cpu_list.induct) simp_all
qed

lemma readCpuList_sound:
  "readCpuList content = Some cpus \<Longrightarrow> sorted cpus \<and> distinct cpus"
  by (auto simp: readCpuList_def sorted_remdups_adj split: option.splits
      intro: sorted_remdups_adj_distinct)

lemma readCpuList_show:
  assumes "\<forall>r\<in>set rs. fst r \<le> snd r \<and> snd r < 2 ^ 32 - 1"
  shows "readCpuList (Some (show_cpu_list rs @ CHR 0x0A # more_text)) =
    Some (sorted_list_of_set (\<Union>r\<in>set rs. {fst r..snd r}))"
proof -
  let ?all = "concat (map (\<lambda>r. [fst r..<snd r + 1]) rs)"
  have line: "takeWhile (\<lambda>c. c \<noteq> CHR 0x0A) (show_cpu_list rs @ CHR 0x0A # more_text) = show_cpu_list rs"
    using show_cpu_list_no_newline [of rs] by (subst takeWhile_append2) auto
  have "fold_option parse_token (split_commas (show_cpu_list rs)) [] = Some ?all"
  proof (cases "rs = []")
    case True
    then show ?thesis by (simp add: parse_token_def)
  next
    case False
    then show ?thesis using parse_tokens_show [OF assms, of "[]"] by (simp add: split_show)
  qed
  then have "readCpuList (Some (show_cpu_list rs @ CHR 0x0A # more_text)) = Some (remdups_adj (sort ?all))"
    by (simp add: readCpuList_def line)
  moreover have "remdups_adj (sort ?all) = sorted_list_of_set (set ?all)"
    by (rule sorted_distinct_set_unique) (simp_all add: sorted_remdups_adj sorted_remdups_adj_distinct del: upt_Suc)
  moreover have "set ?all = (\<Union>r\<in>set rs. {fst r..snd r})" by auto
  ultimately show ?thesis by simp
qed

text \<open>
  C24. Reading a cpu list the kernel printed (ranges and single cpus in any order, overlapping or
  not, with a newline or more text after it) gives exactly the listed cpus, in increasing order
  and each once.
\<close>

theorem readCpuList_roundtrip:
  assumes "\<forall>r\<in>set rs. fst r \<le> snd r \<and> snd r < 2 ^ 32 - 1"
  shows "readCpuList (Some (show_cpu_list rs @ CHR 0x0A # more_text)) =
    Some (sorted_list_of_set (\<Union>r\<in>set rs. {fst r..snd r}))"
  using assms by (rule readCpuList_show)

theorem readCpuList_roundtrip_witness:
  "readCpuList (Some (show_cpu_list [(16, 17), (0, 1), (5, 5)] @ [CHR 0x0A])) =
    Some (sorted_list_of_set ({16..17} \<union> ({0..1} \<union> {5..5})))"
  using readCpuList_roundtrip [of "[(16, 17), (0, 1), (5, 5)]" "[]"] by simp

end
