(* ===== verification/Topology.thy ===== *)
theory Topology
  imports Sysfs Job
begin

unbundle bit_operations_syntax

text \<open>
  The host topology (\<open>topology.h\<close>) and the placement of the participants built on it
  (\<open>thread_pool.h\<close>): \<open>detectTopology\<close> for Linux over the sysfs files and the baseline affinity
  mask, \<open>reserveProducerCpuFirst\<close> with its two SMT exceptions, and the slot tables of
  \<open>initWorkers\<close>. \<open>files\<close> maps a path to the content of the file, \<open>None\<close> if it cannot be opened.
\<close>

section \<open>The topology\<close>

record Topology =
  tp_physicalCores :: "nat list"
  tp_ccdGroups :: "nat list list"
  tp_ccdOfCpu :: "nat list"
  tp_l3KibOfCcd :: "nat list"
  tp_l2KibPerCore :: nat
  tp_preferredCcd :: nat
  tp_logicalCount :: nat
  tp_physicalCount :: nat
  tp_ccdCount :: nat
  tp_smtSiblingOfCpu :: "nat list"

type_synonym sysfs = "string \<Rightarrow> string option"

definition cpu_dir :: "nat \<Rightarrow> string" where
  "cpu_dir cpu = ''/sys/devices/system/cpu/cpu'' @ to_string cpu"

definition siblings_path :: "nat \<Rightarrow> string" where
  "siblings_path cpu = cpu_dir cpu @ ''/topology/thread_siblings_list''"

definition l3_path :: "nat \<Rightarrow> string" where
  "l3_path cpu = cpu_dir cpu @ ''/cache/index3/shared_cpu_list''"

text \<open>Setting \<open>xs[i]\<close> when \<open>i\<close> is in range, as every store of the probe is guarded.\<close>

definition mark :: "'a \<Rightarrow> nat \<Rightarrow> 'a list \<Rightarrow> 'a list" where
  "mark v i xs = (if i < length xs then xs[i := v] else xs)"

subsection \<open>One logical cpu per physical core\<close>

definition CPU_SETSIZE :: nat where "CPU_SETSIZE = 1024"

definition allowed_cpus :: "nat \<Rightarrow> (nat \<Rightarrow> bool) \<Rightarrow> nat list" where
  "allowed_cpus logicalCount baselineMask =
     (let allowed = filter baselineMask [0..<min logicalCount CPU_SETSIZE]
      in if allowed = [] then [0..<logicalCount] else allowed)"

definition stamp_sibling :: "nat \<Rightarrow> nat \<Rightarrow> nat list \<Rightarrow> nat list" where
  "stamp_sibling cpu s sibs =
     (if length sibs \<le> s \<or> s = cpu then sibs
      else let sibs = (if sibs ! cpu = UINT32_MAX then sibs[cpu := s] else sibs)
           in if sibs ! s = UINT32_MAX then sibs[s := cpu] else sibs)"

definition physical_step :: "sysfs \<Rightarrow> nat \<Rightarrow> bool list \<times> nat list \<times> nat list \<Rightarrow>
    (bool list \<times> nat list \<times> nat list) option" where
  "physical_step files cpu st = (case st of (consumed, physicalCores, sibs) \<Rightarrow>
     if length consumed \<le> cpu \<or> consumed ! cpu then Some st
     else map_option (\<lambda>siblings.
       (fold (mark True) siblings (consumed[cpu := True]), physicalCores @ [cpu],
        fold (stamp_sibling cpu) siblings sibs))
       (readCpuList (files (siblings_path cpu))))"

subsection \<open>Groups of a shared L3\<close>

definition group_step :: "sysfs \<Rightarrow> nat list \<Rightarrow> nat \<Rightarrow> bool list \<times> nat list \<times> nat list list \<Rightarrow>
    (bool list \<times> nat list \<times> nat list list) option" where
  "group_step files physicalCores cpu st = (case st of (assigned, ccdOfCpu, ccdGroups) \<Rightarrow>
     if cpu < length assigned \<and> assigned ! cpu then Some st
     else map_option (\<lambda>listed.
       let shared = (if listed = [] then [cpu] else listed);
           inGroup = filter (\<lambda>c. c \<in> set physicalCores) shared;
           assigned = fold (mark True) inGroup assigned;
           assigned = (if inGroup = [] then mark True cpu assigned else assigned);
           inGroup = (if inGroup = [] then [cpu] else inGroup)
       in (assigned, fold (mark (length ccdGroups)) inGroup ccdOfCpu, ccdGroups @ [inGroup]))
       (readCpuList (files (l3_path cpu))))"

subsection \<open>The preferred CCD\<close>

definition largest_step :: "nat \<times> nat \<Rightarrow> nat \<times> nat \<times> nat \<Rightarrow> nat \<times> nat \<times> nat" where
  "largest_step ck st = (case st of (largestKib, secondKib, largestIdx) \<Rightarrow>
     if snd ck > largestKib then (snd ck, largestKib, fst ck)
     else if snd ck > secondKib then (largestKib, snd ck, largestIdx) else st)"

definition non_bsp_step :: "nat \<Rightarrow> nat \<times> nat \<Rightarrow> nat \<times> nat \<Rightarrow> nat \<times> nat" where
  "non_bsp_step bspCcd ck st = (case st of (bestKib, bestIdx) \<Rightarrow>
     if fst ck = bspCcd then st
     else if snd ck > bestKib \<or> (snd ck = bestKib \<and> bestIdx = UINT32_MAX)
     then (snd ck, fst ck) else st)"

definition preferred_ccd :: "nat list \<Rightarrow> nat list \<Rightarrow> nat" where
  "preferred_ccd l3KibOfCcd ccdOfCpu =
     (let ccds = enumerate 0 l3KibOfCcd;
          (largestKib, secondKib, largestIdx) = fold largest_step ccds (0, 0, 0);
          asymmetricL3 = (secondKib = 0 \<or> w64 (largestKib * 2) > w64 (secondKib * 3))
      in if asymmetricL3 then largestIdx
         else let bspCcd = (if ccdOfCpu \<noteq> [] then ccdOfCpu ! 0 else UINT32_MAX);
                  (bestKib, bestIdx) = fold (non_bsp_step bspCcd) ccds (0, UINT32_MAX)
              in if bestIdx = UINT32_MAX then largestIdx else bestIdx)"

subsection \<open>The order of the cores\<close>

definition has_sibling :: "nat list \<Rightarrow> nat \<Rightarrow> bool" where
  "has_sibling sibs cpu \<longleftrightarrow> cpu < length sibs \<and> sibs ! cpu \<noteq> UINT32_MAX"

definition reorder_cores :: "nat list list \<Rightarrow> nat list \<Rightarrow> nat list \<Rightarrow> nat list" where
  "reorder_cores ccdGroups sibs physicalCores =
     (let reordered = concat (map (\<lambda>group. filter (has_sibling sibs) (rev group)
            @ filter (\<lambda>c. \<not> has_sibling sibs c) (rev group)) ccdGroups)
      in if length reordered = length physicalCores then reordered else physicalCores)"

definition detectTopology :: "nat \<Rightarrow> (nat \<Rightarrow> bool) \<Rightarrow> sysfs \<Rightarrow> Topology option" where
  "detectTopology hardware_concurrency baselineMask files =
     (let logicalCount = (if hardware_concurrency = 0 then 1 else hardware_concurrency);
          allowed = allowed_cpus logicalCount baselineMask
      in do {
        (consumed, cores, sibs) \<leftarrow> fold_option (physical_step files) allowed
          (replicate logicalCount False, [], replicate logicalCount UINT32_MAX);
        let physicalCores = (if cores = [] then allowed else cores);
        (assigned, ccdOfCpu, ccdGroups) \<leftarrow> fold_option (group_step files physicalCores)
          physicalCores (replicate logicalCount False, replicate logicalCount 0, []);
        let l3KibOfCcd = map (\<lambda>group. if group = [] then 0
              else readCacheSizeKib (files (cpu_dir (hd group) @ ''/cache/index3/size''))) ccdGroups;
        Some \<lparr> tp_physicalCores = reorder_cores ccdGroups sibs physicalCores,
          tp_ccdGroups = ccdGroups, tp_ccdOfCpu = ccdOfCpu, tp_l3KibOfCcd = l3KibOfCcd,
          tp_l2KibPerCore = (if physicalCores = [] then 0
            else readCacheSizeKib (files (cpu_dir (hd physicalCores) @ ''/cache/index2/size''))),
          tp_preferredCcd = preferred_ccd l3KibOfCcd ccdOfCpu,
          tp_logicalCount = logicalCount, tp_physicalCount = length physicalCores,
          tp_ccdCount = length ccdGroups, tp_smtSiblingOfCpu = sibs \<rparr>
      })"

text \<open>
  What the kernel documents of the two files: a cpu's lists can be read, its L3 list is empty
  (no such file) or names the cpu itself, and cpus of one list have the same list.
\<close>

definition sysfs_ok :: "nat \<Rightarrow> sysfs \<Rightarrow> (nat \<Rightarrow> nat list) \<Rightarrow> (nat \<Rightarrow> nat list) \<Rightarrow> bool" where
  "sysfs_ok n files siblings l3 \<longleftrightarrow> (\<forall>cpu<n.
     readCpuList (files (siblings_path cpu)) = Some (siblings cpu) \<and>
     readCpuList (files (l3_path cpu)) = Some (l3 cpu) \<and>
     (l3 cpu = [] \<or> cpu \<in> set (l3 cpu)) \<and>
     (\<forall>other<n. other \<in> set (l3 cpu) \<longrightarrow> l3 other = l3 cpu))"

lemma length_mark [simp]: "length (mark v i xs) = length xs"
  by (simp add: mark_def)

lemma length_fold_mark [simp]: "length (fold (mark v) is xs) = length xs"
  by (induction "is" arbitrary: xs) simp_all

lemma fold_mark_nth:
  "i < length xs \<Longrightarrow> fold (mark v) is xs ! i = (if i \<in> set is then v else xs ! i)"
  by (induction "is" arbitrary: xs) (auto simp: mark_def nth_list_update)

lemma length_stamp [simp]: "length (stamp_sibling cpu s sibs) = length sibs"
  by (simp add: stamp_sibling_def Let_def)

lemma length_fold_stamp [simp]: "length (fold (stamp_sibling cpu) is sibs) = length sibs"
  by (induction "is" arbitrary: sibs) simp_all

lemma fold_option_invariant:
  assumes "P [] s" and "fold_option f xs s = Some t"
    and "\<And>before x s t. P before s \<Longrightarrow> x \<in> set xs \<Longrightarrow> f x s = Some t \<Longrightarrow> P (before @ [x]) t"
  shows "P xs t"
proof -
  have "P (before @ ys) t" if "P before s" "fold_option f ys s = Some t" "set ys \<subseteq> set xs" for before ys s
    using that
  proof (induction ys arbitrary: before s)
    case (Cons y ys)
    from Cons.prems(2) obtain u where u: "f y s = Some u" "fold_option f ys u = Some t"
      by (auto split: Option.bind_splits)
    have "P (before @ [y]) u" using Cons.prems(1,3) u(1) by (intro assms(3)) simp_all
    from Cons.IH [OF this u(2)] show ?case using Cons.prems(3) by simp
  qed simp
  from this [OF assms(1,2)] show ?thesis by simp
qed

lemma fold_option_total:
  "(\<And>x s. x \<in> set xs \<Longrightarrow> \<exists>t. f x s = Some t) \<Longrightarrow> \<exists>t. fold_option f xs s = Some t"
proof (induction xs arbitrary: s)
  case (Cons x xs)
  from Cons.prems [of x s] obtain u where "f x s = Some u" by auto
  moreover from Cons.IH [of u] Cons.prems obtain t where "fold_option f xs u = Some t" by auto
  ultimately show ?case by simp
qed simp


subsection \<open>The cores\<close>

lemma allowed_cpus:
  assumes "0 < n"
  shows "distinct (allowed_cpus n allowed)" "set (allowed_cpus n allowed) \<subseteq> {..<n}" "allowed_cpus n allowed \<noteq> []"
  using assms by (auto simp: allowed_cpus_def Let_def simp del: upt_Suc)

definition physical_inv :: "nat \<Rightarrow> (nat \<Rightarrow> nat list) \<Rightarrow> nat list \<Rightarrow> bool list \<times> nat list \<times> nat list \<Rightarrow> bool" where
  "physical_inv n siblings before st \<longleftrightarrow> (case st of (consumed, cores, sibs) \<Rightarrow>
     length consumed = n \<and> length sibs = n \<and> distinct cores \<and> set cores \<subseteq> set before \<and>
     (\<forall>c\<in>set before. consumed ! c) \<and> (before \<noteq> [] \<longrightarrow> cores \<noteq> []) \<and>
     (\<forall>c<n. consumed ! c \<longleftrightarrow> c \<in> set cores \<or> (\<exists>p\<in>set cores. c \<in> set (siblings p))))"

lemma physical_step_inv:
  assumes inv: "physical_inv n siblings before st" and cpu: "cpu < n" "set before \<subseteq> {..<n}"
    and read: "readCpuList (files (siblings_path cpu)) = Some (siblings cpu)"
    and step: "physical_step files cpu st = Some t"
  shows "physical_inv n siblings (before @ [cpu]) t"
proof -
  obtain consumed cores sibs where st: "st = (consumed, cores, sibs)" by (cases st)
  have i: "length consumed = n" "length sibs = n" "distinct cores" "set cores \<subseteq> set before"
    "\<forall>c\<in>set before. consumed ! c" "before \<noteq> [] \<longrightarrow> cores \<noteq> []"
    "\<forall>c<n. consumed ! c \<longleftrightarrow> c \<in> set cores \<or> (\<exists>p\<in>set cores. c \<in> set (siblings p))"
    using inv by (simp_all add: physical_inv_def st)
  show ?thesis
  proof (cases "consumed ! cpu")
    case True
    then have "t = st" using step i(1) cpu(1) by (simp add: physical_step_def st)
    moreover have "cores \<noteq> []" using True i(7) cpu(1) by auto
    ultimately show ?thesis using i True by (auto simp: physical_inv_def st)
  next
    case False
    then have t: "t = (fold (mark True) (siblings cpu) (consumed[cpu := True]), cores @ [cpu],
        fold (stamp_sibling cpu) (siblings cpu) sibs)"
      using step i(1) cpu(1) read by (simp add: physical_step_def st)
    have new: "cpu \<notin> set cores" using False i(7) cpu(1) by auto
    have mk: "fold (mark True) (siblings cpu) (consumed[cpu := True]) ! c \<longleftrightarrow>
        c = cpu \<or> c \<in> set (siblings cpu) \<or> consumed ! c" if "c < n" for c
      using that i(1) cpu(1) by (auto simp: fold_mark_nth nth_list_update)
    have "\<forall>c\<in>set (before @ [cpu]). fold (mark True) (siblings cpu) (consumed[cpu := True]) ! c"
      using mk i(5) cpu by auto
    moreover have "\<forall>c<n. fold (mark True) (siblings cpu) (consumed[cpu := True]) ! c \<longleftrightarrow>
        c \<in> set (cores @ [cpu]) \<or> (\<exists>p\<in>set (cores @ [cpu]). c \<in> set (siblings p))"
      using mk i(7) by auto
    moreover have "set (cores @ [cpu]) \<subseteq> set (before @ [cpu])" using i(4) by auto
    ultimately show ?thesis unfolding physical_inv_def t prod.case using i(1-3) new by simp
  qed
qed

subsection \<open>The groups\<close>

definition l3_class :: "(nat \<Rightarrow> nat list) \<Rightarrow> nat list \<Rightarrow> nat \<Rightarrow> nat set" where
  "l3_class l3 cores c = {d \<in> set cores. d = c \<or> d \<in> set (l3 c)}"

definition group_inv :: "nat \<Rightarrow> (nat \<Rightarrow> nat list) \<Rightarrow> nat list \<Rightarrow> nat list \<Rightarrow> bool list \<times> nat list \<times> nat list list \<Rightarrow> bool" where
  "group_inv n l3 cores before st \<longleftrightarrow> (case st of (assigned, ccdOf, groups) \<Rightarrow>
     length assigned = n \<and> length ccdOf = n \<and>
     (\<forall>c<n. assigned ! c \<longleftrightarrow> c \<in> set (concat groups)) \<and>
     distinct (concat groups) \<and> set (concat groups) \<subseteq> set cores \<and>
     set before \<subseteq> set (concat groups) \<and>
     (\<forall>i<length groups. groups ! i \<noteq> [] \<and>
        (\<forall>c\<in>set (groups ! i). ccdOf ! c = i \<and> set (groups ! i) = l3_class l3 cores c)))"

lemma group_step_inv:
  assumes inv: "group_inv n l3 cores before st" and ok: "sysfs_ok n files siblings l3"
    and cores: "set cores \<subseteq> {..<n}" "cpu \<in> set cores"
    and step: "group_step files cores cpu st = Some t"
  shows "group_inv n l3 cores (before @ [cpu]) t"
proof -
  obtain assigned ccdOf groups where st: "st = (assigned, ccdOf, groups)" by (cases st)
  have i: "length assigned = n" "length ccdOf = n"
    "\<forall>c<n. assigned ! c \<longleftrightarrow> c \<in> set (concat groups)"
    "distinct (concat groups)" "set (concat groups) \<subseteq> set cores" "set before \<subseteq> set (concat groups)"
    "\<forall>i<length groups. groups ! i \<noteq> [] \<and>
        (\<forall>c\<in>set (groups ! i). ccdOf ! c = i \<and> set (groups ! i) = l3_class l3 cores c)"
    using inv by (simp_all add: group_inv_def st)
  have cpu: "cpu < n" using cores by auto
  have read: "readCpuList (files (l3_path cpu)) = Some (l3 cpu)"
    and self: "l3 cpu = [] \<or> cpu \<in> set (l3 cpu)"
    and same: "\<And>d. d < n \<Longrightarrow> d \<in> set (l3 cpu) \<Longrightarrow> l3 d = l3 cpu"
    using ok cpu unfolding sysfs_ok_def by blast+
  show ?thesis
  proof (cases "assigned ! cpu")
    case True
    then have t: "t = (assigned, ccdOf, groups)" using step i(1) cpu by (simp add: group_step_def st)
    have "cpu \<in> set (concat groups)" using i(3) cpu True by blast
    then show ?thesis unfolding group_inv_def t prod.case using i by (intro conjI) simp_all
  next
    case False
    define g where "g = filter (\<lambda>c. c \<in> set cores) (if l3 cpu = [] then [cpu] else l3 cpu)"
    have g: "set g = l3_class l3 cores cpu" using self by (auto simp: g_def l3_class_def)
    have cg: "cpu \<in> set g" using cores(2) by (simp add: g l3_class_def)
    then have ne: "g \<noteq> []" by auto
    have dg: "distinct g" using readCpuList_sound [OF read] by (simp add: g_def)
    have t: "t = (fold (mark True) g assigned, fold (mark (length groups)) g ccdOf, groups @ [g])"
      using step i(1) cpu False read ne by (simp add: group_step_def st Let_def flip: g_def)
    have cls: "l3_class l3 cores d = set g" if "d \<in> set g" for d
      using that self same [of d] cores(1) by (cases "d = cpu") (auto simp: g l3_class_def)
    have fresh: "set g \<inter> set (concat groups) = {}"
    proof (rule ccontr)
      assume "\<not> ?thesis"
      then obtain d k where d: "d \<in> set g" "k < length groups" "d \<in> set (groups ! k)"
        by (fastforce simp: in_set_conv_nth)
      then have "cpu \<in> set (groups ! k)" using i(7) cls [OF d(1)] cg by auto
      moreover have "groups ! k \<in> set groups" using d(2) by simp
      ultimately have "cpu \<in> set (concat groups)" by auto
      then show False using False i(3) cpu by simp
    qed
    have g_le: "set g \<subseteq> set cores" by (auto simp: g l3_class_def)
    have nth_a: "fold (mark True) g assigned ! c \<longleftrightarrow> c \<in> set g \<or> assigned ! c" if "c < n" for c
      using that i(1) by (simp add: fold_mark_nth)
    have nth_o: "fold (mark (length groups)) g ccdOf ! c = (if c \<in> set g then length groups else ccdOf ! c)"
      if "c \<in> set cores" for c
      using that i(2) cores(1) by (intro fold_mark_nth) auto
    have last': "(groups @ [g]) ! k \<noteq> [] \<and> (\<forall>c\<in>set ((groups @ [g]) ! k).
        fold (mark (length groups)) g ccdOf ! c = k \<and> set ((groups @ [g]) ! k) = l3_class l3 cores c)"
      if k: "k < length (groups @ [g])" for k
    proof (cases "k = length groups")
      case True
      then show ?thesis using ne cls nth_o g_le by auto
    next
      case False
      then have k: "k < length groups" using k by simp
      then have "groups ! k \<in> set groups" by simp
      then have sub: "set (groups ! k) \<subseteq> set (concat groups)" by auto
      have "fold (mark (length groups)) g ccdOf ! c = ccdOf ! c" if "c \<in> set (groups ! k)" for c
      proof -
        have "c \<in> set (concat groups)" using that sub by (rule subsetD [rotated])
        then have "c \<in> set cores" "c \<notin> set g" using i(5) fresh by blast+
        then show ?thesis by (simp add: nth_o)
      qed
      then show ?thesis using k i(7) by (simp add: nth_append)
    qed
    show ?thesis unfolding group_inv_def t prod.case
      using i dg fresh g_le last' cg nth_a by (intro conjI) auto
  qed
qed

subsection \<open>The preferred CCD\<close>

lemma fold_keeps:
  "P s \<Longrightarrow> (\<And>x s. x \<in> set xs \<Longrightarrow> P s \<Longrightarrow> P (f x s)) \<Longrightarrow> P (fold f xs s)"
  by (induction xs arbitrary: s) simp_all

lemma preferred_ccd_less:
  assumes "l3KibOfCcd \<noteq> []"
  shows "preferred_ccd l3KibOfCcd ccdOfCpu < length l3KibOfCcd"
proof -
  let ?n = "length l3KibOfCcd"
  have mem: "fst ck < ?n" if "ck \<in> set (enumerate 0 l3KibOfCcd)" for ck
    using that by (simp add: in_set_enumerate_eq)
  have l: "snd (snd (fold largest_step (enumerate 0 l3KibOfCcd) (0, 0, 0))) < ?n"
    by (rule fold_keeps [where P = "\<lambda>st. snd (snd st) < ?n"])
      (use assms mem in \<open>auto simp: largest_step_def\<close>)
  have b: "snd (fold (non_bsp_step bsp) (enumerate 0 l3KibOfCcd) (0, UINT32_MAX)) = UINT32_MAX \<or>
      snd (fold (non_bsp_step bsp) (enumerate 0 l3KibOfCcd) (0, UINT32_MAX)) < ?n" for bsp
    by (rule fold_keeps [where P = "\<lambda>st. snd st = UINT32_MAX \<or> snd st < ?n"])
      (use mem in \<open>auto simp: non_bsp_step_def split: if_splits\<close>)
  show ?thesis using l b unfolding preferred_ccd_def Let_def
    by (auto split: prod.splits) (metis snd_conv)+
qed

lemma mset_reordered:
  "mset (concat (map (\<lambda>group. filter (has_sibling sibs) (rev group)
      @ filter (\<lambda>c. \<not> has_sibling sibs c) (rev group)) groups)) = mset (concat groups)"
proof (induction groups)
  case (Cons group groups)
  have "mset (filter (has_sibling sibs) (rev group)) + mset (filter (\<lambda>c. \<not> has_sibling sibs c) (rev group))
      = mset group"
    using multiset_partition [of "mset group" "has_sibling sibs"] by (simp add: mset_filter)
  with Cons show ?case by simp
qed simp


subsection \<open>The probe is sound\<close>

lemma sysfs_ok_siblings:
  "sysfs_ok n files siblings l3 \<Longrightarrow> c < n \<Longrightarrow>
    readCpuList (files (siblings_path c)) = Some (siblings c)"
  unfolding sysfs_ok_def by blast

lemma sysfs_ok_l3:
  "sysfs_ok n files siblings l3 \<Longrightarrow> c < n \<Longrightarrow> readCpuList (files (l3_path c)) = Some (l3 c)"
  unfolding sysfs_ok_def by blast

lemma physical_cores:
  assumes ok: "sysfs_ok n files siblings l3" and allowed: "set allowed \<subseteq> {..<n}" "allowed \<noteq> []"
  obtains consumed cores sibs where
    "fold_option (physical_step files) allowed (replicate n False, [], replicate n UINT32_MAX)
      = Some (consumed, cores, sibs)"
    "distinct cores" "set cores \<subseteq> set allowed" "cores \<noteq> []"
    "\<forall>c\<in>set allowed. c \<in> set cores \<or> (\<exists>p\<in>set cores. c \<in> set (siblings p))"
proof -
  have read: "readCpuList (files (siblings_path c)) = Some (siblings c)" if "c \<in> set allowed" for c
    using sysfs_ok_siblings [OF ok] allowed that by auto
  have total: "\<exists>t. physical_step files c st = Some t" if "c \<in> set allowed" for c st
    using read [OF that] by (cases st) (simp add: physical_step_def)
  have "\<exists>st. fold_option (physical_step files) allowed
      (replicate n False, [], replicate n UINT32_MAX) = Some st"
    by (rule fold_option_total) (rule total)
  then obtain consumed cores sibs where
    c: "fold_option (physical_step files) allowed (replicate n False, [], replicate n UINT32_MAX)
      = Some (consumed, cores, sibs)" by auto
  let ?P = "\<lambda>before st. set before \<subseteq> {..<n} \<and> physical_inv n siblings before st"
  have "?P allowed (consumed, cores, sibs)"
  proof (rule fold_option_invariant [OF _ c, where P = ?P])
    fix before x s t
    assume *: "?P before s" "x \<in> set allowed" "physical_step files x s = Some t"
    then show "?P (before @ [x]) t"
      using physical_step_inv [of n siblings before s x files t] read allowed(1) by auto
  qed (simp add: physical_inv_def)
  then have "distinct cores" "set cores \<subseteq> set allowed" "cores \<noteq> []"
    "\<forall>c\<in>set allowed. c \<in> set cores \<or> (\<exists>p\<in>set cores. c \<in> set (siblings p))"
    using allowed by (auto simp: physical_inv_def)
  with c show ?thesis by (rule that)
qed

lemma ccd_groups:
  assumes ok: "sysfs_ok n files siblings l3" and cores: "set cores \<subseteq> {..<n}" "distinct cores"
  obtains assigned ccdOf groups where
    "fold_option (group_step files cores) cores (replicate n False, replicate n 0, [])
      = Some (assigned, ccdOf, groups)"
    "mset (concat groups) = mset cores"
    "\<forall>i<length groups. \<forall>c\<in>set (groups ! i). ccdOf ! c = i \<and> set (groups ! i) = l3_class l3 cores c"
proof -
  have total: "\<exists>t. group_step files cores c st = Some t" if "c \<in> set cores" for c st
    using sysfs_ok_l3 [OF ok, of c] that cores by (cases st) (auto simp: group_step_def Let_def)
  have "\<exists>st. fold_option (group_step files cores) cores
      (replicate n False, replicate n 0, []) = Some st"
    by (rule fold_option_total) (rule total)
  then obtain assigned ccdOf groups where
    g: "fold_option (group_step files cores) cores (replicate n False, replicate n 0, [])
      = Some (assigned, ccdOf, groups)" by auto
  have "group_inv n l3 cores cores (assigned, ccdOf, groups)"
    by (rule fold_option_invariant [OF _ g, where P = "group_inv n l3 cores"],
        simp add: group_inv_def, rule group_step_inv [OF _ ok cores(1)])
  then have i: "distinct (concat groups)" "set (concat groups) \<subseteq> set cores"
      "set cores \<subseteq> set (concat groups)"
    and c: "\<forall>i<length groups. \<forall>c\<in>set (groups ! i). ccdOf ! c = i \<and> set (groups ! i) = l3_class l3 cores c"
    unfolding group_inv_def prod.case by blast+
  from i cores(2) have "mset (concat groups) = mset cores"
    by (metis set_eq_iff_mset_eq_distinct subset_antisym)
  from g this c show ?thesis by (rule that)
qed

text \<open>
  C25. With sysfs files as the kernel writes them, the topology probe returns, and its result is a
  consistent picture of the machine: the physical cores are pairwise different, at least one, and
  cover every allowed cpu up to SMT siblings; the CCD groups partition the physical cores into the
  classes of a shared L3; \<open>ccdOfCpu\<close> is the index of a core's group, the counts are the lengths
  and the preferred CCD exists.
\<close>

theorem detectTopology_sound:
  assumes "sysfs_ok (max 1 hwc) files siblings l3"
  shows "\<exists>topo. detectTopology hwc baselineMask files = Some topo \<and>
    (let cores = tp_physicalCores topo; groups = tp_ccdGroups topo
     in distinct cores \<and> cores \<noteq> [] \<and> length cores = tp_physicalCount topo \<and>
        (\<forall>c\<in>set (allowed_cpus (max 1 hwc) baselineMask).
           c \<in> set cores \<or> (\<exists>p\<in>set cores. c \<in> set (siblings p))) \<and>
        mset (concat groups) = mset cores \<and> length groups = tp_ccdCount topo \<and>
        tp_preferredCcd topo < length groups \<and>
        (\<forall>i<length groups. \<forall>c\<in>set (groups ! i). tp_ccdOfCpu topo ! c = i \<and>
           set (groups ! i) = {d \<in> set cores. d = c \<or> d \<in> set (l3 c)}))"
proof -
  define n where "n = max 1 hwc"
  have n0: "0 < n" "(if hwc = 0 then 1 else hwc) = n" by (simp_all add: n_def)
  define allowed where "allowed = allowed_cpus n baselineMask"
  note al = allowed_cpus [OF n0(1), of baselineMask, folded allowed_def]
  have ok: "sysfs_ok n files siblings l3" using assms by (simp add: n_def)
  obtain consumed cores sibs where c: "fold_option (physical_step files) allowed
      (replicate n False, [], replicate n UINT32_MAX) = Some (consumed, cores, sibs)"
    and cores: "distinct cores" "set cores \<subseteq> set allowed" "cores \<noteq> []"
      "\<forall>c\<in>set allowed. c \<in> set cores \<or> (\<exists>p\<in>set cores. c \<in> set (siblings p))"
    by (rule physical_cores [OF ok al(2,3)])
  have cn: "set cores \<subseteq> {..<n}" using cores(2) al(2) by auto
  obtain assigned ccdOf groups where g: "fold_option (group_step files cores) cores
      (replicate n False, replicate n 0, []) = Some (assigned, ccdOf, groups)"
    and mg: "mset (concat groups) = mset cores"
    and cls: "\<forall>i<length groups. \<forall>c\<in>set (groups ! i). ccdOf ! c = i \<and>
      set (groups ! i) = l3_class l3 cores c"
    by (rule ccd_groups [OF ok cn cores(1)])
  have gne: "groups \<noteq> []" using mg cores(3) by auto
  have mr: "mset (reorder_cores groups sibs cores) = mset cores"
    using mset_reordered [of sibs groups] mg by (simp add: reorder_cores_def Let_def)
  then have r: "distinct (reorder_cores groups sibs cores)" "set (reorder_cores groups sibs cores) = set cores"
      "length (reorder_cores groups sibs cores) = length cores"
    using cores(1) mset_eq_imp_distinct_iff mset_eq_setD mset_eq_length by blast+
  define l3Kib where "l3Kib = map (\<lambda>group. if group = [] then 0
      else readCacheSizeKib (files (cpu_dir (hd group) @ ''/cache/index3/size''))) groups"
  have "preferred_ccd l3Kib ccdOf < length l3Kib"
    using gne by (intro preferred_ccd_less) (simp add: l3Kib_def)
  then have pref: "preferred_ccd l3Kib ccdOf < length groups" by (simp add: l3Kib_def)
  have e: "(if cores = [] then allowed else cores) = cores" using cores(3) by simp
  show ?thesis
    unfolding detectTopology_def Let_def n0(2) allowed_def [symmetric] c bind.bind_lunit prod.case e g
      l3Kib_def [symmetric]
    using cores mg mr r pref cls r(3) [symmetric]
    by (auto simp: l3_class_def n_def allowed_def)
qed

text \<open>\<open>enumerateCcds\<close>: the groups, or one group of every cpu the host is known to have.\<close>

definition enumerateCcds :: "nat \<Rightarrow> Topology \<Rightarrow> nat list list" where
  "enumerateCcds hardware_concurrency topo =
     (if tp_ccdGroups topo \<noteq> [] then tp_ccdGroups topo
      else [if tp_physicalCores topo \<noteq> [] then tp_physicalCores topo
            else [0..<(if hardware_concurrency > 0 then hardware_concurrency else 1)]])"

text \<open>Two cores with two hardware threads each, one L3.\<close>

definition example_sysfs :: sysfs where
  "example_sysfs path =
     (let file = \<lambda>r. Some (show_cpu_list [r] @ [CHR 0x0A])
      in if path \<in> set (map siblings_path [0, 1]) then file (0, 1)
         else if path \<in> set (map siblings_path [2, 3]) then file (2, 3)
         else if path \<in> set (map l3_path [0, 1, 2, 3]) then file (0, 3) else None)"

lemma to_string_inject [simp]: "to_string a = to_string b \<longleftrightarrow> a = b"
  using dec_value_to_string by metis

lemma path_inject [simp]:
  "siblings_path a = siblings_path b \<longleftrightarrow> a = b" "l3_path a = l3_path b \<longleftrightarrow> a = b"
  "siblings_path a \<noteq> l3_path b" "l3_path b \<noteq> siblings_path a"
proof -
  show ne: "siblings_path a \<noteq> l3_path b"
  proof
    assume "siblings_path a = l3_path b"
    then have "rev (siblings_path a) = rev (l3_path b)" by (rule arg_cong)
    then show False by (simp add: siblings_path_def l3_path_def)
  qed
  show "l3_path b \<noteq> siblings_path a" using ne by (rule not_sym)
qed (simp_all add: siblings_path_def l3_path_def cpu_dir_def)

lemma example_sysfs_ok:
  "sysfs_ok (max 1 4) example_sysfs (\<lambda>c. if c < 2 then [0, 1] else [2, 3]) (\<lambda>_. [0, 1, 2, 3])"
proof -
  have read: "readCpuList (Some (show_cpu_list [(a, b)] @ [CHR 0x0A])) = Some [a..<b + 1]"
    if "a \<le> b" "b < 4" for a b
  proof -
    have "{a..b} = set [a..<b + 1]" by auto
    then show ?thesis using readCpuList_show [of "[(a, b)]" "[]"] that
      by (simp add: sorted_list_of_set_sort_remdups distinct_remdups_id sorted_sort_id del: upt_Suc)
  qed
  have "c \<in> {0, 1, 2, 3}" if "c < 4" for c :: nat using that by auto
  then show ?thesis
    by (fastforce simp: sysfs_ok_def example_sysfs_def Let_def read upt_rec numeral_eq_Suc
        simp del: show_cpu_list.simps)
qed

theorem detectTopology_sound_witness:
  "\<exists>topo. detectTopology 4 (\<lambda>_. True) example_sysfs = Some topo \<and>
    mset (concat (tp_ccdGroups topo)) = mset (tp_physicalCores topo) \<and>
    tp_preferredCcd topo < length (tp_ccdGroups topo)"
  using detectTopology_sound [OF example_sysfs_ok, of "\<lambda>_. True"] by (auto simp: Let_def)

section \<open>The participants' cpus\<close>

text \<open>\<open>reserveProducerCpuFirstCcdOnly\<close>: the cpus of the preferred CCD move to the front.\<close>

definition on_ccd :: "Topology \<Rightarrow> nat \<Rightarrow> bool" where
  "on_ccd topo cpu \<longleftrightarrow> cpu < length (tp_ccdOfCpu topo) \<and> tp_ccdOfCpu topo ! cpu = tp_preferredCcd topo"

definition ccd_first :: "Topology \<Rightarrow> bool \<Rightarrow> nat list \<Rightarrow> nat list" where
  "ccd_first topo standalone pins =
     (if standalone \<and> tp_preferredCcd topo < length (tp_ccdGroups topo)
      then let reordered = filter (on_ccd topo) pins @ filter (\<lambda>c. \<not> on_ccd topo c) pins
           in if length reordered = length pins then reordered else pins
      else pins)"

definition reserveProducerCpuFirstCcdOnly :: "nat list \<Rightarrow> bool \<Rightarrow> Topology \<Rightarrow> nat list" where
  "reserveProducerCpuFirstCcdOnly cpuPins standalone topo =
     (if \<not> standalone \<or> length cpuPins \<le> 1 then cpuPins else ccd_first topo standalone cpuPins)"

text \<open>Exception A: slot 1 becomes the producer's SMT sibling.\<close>

definition swap :: "nat \<Rightarrow> nat \<Rightarrow> 'a list \<Rightarrow> 'a list" where
  "swap i j xs = xs[i := xs ! j, j := xs ! i]"

definition index_of :: "'a \<Rightarrow> 'a list \<Rightarrow> nat" where
  "index_of x xs = length (takeWhile (\<lambda>y. y \<noteq> x) xs)"

definition sibling_second :: "Topology \<Rightarrow> nat list \<Rightarrow> nat list" where
  "sibling_second topo pins =
     (let prodCpu = pins ! 0; smt = tp_smtSiblingOfCpu topo
      in if prodCpu < length smt
         then let sib = smt ! prodCpu
              in if sib \<noteq> UINT32_MAX \<and> sib \<noteq> prodCpu
                 then if sib \<notin> set pins then take 1 pins @ sib # drop 1 pins
                      else if index_of sib pins \<noteq> 1 then swap 1 (index_of sib pins) pins else pins
                 else pins
         else pins)"

text \<open>Exception B: SMT siblings are appended, those of the preferred CCD in the first pass.\<close>

definition append_sibling :: "Topology \<Rightarrow> bool \<Rightarrow> nat \<Rightarrow> nat list \<Rightarrow> nat list" where
  "append_sibling topo firstPass i pins =
     (let cpu = pins ! i; smt = tp_smtSiblingOfCpu topo
      in if length smt \<le> cpu then pins
         else let sib = smt ! cpu;
                  preferredCcdMatch = (tp_preferredCcd topo < length (tp_ccdGroups topo) \<and> on_ccd topo sib)
              in if sib = UINT32_MAX \<or> sib = cpu then pins
                 else if preferredCcdMatch \<noteq> firstPass then pins
                 else if sib \<in> set pins then pins else pins @ [sib])"

definition reserveProducerCpuFirst :: "nat list \<Rightarrow> nat \<Rightarrow> bool \<Rightarrow> Topology \<Rightarrow> nat list" where
  "reserveProducerCpuFirst cpuPins participants standalone topo =
     (if length cpuPins \<le> 1 then cpuPins
      else let pins = ccd_first topo standalone cpuPins
           in if participants = 2 \<and> tp_smtSiblingOfCpu topo \<noteq> [] then sibling_second topo pins
              else if participants > length pins \<and> tp_smtSiblingOfCpu topo \<noteq> []
              then fold (append_sibling topo False) [0..<length pins]
                     (fold (append_sibling topo True) [0..<length pins] pins)
              else pins)"

lemma ccd_first_eq:
  "ccd_first topo standalone pins =
    (if standalone \<and> tp_preferredCcd topo < length (tp_ccdGroups topo)
     then filter (on_ccd topo) pins @ filter (\<lambda>c. \<not> on_ccd topo c) pins else pins)"
  using sum_length_filter_compl [of "on_ccd topo" pins] by (simp add: ccd_first_def Let_def)

lemma mset_ccd_first [simp]: "mset (ccd_first topo standalone pins) = mset pins"
  using multiset_partition [of "mset pins" "on_ccd topo"] by (simp add: ccd_first_eq mset_filter)

lemma ccd_first_set [simp]:
  "set (ccd_first topo standalone pins) = set pins" "length (ccd_first topo standalone pins) = length pins"
  "distinct (ccd_first topo standalone pins) \<longleftrightarrow> distinct pins"
  using mset_ccd_first [of topo standalone pins] mset_eq_setD mset_eq_length mset_eq_imp_distinct_iff
  by blast+

definition smt_siblings :: "Topology \<Rightarrow> nat set \<Rightarrow> nat set" where
  "smt_siblings topo cpus = {tp_smtSiblingOfCpu topo ! c | c. c \<in> cpus \<and> c < length (tp_smtSiblingOfCpu topo)}"

lemma index_of_less: "x \<in> set xs \<Longrightarrow> index_of x xs < length xs \<and> xs ! index_of x xs = x"
  by (induction xs) (auto simp: index_of_def)

lemma mset_swap: "i < length xs \<Longrightarrow> j < length xs \<Longrightarrow> mset (swap i j xs) = mset xs"
  by (simp add: swap_def mset_swap)

lemma sibling_second_sound:
  assumes "2 \<le> length pins" "distinct pins"
  shows "distinct (sibling_second topo pins) \<and> set pins \<subseteq> set (sibling_second topo pins) \<and>
    set (sibling_second topo pins) \<subseteq> set pins \<union> smt_siblings topo {hd pins} \<and>
    hd (sibling_second topo pins) = hd pins"
proof -
  obtain p q ps where pins: "pins = p # q # ps"
    using assms(1) by (cases pins; cases "tl pins") auto
  let ?smt = "tp_smtSiblingOfCpu topo"
  show ?thesis
  proof (cases "p < length ?smt \<and> ?smt ! p \<noteq> UINT32_MAX \<and> ?smt ! p \<noteq> p")
    case False
    then have "sibling_second topo pins = pins" by (auto simp: sibling_second_def Let_def pins)
    then show ?thesis using assms(2) by simp
  next
    case True
    let ?i = "index_of (?smt ! p) pins"
    have sib: "?smt ! p \<in> smt_siblings topo {hd pins}" using True by (auto simp: smt_siblings_def pins)
    show ?thesis
    proof (cases "?smt ! p \<in> set pins")
      case False
      then show ?thesis using True assms(2) sib by (auto simp: sibling_second_def Let_def pins)
    next
      case mem: True
      have i: "?i < length pins" "pins ! ?i = ?smt ! p" using index_of_less [OF mem] by simp_all
      have i0: "?i \<noteq> 0" using True by (simp add: index_of_def pins)
      have m: "mset (swap 1 ?i pins) = mset pins" using i(1) by (intro mset_swap) (simp_all add: pins)
      have "hd (swap 1 ?i pins) = hd pins" using i0 by (cases ?i) (simp_all add: swap_def pins)
      moreover have "set (swap 1 ?i pins) = set pins" "distinct (swap 1 ?i pins)"
        using m assms(2) mset_eq_setD mset_eq_imp_distinct_iff by blast+
      ultimately show ?thesis using True mem assms(2)
        by (auto simp: sibling_second_def Let_def hd_conv_nth [symmetric] pins)
    qed
  qed
qed

definition overflow_pins :: "Topology \<Rightarrow> nat list \<Rightarrow> nat list \<Rightarrow> bool" where
  "overflow_pins topo pins qs \<longleftrightarrow> distinct qs \<and>
     (\<exists>extra. qs = pins @ extra \<and> set extra \<subseteq> smt_siblings topo (set pins))"

lemma append_sibling_overflow:
  assumes "overflow_pins topo pins qs" "i < length pins"
  shows "overflow_pins topo pins (append_sibling topo firstPass i qs)"
proof -
  obtain extra where q: "qs = pins @ extra" "set extra \<subseteq> smt_siblings topo (set pins)" "distinct qs"
    using assms(1) by (auto simp: overflow_pins_def)
  let ?c = "pins ! i"
  have c: "qs ! i = ?c" "?c \<in> set pins" using assms(2) by (simp_all add: q(1) nth_append)
  consider "append_sibling topo firstPass i qs = qs"
    | "append_sibling topo firstPass i qs = qs @ [tp_smtSiblingOfCpu topo ! ?c]"
      "?c < length (tp_smtSiblingOfCpu topo)" "tp_smtSiblingOfCpu topo ! ?c \<notin> set qs"
    unfolding append_sibling_def Let_def c(1) by (simp split: if_splits) (meson linorder_not_less)+
  then show ?thesis
  proof cases
    case 2
    then have "tp_smtSiblingOfCpu topo ! ?c \<in> smt_siblings topo (set pins)"
      using c(2) by (auto simp: smt_siblings_def)
    with 2 q show ?thesis by (auto simp: overflow_pins_def)
  qed (use assms(1) in simp)
qed

lemma fold_append_sibling:
  assumes "overflow_pins topo pins qs"
  shows "overflow_pins topo pins (fold (append_sibling topo firstPass) [0..<length pins] qs)"
  by (rule fold_keeps [where P = "overflow_pins topo pins"]) (simp_all add: append_sibling_overflow assms)

lemma hd_ccd_first:
  assumes "standalone" "tp_preferredCcd topo < length (tp_ccdGroups topo)" "c \<in> set pins" "on_ccd topo c"
  shows "on_ccd topo (hd (ccd_first topo standalone pins))"
proof -
  have ne: "filter (on_ccd topo) pins \<noteq> []" using assms(3,4) by (auto simp: filter_empty_conv)
  then have "hd (ccd_first topo standalone pins) = hd (filter (on_ccd topo) pins)"
    using assms(1,2) by (simp add: ccd_first_eq)
  moreover have "hd (filter (on_ccd topo) pins) \<in> set (filter (on_ccd topo) pins)"
    using ne by (rule hd_in_set)
  ultimately show ?thesis by simp
qed

text \<open>
  C26. The placement of the participants keeps every pinned cpu, uses no cpu twice and adds only
  SMT siblings of pinned cpus; on a standalone pool the producer's slot 0 sits on the preferred
  CCD whenever a pinned cpu is on it; and without oversubscription and apart from pools of two the
  result is the pin list with the preferred CCD's cpus moved to the front.
\<close>

theorem reserveProducerCpuFirst_sound:
  assumes "distinct cpuPins" "1 < length cpuPins"
  shows "let r = reserveProducerCpuFirst cpuPins participants standalone topo;
      preferred = (standalone \<and> tp_preferredCcd topo < length (tp_ccdGroups topo))
    in distinct r \<and> set cpuPins \<subseteq> set r \<and> set r \<subseteq> set cpuPins \<union> smt_siblings topo (set cpuPins) \<and>
      (preferred \<and> (\<exists>c\<in>set cpuPins. on_ccd topo c) \<longrightarrow> on_ccd topo (hd r)) \<and>
      (participants \<le> length cpuPins \<and> participants \<noteq> 2 \<longrightarrow>
        r = (if preferred then filter (on_ccd topo) cpuPins @ filter (\<lambda>c. \<not> on_ccd topo c) cpuPins
             else cpuPins))"
proof -
  let ?p = "ccd_first topo standalone cpuPins"
  define r where "r = reserveProducerCpuFirst cpuPins participants standalone topo"
  have p: "distinct ?p" "2 \<le> length ?p" using assms(1,2) by simp_all
  have p3: "?p \<noteq> []" using assms(2) by (simp flip: length_greater_0_conv)
  consider (a) "r = sibling_second topo ?p" "participants = 2"
    | (b) "r = fold (append_sibling topo False) [0..<length ?p]
        (fold (append_sibling topo True) [0..<length ?p] ?p)" "length ?p < participants"
    | (c) "r = ?p"
    unfolding r_def reserveProducerCpuFirst_def Let_def using assms(2) by (metis linorder_not_le)
  then have "distinct r \<and> set ?p \<subseteq> set r \<and> set r \<subseteq> set ?p \<union> smt_siblings topo (set ?p) \<and>
      hd r = hd ?p \<and> (participants \<le> length ?p \<and> participants \<noteq> 2 \<longrightarrow> r = ?p)"
  proof cases
    case a
    have "smt_siblings topo {hd ?p} \<subseteq> smt_siblings topo (set ?p)"
      using hd_in_set [OF p3] unfolding smt_siblings_def by blast
    then show ?thesis using sibling_second_sound [OF p(2,1), of topo] a by blast
  next
    case b
    have "overflow_pins topo ?p ?p" using p(1) by (simp add: overflow_pins_def)
    then have "overflow_pins topo ?p r" unfolding b(1) by (intro fold_append_sibling)
    then show ?thesis using b(2) p3 by (auto simp: overflow_pins_def)
  qed (use p in auto)
  moreover have "on_ccd topo (hd ?p)" if "standalone" "tp_preferredCcd topo < length (tp_ccdGroups topo)"
      "\<exists>c\<in>set cpuPins. on_ccd topo c"
    using that hd_ccd_first by blast
  ultimately show ?thesis unfolding Let_def ccd_first_eq [symmetric] r_def [symmetric] by simp
qed

text \<open>Two CCDs of two cores with two threads each; \<open>ccdOfCpu\<close> as the probe leaves it.\<close>

definition two_ccds :: Topology where
  "two_ccds = \<lparr> tp_physicalCores = [2, 0, 6, 4], tp_ccdGroups = [[0, 2], [4, 6]],
     tp_ccdOfCpu = [0, 0, 0, 0, 1, 0, 1, 0], tp_l3KibOfCcd = [32768, 32768], tp_l2KibPerCore = 1024,
     tp_preferredCcd = 1, tp_logicalCount = 8, tp_physicalCount = 4, tp_ccdCount = 2,
     tp_smtSiblingOfCpu = [1, 0, 3, 2, 5, 4, 7, 6] \<rparr>"

theorem reserveProducerCpuFirst_sound_witness:
  "distinct (reserveProducerCpuFirst [2, 0, 6, 4] 6 True two_ccds) \<and>
    on_ccd two_ccds (hd (reserveProducerCpuFirst [2, 0, 6, 4] 6 True two_ccds))"
  using reserveProducerCpuFirst_sound [of "[2, 0, 6, 4]" 6 True two_ccds]
  by (simp add: Let_def two_ccds_def on_ccd_def)

section \<open>The slot tables\<close>

definition participant_pins :: "Affinity \<Rightarrow> nat list \<Rightarrow> nat \<Rightarrow> bool \<Rightarrow> Topology \<Rightarrow> nat list" where
  "participant_pins workerAffinity cpuPins participants standalone topo =
     (if workerAffinity = PerCpuSmtPair
      then reserveProducerCpuFirst cpuPins participants standalone topo
      else reserveProducerCpuFirstCcdOnly cpuPins standalone topo)"

definition effective_participants :: "nat \<Rightarrow> nat list \<Rightarrow> Topology \<Rightarrow> nat" where
  "effective_participants participants participantPins topo =
     (let maxByTopology = (if participantPins \<noteq> [] then length participantPins
            else if tp_physicalCount topo > 0 then tp_physicalCount topo else participants)
      in if participants \<le> maxByTopology then participants else maxByTopology)"

definition pendingMaskBits :: "nat \<Rightarrow> u64" where
  "pendingMaskBits effective =
     (if effective \<ge> 64 then NOT 0 AND NOT 1 else (push_bit effective 1 - 1) AND NOT 1)"

definition cpuId :: "nat list \<Rightarrow> nat \<Rightarrow> nat" where
  "cpuId participantPins i = (if i < length participantPins then participantPins ! i else UINT32_MAX)"

definition ccdId :: "Topology \<Rightarrow> nat \<Rightarrow> nat" where
  "ccdId topo cpu = (if cpu \<noteq> UINT32_MAX \<and> cpu < length (tp_ccdOfCpu topo)
     then tp_ccdOfCpu topo ! cpu else UINT32_MAX)"

definition ccdOfSlot :: "nat list \<Rightarrow> Topology \<Rightarrow> nat \<Rightarrow> nat list" where
  "ccdOfSlot participantPins topo effective = map (\<lambda>i. ccdId topo (cpuId participantPins i)) [0..<effective]"

text \<open>The steal rings of one slot: same CCD, other CCD, all.\<close>

definition victim_rings :: "nat list \<Rightarrow> nat \<Rightarrow> nat list \<times> nat list \<times> nat list" where
  "victim_rings ccds self =
     (let selfCcd = ccds ! self; others = filter (\<lambda>v. v \<noteq> self) [0..<length ccds];
          same = (\<lambda>v. selfCcd \<noteq> UINT32_MAX \<and> ccds ! v = selfCcd)
      in (filter same others, filter (\<lambda>v. \<not> same v) others, others))"

definition worker_cpus :: "nat list \<Rightarrow> nat \<Rightarrow> nat list" where
  "worker_cpus participantPins effective =
     filter (\<lambda>c. c \<noteq> UINT32_MAX) (map (cpuId participantPins) [1..<effective])"

lemma bit_pendingMask:
  "bit (pendingMaskBits effective) k \<longleftrightarrow> 1 \<le> k \<and> k < effective \<and> k < 64"
proof -
  have "push_bit effective 1 - 1 = (mask effective :: u64)"
    by (simp add: mask_eq_exp_minus_1 push_bit_eq_mult)
  then show ?thesis
    by (cases "k = 0") (auto simp: pendingMaskBits_def bit_simps)
qed

lemma victim_rings_split:
  assumes "victim_rings ccds self = (same, cross, alls)"
  shows "mset same + mset cross = mset alls" "distinct alls" "sorted same" "sorted cross"
    "set alls = {..<length ccds} - {self}" "\<forall>v\<in>set same. ccds ! v = ccds ! self"
    "ccds ! self \<noteq> UINT32_MAX \<Longrightarrow> \<forall>v\<in>set cross. ccds ! v \<noteq> ccds ! self"
proof -
  have split: "mset (filter P xs) + mset (filter (\<lambda>v. \<not> P v) xs) = mset xs" for P and xs :: "nat list"
    using multiset_partition [of "mset xs" P] by (simp add: mset_filter)
  have v: "same = filter (\<lambda>v. ccds ! self \<noteq> UINT32_MAX \<and> ccds ! v = ccds ! self) alls"
    "cross = filter (\<lambda>v. \<not> (ccds ! self \<noteq> UINT32_MAX \<and> ccds ! v = ccds ! self)) alls"
    "alls = filter (\<lambda>v. v \<noteq> self) [0..<length ccds]"
    using assms by (auto simp: victim_rings_def Let_def)
  show "mset same + mset cross = mset alls" unfolding v(1,2) by (rule split)
qed (use assms in \<open>auto simp: victim_rings_def Let_def sorted_wrt_filter\<close>)

text \<open>
  C27. The tables a pool computes once: no more participants than pins and at least one, the join
  mask has exactly the bits of the background slots, and for every slot the same-CCD ring and the
  cross-CCD ring split the ring of all other slots, each in increasing order and each slot once.
\<close>

theorem initWorkers_tables:
  assumes "0 < participants" and "self < effective_participants participants pins topo"
  shows "let effective = effective_participants participants pins topo;
      ccds = ccdOfSlot pins topo effective; (same, cross, alls) = victim_rings ccds self
    in 1 \<le> effective \<and> effective \<le> participants \<and> (pins \<noteq> [] \<longrightarrow> effective \<le> length pins) \<and>
      (\<forall>k<64. bit (pendingMaskBits effective) k \<longleftrightarrow> 1 \<le> k \<and> k < effective) \<and>
      mset (same @ cross) = mset alls \<and> distinct alls \<and> sorted same \<and> sorted cross \<and>
      set alls = {..<effective} - {self} \<and>
      (\<forall>v\<in>set same. ccds ! v = ccds ! self) \<and>
      (ccds ! self \<noteq> UINT32_MAX \<longrightarrow> (\<forall>v\<in>set cross. ccds ! v \<noteq> ccds ! self))"
proof -
  define effective where "effective = effective_participants participants pins topo"
  define ccds where "ccds = ccdOfSlot pins topo effective"
  have "1 \<le> effective \<and> effective \<le> participants \<and> (pins \<noteq> [] \<longrightarrow> effective \<le> length pins)"
    using assms(1) unfolding effective_def effective_participants_def Let_def
    by (cases pins) (auto split: if_splits)
  moreover have len: "length ccds = effective" by (simp add: ccds_def ccdOfSlot_def)
  moreover obtain same cross alls where v: "victim_rings ccds self = (same, cross, alls)"
    by (metis prod_cases3)
  ultimately show ?thesis
    unfolding Let_def effective_def [symmetric] ccds_def [symmetric] v prod.case
    using victim_rings_split [OF v] by (simp add: bit_pendingMask)
qed

theorem initWorkers_tables_witness:
  "bit (pendingMaskBits 4) 1 \<and> bit (pendingMaskBits 4) 3 \<and>
    \<not> bit (pendingMaskBits 4) 0 \<and> \<not> bit (pendingMaskBits 4) 4"
proof -
  have "effective_participants 4 [2, 0, 6, 4] two_ccds = 4" by (simp add: effective_participants_def)
  with initWorkers_tables [of 4 1 "[2, 0, 6, 4]" two_ccds] show ?thesis
    by (auto simp: Let_def split: prod.splits)
qed

end
