(* ===== verification/Scan.thy ===== *)
theory Scan
  imports Topology ProbeBlob
begin

text \<open>
  The two-pass scan (\<open>parallelScan\<close>, \<open>runScanParallel\<close> and \<open>initScanScratch\<close> of
  \<open>thread_pool.h\<close>, \<open>scan_state.h\<close>): the slots' chunks, the slot tables the pool resolves once, and
  the rendezvous between the passes as a transition system over the slots' threads, on the
  sequential-reduce path and on the per-cluster path.

  A step is one atomic operation of one slot, or one call of the user's body or combiner; the
  outcome of a callback is part of the action. A slot's failure stores the exception and then the
  cancellation flag in one step: no slot reads the exception between the two. \<open>sc_part\<close> and
  \<open>sc_seed\<close> record what the slots' bodies returned in pass 1 and were given in pass 2.
\<close>

section \<open>The slots' chunks\<close>

record scan_shape =
  ss_participants :: nat
  ss_n :: nat
  ss_ccdOfSlot :: "nat list option"
  ss_producerCcd :: nat
  ss_asymmetricNum :: nat
  ss_slotsOnProducerCcd :: nat

definition scan_slotRange :: "scan_shape \<Rightarrow> nat \<Rightarrow> nat \<times> nat" where
  "scan_slotRange st slot = (case ss_ccdOfSlot st of
     None \<Rightarrow> (mulDiv64 (ss_n st) slot (ss_participants st),
              mulDiv64 (ss_n st) (slot + 1) (ss_participants st))
   | Some ccds \<Rightarrow>
       let producerVolume = mulDiv64 (ss_n st) (ss_asymmetricNum st) 16;
           numProducer = ss_slotsOnProducerCcd st;
           numCross = ss_participants st - ss_slotsOnProducerCcd st;
           isProducerCcd = (ccds ! slot = ss_producerCcd st);
           indexInGroup = length (filter (\<lambda>s. (ccds ! s = ss_producerCcd st) = isProducerCcd) [0..<slot])
       in if isProducerCcd \<and> numProducer > 0
          then (mulDiv64 producerVolume indexInGroup numProducer,
                mulDiv64 producerVolume (indexInGroup + 1) numProducer)
          else if numCross > 0
          then let crossVolume = ss_n st - producerVolume
               in (w64 (producerVolume + mulDiv64 crossVolume indexInGroup numCross),
                   w64 (producerVolume + mulDiv64 crossVolume (indexInGroup + 1) numCross))
          else (0, 0))"

section \<open>The tables of the pool\<close>

text \<open>The three floating-point operations of the asymmetry: a literal, a test and \<open>llround\<close> of a product.\<close>

record 'f bias_ops =
  bo_two :: 'f
  bo_gt_one :: "'f \<Rightarrow> bool"
  bo_llround_mul :: "'f \<Rightarrow> nat \<Rightarrow> nat"

record scan_scratch =
  sx_clusterIdOfSlot :: "nat list"
  sx_clusterFirstSlot :: "nat list"
  sx_clusterSlotCount :: "nat list"
  sx_numClusters :: nat
  sx_useHierarchical :: bool
  sx_asymmetricNum :: nat
  sx_producerCcd :: nat
  sx_slotsOnProducerCcd :: nat

definition asymmetric_num :: "'f bias_ops \<Rightarrow> 'f CoherenceProbe \<Rightarrow> nat \<Rightarrow> nat \<Rightarrow> nat" where
  "asymmetric_num ops probe participants slotsOnProducer =
     (let crossSlots = participants - slotsOnProducer;
          biasFactor = (if cp_valid probe \<and> bo_gt_one ops (cp_maxCrossOverIntraRatio probe)
                        then cp_maxCrossOverIntraRatio probe else bo_two ops);
          producerWeight = bo_llround_mul ops biasFactor slotsOnProducer;
          totalWeight = w64 (producerWeight + crossSlots);
          derived = (if totalWeight > 0 then w32 (w64 (16 * producerWeight) div totalWeight) else 8)
      in max 9 (min derived 15))"

text \<open>The cluster id of each slot's cpu; \<open>None\<close> when a cpu is not in the probe.\<close>

definition resolve_clusters :: "'f CoherenceProbe \<Rightarrow> nat list \<Rightarrow> nat list option" where
  "resolve_clusters probe cpuIds =
     (let cpus = map unat (lm_cpus (cp_matrix probe));
          ids = cr_clusterIdOfCpuIndex (cp_clusters probe)
      in if \<forall>cpu\<in>set cpuIds. cpu \<in> set cpus
         then Some (map (\<lambda>cpu. unat (ids ! index_of cpu cpus)) cpuIds) else None)"

definition cluster_slots :: "nat list \<Rightarrow> nat \<Rightarrow> nat list" where
  "cluster_slots ids k = filter (\<lambda>s. ids ! s = k) [0..<length ids]"

definition first_slots :: "nat list \<Rightarrow> nat \<Rightarrow> nat list" where
  "first_slots ids numClusters =
     map (\<lambda>k. case cluster_slots ids k of [] \<Rightarrow> UINT32_MAX | s # _ \<Rightarrow> s) [0..<numClusters]"

definition slot_counts :: "nat list \<Rightarrow> nat \<Rightarrow> nat list" where
  "slot_counts ids numClusters = map (\<lambda>k. length (cluster_slots ids k)) [0..<numClusters]"

definition contiguous :: "nat list \<Rightarrow> nat \<Rightarrow> bool" where
  "contiguous ids numClusters \<longleftrightarrow> (\<forall>k\<in>set [0..<numClusters].
     \<forall>i\<in>set [0..<slot_counts ids numClusters ! k].
       first_slots ids numClusters ! k + i < length ids \<and>
       ids ! (first_slots ids numClusters ! k + i) = k)"

definition initScanScratch :: "'f bias_ops \<Rightarrow> 'f CoherenceProbe \<Rightarrow> nat list \<Rightarrow> nat list \<Rightarrow> nat \<Rightarrow> scan_scratch" where
  "initScanScratch ops probe ccds cpuIds participants =
     (let zeros = replicate participants 0;
          fresh = \<lparr> sx_clusterIdOfSlot = zeros, sx_clusterFirstSlot = [],
            sx_clusterSlotCount = [], sx_numClusters = 0, sx_useHierarchical = False,
            sx_asymmetricNum = 8, sx_producerCcd = UINT32_MAX, sx_slotsOnProducerCcd = 0 \<rparr>
      in if ccds = [] then fresh
         else let producerCcd = ccds ! 0;
                  onProducer = (\<lambda>s. s < length ccds \<and> ccds ! s = producerCcd);
                  slotsOnProducer = length (filter onProducer [0..<participants]);
                  foundCross = (\<exists>s\<in>set [0..<participants]. \<not> onProducer s);
                  asym = (if foundCross \<and> slotsOnProducer > 0 \<and> slotsOnProducer < participants
                          then asymmetric_num ops probe participants slotsOnProducer else 8);
                  base = fresh\<lparr> sx_asymmetricNum := asym, sx_producerCcd := producerCcd,
                    sx_slotsOnProducerCcd := slotsOnProducer \<rparr>;
                  numClusters = unat (cr_numClusters (cp_clusters probe))
              in if \<not> cp_valid probe \<or> numClusters < 2 \<or> participants < 4 \<or> \<not> foundCross
                    \<or> slotsOnProducer \<ge> participants then base
                 else (case resolve_clusters probe (take participants cpuIds) of None \<Rightarrow> base
                   | Some ids \<Rightarrow>
                       if \<exists>k\<in>set ids. numClusters \<le> k 
                       then let seen = takeWhile (\<lambda>k. k < numClusters) ids
                            in base\<lparr> sx_clusterIdOfSlot := ids,
                                 sx_clusterFirstSlot := first_slots seen numClusters,
                                 sx_clusterSlotCount := slot_counts seen numClusters \<rparr>
                       else let counts = slot_counts ids numClusters;
                                nonEmpty = length (filter (\<lambda>c. c > 0) counts);
                                ok = (contiguous ids numClusters \<and> nonEmpty \<ge> 2 \<and> ids ! 0 = 0)
                            in base\<lparr> sx_clusterIdOfSlot := ids,
                                 sx_clusterFirstSlot := first_slots ids numClusters,
                                 sx_clusterSlotCount := counts,
                                 sx_useHierarchical := ok,
                                 sx_numClusters := (if ok then numClusters else 0) \<rparr>))"

text \<open>The shape \<open>runScanParallel\<close> sets up from the tables.\<close>

definition scan_shape_of :: "scan_scratch \<Rightarrow> nat list \<Rightarrow> nat \<Rightarrow> nat \<Rightarrow> scan_shape" where
  "scan_shape_of sx ccds participants n =
     (if sx_slotsOnProducerCcd sx > 0 \<and> sx_slotsOnProducerCcd sx < participants
      then \<lparr> ss_participants = participants, ss_n = n, ss_ccdOfSlot = Some ccds,
             ss_producerCcd = sx_producerCcd sx, ss_asymmetricNum = sx_asymmetricNum sx,
             ss_slotsOnProducerCcd = sx_slotsOnProducerCcd sx \<rparr>
      else \<lparr> ss_participants = participants, ss_n = n, ss_ccdOfSlot = None,
             ss_producerCcd = UINT32_MAX, ss_asymmetricNum = 8, ss_slotsOnProducerCcd = 0 \<rparr>)"

section \<open>The rendezvous\<close>

record 'a scan_cfg =
  sg_participants :: nat
  sg_identity :: 'a
  sg_prefix :: "'a \<Rightarrow> 'a \<Rightarrow> 'a"
  sg_epochBase :: nat
  sg_hier :: bool
  sg_clusterOf :: "nat list"
  sg_first :: "nat list"
  sg_count :: "nat list"
  sg_numClusters :: nat

datatype scan_pc =
    Pass1                 \<comment> \<open>about to call the body with \<open>identity\<close>\<close>
  | FailStamp             \<comment> \<open>pass 1 threw; stamp the last epoch\<close>
  | FailPublish           \<comment> \<open>slot 0: release the peers\<close>
  | FailJoin nat          \<comment> \<open>slot 0: wait for this slot's last epoch\<close>
  | Stamp1
  | WaitAll nat           \<comment> \<open>slot 0: wait for this slot's pass 1\<close>
  | CheckFail
  | SeqReduce nat         \<comment> \<open>slot 0: combine this chunk\<close>
  | PublishPrefixes
  | WaitPrefixes
  | WaitCluster nat       \<comment> \<open>a leader: wait for this slot's pass 1\<close>
  | LocalReduce nat
  | PublishTotal
  | StampTotal
  | WaitClusters nat      \<comment> \<open>slot 0: wait for this cluster's total\<close>
  | GlobalReduce nat
  | PublishGlobal
  | WaitGlobal
  | Combine nat
  | StampCluster
  | WaitMember
  | Gate
  | Pass2
  | Stamp2
  | Retired

record 'a scan =
  sc_pc :: "nat \<Rightarrow> scan_pc"
  sc_done :: "nat \<Rightarrow> nat"
  sc_partials :: "nat \<Rightarrow> 'a"
  sc_acc :: "nat \<Rightarrow> 'a"
  sc_cancelled :: bool
  sc_exc :: "nat option"
  sc_published :: bool
  sc_stop :: bool
  sc_total :: 'a
  sc_clusterStamp :: "nat \<Rightarrow> nat"
  sc_clusterTotals :: "nat \<Rightarrow> 'a"
  sc_clusterPrefixes :: "nat \<Rightarrow> 'a"
  sc_part :: "nat \<Rightarrow> 'a option"
  sc_seed :: "nat \<Rightarrow> 'a option"

datatype 'a scan_act =
    Go nat          \<comment> \<open>the slot's next atomic operation or combiner call\<close>
  | Ret nat 'a      \<comment> \<open>the slot's body call returns\<close>
  | Throw nat       \<comment> \<open>the slot's body or combiner call throws\<close>
  | RequestStop

definition set_pc :: "nat \<Rightarrow> scan_pc \<Rightarrow> 'a scan \<Rightarrow> 'a scan" where
  "set_pc i p s = s\<lparr> sc_pc := (sc_pc s)(i := p) \<rparr>"

definition stamp :: "nat \<Rightarrow> nat \<Rightarrow> 'a scan \<Rightarrow> 'a scan" where
  "stamp i v s = s\<lparr> sc_done := (sc_done s)(i := v) \<rparr>"

definition recordFailure :: "nat \<Rightarrow> 'a scan \<Rightarrow> 'a scan" where
  "recordFailure i s = s\<lparr> sc_exc := (case sc_exc s of None \<Rightarrow> Some i | Some j \<Rightarrow> Some j),
     sc_cancelled := True \<rparr>"

text \<open>After the pass-1 stamp.\<close>

definition after_stamp1 :: "'a scan_cfg \<Rightarrow> nat \<Rightarrow> scan_pc" where
  "after_stamp1 c i =
     (if sg_hier c
      then if i = sg_first c ! (sg_clusterOf c ! i) then WaitCluster i else WaitMember
      else if i = 0 then WaitAll 1 else WaitPrefixes)"

text \<open>The slots of a leader's cluster end here.\<close>

definition cluster_end :: "'a scan_cfg \<Rightarrow> nat \<Rightarrow> nat" where
  "cluster_end c i = sg_first c ! (sg_clusterOf c ! i) + sg_count c ! (sg_clusterOf c ! i)"

definition gate_step :: "nat \<Rightarrow> 'a scan \<Rightarrow> 'a scan" where
  "gate_step i s =
     (if sc_cancelled s \<or> sc_stop s
      then set_pc i Stamp2 (s\<lparr> sc_cancelled := sc_cancelled s \<or> sc_stop s \<rparr>)
      else set_pc i Pass2 (s\<lparr> sc_seed := (sc_seed s)(i \<mapsto> sc_partials s i) \<rparr>))"

definition fail_step :: "'a scan_cfg \<Rightarrow> nat \<Rightarrow> 'a scan \<Rightarrow> 'a scan option" where
  "fail_step c i s = (case sc_pc s i of
     FailStamp \<Rightarrow> Some (set_pc i (if i = 0 then FailPublish else Retired)
                          (stamp i (sg_epochBase c + 2) s))
   | FailPublish \<Rightarrow> Some (set_pc i (FailJoin 1) (s\<lparr> sc_published := True \<rparr>))
   | FailJoin k \<Rightarrow> (if k \<ge> sg_participants c then Some (set_pc i Retired s)
       else if sc_done s k \<ge> sg_epochBase c + 2 then Some (set_pc i (FailJoin (Suc k)) s)
       else None)
   | _ \<Rightarrow> None)"

definition flat_step :: "'a scan_cfg \<Rightarrow> nat \<Rightarrow> 'a scan \<Rightarrow> 'a scan option" where
  "flat_step c i s = (case sc_pc s i of
     WaitAll k \<Rightarrow> (if k \<ge> sg_participants c then Some (set_pc i CheckFail s)
       else if sc_done s k \<ge> sg_epochBase c + 1 then Some (set_pc i (WaitAll (Suc k)) s)
       else None)
   | CheckFail \<Rightarrow> Some (set_pc i (if sc_exc s = None then SeqReduce 0 else PublishPrefixes)
                         (s\<lparr> sc_acc := (sc_acc s)(i := sg_identity c) \<rparr>))
   | SeqReduce k \<Rightarrow> (if k \<ge> sg_participants c then Some (set_pc i PublishPrefixes s)
       else Some (set_pc i (SeqReduce (Suc k))
         (s\<lparr> sc_partials := (sc_partials s)(k := sc_acc s i),
             sc_acc := (sc_acc s)(i := sg_prefix c (sc_acc s i) (sc_partials s k)) \<rparr>)))
   | PublishPrefixes \<Rightarrow> Some (set_pc i Gate (s\<lparr> sc_published := True \<rparr>))
   | WaitPrefixes \<Rightarrow> (if sc_published s then Some (set_pc i Gate s) else None)
   | _ \<Rightarrow> None)"

definition hier_step :: "'a scan_cfg \<Rightarrow> nat \<Rightarrow> 'a scan \<Rightarrow> 'a scan option" where
  "hier_step c i s = (let cluster = sg_clusterOf c ! i in case sc_pc s i of
     WaitCluster k \<Rightarrow> (if k \<ge> cluster_end c i
         then Some (set_pc i (LocalReduce (sg_first c ! cluster))
                (s\<lparr> sc_acc := (sc_acc s)(i := sg_identity c) \<rparr>))
       else if k = i \<or> sc_done s k \<ge> sg_epochBase c + 1 then Some (set_pc i (WaitCluster (Suc k)) s)
       else None)
   | LocalReduce k \<Rightarrow> (if k \<ge> cluster_end c i then Some (set_pc i PublishTotal s)
       else Some (set_pc i (LocalReduce (Suc k))
         (s\<lparr> sc_partials := (sc_partials s)(k := sc_acc s i),
             sc_acc := (sc_acc s)(i := sg_prefix c (sc_acc s i) (sc_partials s k)) \<rparr>)))
   | PublishTotal \<Rightarrow> Some (set_pc i StampTotal
       (s\<lparr> sc_clusterTotals := (sc_clusterTotals s)(cluster := sc_acc s i) \<rparr>))
   | StampTotal \<Rightarrow> Some (set_pc i (if i = 0 then WaitClusters 1 else WaitGlobal)
       (s\<lparr> sc_clusterStamp := (sc_clusterStamp s)(cluster := 1) \<rparr>))
   | WaitClusters k \<Rightarrow> (if k \<ge> sg_numClusters c
         then Some (set_pc i (GlobalReduce 0) (s\<lparr> sc_acc := (sc_acc s)(i := sg_identity c) \<rparr>))
       else if sc_clusterStamp s k \<ge> 1 then Some (set_pc i (WaitClusters (Suc k)) s) else None)
   | GlobalReduce k \<Rightarrow> (if k \<ge> sg_numClusters c
         then Some (set_pc i PublishGlobal (s\<lparr> sc_total := sc_acc s i \<rparr>))
       else Some (set_pc i (GlobalReduce (Suc k))
         (s\<lparr> sc_clusterPrefixes := (sc_clusterPrefixes s)(k := sc_acc s i),
             sc_acc := (sc_acc s)(i := sg_prefix c (sc_acc s i) (sc_clusterTotals s k)) \<rparr>)))
   | PublishGlobal \<Rightarrow> Some (set_pc i (Combine (sg_first c ! cluster)) (s\<lparr> sc_published := True \<rparr>))
   | WaitGlobal \<Rightarrow> (if sc_published s then Some (set_pc i (Combine (sg_first c ! cluster)) s) else None)
   | Combine k \<Rightarrow> (if k \<ge> cluster_end c i then Some (set_pc i StampCluster s)
       else Some (set_pc i (Combine (Suc k))
         (s\<lparr> sc_partials := (sc_partials s)
              (k := sg_prefix c (sc_clusterPrefixes s cluster) (sc_partials s k)) \<rparr>)))
   | StampCluster \<Rightarrow> Some (set_pc i Gate
       (s\<lparr> sc_clusterStamp := (sc_clusterStamp s)(cluster := 2) \<rparr>))
   | WaitMember \<Rightarrow> (if sc_clusterStamp s cluster \<ge> 2 then Some (set_pc i Gate s) else None)
   | _ \<Rightarrow> None)"

definition scan_slot_step :: "'a scan_cfg \<Rightarrow> nat \<Rightarrow> 'a scan \<Rightarrow> 'a scan option" where
  "scan_slot_step c i s = (case sc_pc s i of
     Stamp1 \<Rightarrow> Some (set_pc i (after_stamp1 c i) (stamp i (sg_epochBase c + 1) s))
   | Gate \<Rightarrow> Some (gate_step i s)
   | Stamp2 \<Rightarrow> Some (set_pc i Retired (stamp i (sg_epochBase c + 2)
       (if i = 0 \<and> \<not> sg_hier c then s\<lparr> sc_total := sc_acc s 0 \<rparr> else s)))
   | p \<Rightarrow> (case fail_step c i s of Some t \<Rightarrow> Some t
       | None \<Rightarrow> if sg_hier c then hier_step c i s else flat_step c i s))"

definition throw_step :: "'a scan_cfg \<Rightarrow> nat \<Rightarrow> 'a scan \<Rightarrow> 'a scan option" where
  "throw_step c i s = (case sc_pc s i of
     Pass1 \<Rightarrow> Some (set_pc i FailStamp (recordFailure i s))
   | Pass2 \<Rightarrow> Some (set_pc i Stamp2 (recordFailure i s))
   | SeqReduce k \<Rightarrow> (if k < sg_participants c \<and> \<not> sg_hier c
       then Some (set_pc i PublishPrefixes
              (recordFailure i (s\<lparr> sc_partials := (sc_partials s)(k := sc_acc s i) \<rparr>))) else None)
   | LocalReduce k \<Rightarrow> (if k < cluster_end c i \<and> sg_hier c
       then Some (set_pc i PublishTotal
              (recordFailure i (s\<lparr> sc_partials := (sc_partials s)(k := sc_acc s i) \<rparr>))) else None)
   | GlobalReduce k \<Rightarrow> (if k < sg_numClusters c \<and> sg_hier c
       then Some (set_pc i PublishGlobal
              (recordFailure i (s\<lparr> sc_clusterPrefixes := (sc_clusterPrefixes s)(k := sc_acc s i),
                 sc_total := sc_acc s i \<rparr>)))
       else None)
   | Combine k \<Rightarrow> (if k < cluster_end c i \<and> sg_hier c
       then Some (set_pc i StampCluster (recordFailure i s)) else None)
   | _ \<Rightarrow> None)"

definition ret_step :: "nat \<Rightarrow> 'a \<Rightarrow> 'a scan \<Rightarrow> 'a scan option" where
  "ret_step i v s = (case sc_pc s i of
     Pass1 \<Rightarrow> Some (set_pc i Stamp1
       (s\<lparr> sc_partials := (sc_partials s)(i := v), sc_part := (sc_part s)(i \<mapsto> v) \<rparr>))
   | Pass2 \<Rightarrow> Some (set_pc i Stamp2 s)
   | _ \<Rightarrow> None)"

definition scan_step :: "'a scan_cfg \<Rightarrow> 'a scan \<Rightarrow> 'a scan_act \<Rightarrow> 'a scan option" where
  "scan_step c s a = (case a of
     Go i \<Rightarrow> if i < sg_participants c then scan_slot_step c i s else None
   | Ret i v \<Rightarrow> if i < sg_participants c then ret_step i v s else None
   | Throw i \<Rightarrow> if i < sg_participants c then throw_step c i s else None
   | RequestStop \<Rightarrow> if sc_stop s then None else Some (s\<lparr> sc_stop := True \<rparr>))"

text \<open>The state \<open>runScanParallel\<close> starts from; \<open>stale\<close> are the stamps of earlier dispatches.\<close>

definition scan_init :: "'a scan_cfg \<Rightarrow> 'a \<Rightarrow> (nat \<Rightarrow> nat) \<Rightarrow> bool \<Rightarrow> 'a scan" where
  "scan_init c def stale stopped = \<lparr> sc_pc = (\<lambda>_. Pass1), sc_done = stale, sc_partials = (\<lambda>_. def),
     sc_acc = (\<lambda>_. def), sc_cancelled = False, sc_exc = None, sc_published = False, sc_stop = stopped,
     sc_total = def, sc_clusterStamp = (\<lambda>_. 0), sc_clusterTotals = (\<lambda>_. sg_identity c),
     sc_clusterPrefixes = (\<lambda>_. sg_identity c), sc_part = (\<lambda>_. None), sc_seed = (\<lambda>_. None) \<rparr>"

definition retired :: "'a scan_cfg \<Rightarrow> 'a scan \<Rightarrow> bool" where
  "retired c s \<longleftrightarrow> (\<forall>i < sg_participants c. sc_pc s i = Retired)"

text \<open>The epoch interval of a dispatch, with the rebase near the end of the counter.\<close>

definition reserve_epochs :: "nat \<Rightarrow> nat \<Rightarrow> (nat \<Rightarrow> nat) \<Rightarrow> nat \<times> nat \<times> (nat \<Rightarrow> nat)" where
  "reserve_epochs participants chainEpochBase stamps =
     (if chainEpochBase > SIZE_MAX - 1024
      then (0, 3, \<lambda>i. if i < participants then 0 else stamps i)
      else (chainEpochBase, w64 (chainEpochBase + 3), stamps))"

text \<open>What \<open>runScanParallel\<close> returns: the rank whose exception is rethrown, or the total.\<close>

definition scan_result :: "'a scan \<Rightarrow> nat + 'a" where
  "scan_result s = (case sc_exc s of Some i \<Rightarrow> Inl i | None \<Rightarrow> Inr (sc_total s))"

section \<open>The entry\<close>

text \<open>
  \<open>parallelScan\<close>: what is answered on the calling thread, with the body and the combiner as
  functions that return or throw; \<open>None\<close> is a dispatch by \<open>runScanParallel\<close>.
\<close>

definition kScanInlineThreshold :: nat where "kScanInlineThreshold = 32"

definition parallelScan :: "nat \<Rightarrow> nat \<Rightarrow> bool \<Rightarrow> bool \<Rightarrow> 'a \<Rightarrow>
    (nat \<Rightarrow> nat \<Rightarrow> nat \<Rightarrow> 'a \<Rightarrow> 'e + 'a) \<Rightarrow> ('a \<Rightarrow> 'a \<Rightarrow> 'e + 'a) \<Rightarrow> ('e + 'a) option" where
  "parallelScan participants n fallThrough stopped identity body prefix =
     (if n = 0 then Some (Inr identity)
      else if participants \<le> 1 \<or> n \<le> kScanInlineThreshold \<or> fallThrough
      then Some (if stopped then Inr identity
        else (case body 0 0 n identity of Inl e \<Rightarrow> Inl e | Inr partial \<Rightarrow> prefix identity partial))
      else None)"

end
