(* ===== verification/ScanFlat.thy ===== *)
theory ScanFlat
  imports Scan
begin

text \<open>
  The sequential-reduce path of the scan's rendezvous: in every interleaving, with bodies and
  combiners that throw and with stop requests at any moment, the slots retire, pass 2 is given the
  exclusive prefix of the chunks before it, and the total is the fold of all chunks.
\<close>

section \<open>The invariant\<close>

fun level :: "scan_pc \<Rightarrow> nat" where
  "level Pass1 = 0" | "level FailStamp = 0" | "level Stamp1 = 0"
| "level FailPublish = 2" | "level (FailJoin _) = 2" | "level Retired = 2"
| "level _ = 1"

text \<open>Where a slot can be on this path.\<close>

fun flat_pc :: "nat \<Rightarrow> nat \<Rightarrow> scan_pc \<Rightarrow> bool" where
  "flat_pc P i (FailJoin k) = (i = 0 \<and> 1 \<le> k \<and> k \<le> P)"
| "flat_pc P i (WaitAll k) = (i = 0 \<and> 1 \<le> k \<and> k \<le> P)"
| "flat_pc P i (SeqReduce k) = (i = 0 \<and> k \<le> P)"
| "flat_pc P i WaitPrefixes = (i > 0)"
| "flat_pc P i p = (p \<in> {Pass1, FailStamp, Stamp1, Gate, Pass2, Stamp2, Retired} \<or>
     i = 0 \<and> p \<in> {FailPublish, CheckFail, PublishPrefixes})"

fun before_reduce :: "scan_pc \<Rightarrow> bool" where
  "before_reduce Pass1 = True" | "before_reduce FailStamp = True" | "before_reduce Stamp1 = True"
| "before_reduce (WaitAll _) = True" | "before_reduce CheckFail = True" | "before_reduce _ = False"

fun past_publish :: "scan_pc \<Rightarrow> bool" where
  "past_publish (FailJoin _) = True"
| "past_publish p = (p \<in> {Gate, Pass2, Stamp2, Retired})"

definition pre :: "'a scan_cfg \<Rightarrow> 'a scan \<Rightarrow> nat \<Rightarrow> 'a" where
  "pre c s k = foldl (sg_prefix c) (sg_identity c) (map (\<lambda>i. the (sc_part s i)) [0..<k])"

definition all_parts :: "'a scan_cfg \<Rightarrow> 'a scan \<Rightarrow> bool" where
  "all_parts c s \<longleftrightarrow> (\<forall>i < sg_participants c. sc_part s i \<noteq> None)"

definition complete :: "'a scan_cfg \<Rightarrow> 'a scan \<Rightarrow> bool" where
  "complete c s \<longleftrightarrow> all_parts c s \<and> (\<forall>i < sg_participants c. sc_partials s i = pre c s i) \<and>
     sc_acc s 0 = pre c s (sg_participants c)"

definition pcs_inv :: "'a scan_cfg \<Rightarrow> 'a scan \<Rightarrow> bool" where
  "pcs_inv c s \<longleftrightarrow> (\<forall>i < sg_participants c. flat_pc (sg_participants c) i (sc_pc s i))"

definition done_ok :: "nat \<Rightarrow> nat \<Rightarrow> nat \<Rightarrow> bool" where
  "done_ok base l d \<longleftrightarrow> (if l = 0 then d \<le> base else d = base + l)"

lemma done_ok_simps [simp]:
  "done_ok base 0 d \<longleftrightarrow> d \<le> base" "done_ok base (Suc 0) d \<longleftrightarrow> d = Suc base"
  "done_ok base 2 d \<longleftrightarrow> d = Suc (Suc base)"
  by (auto simp: done_ok_def)

definition done_inv :: "'a scan_cfg \<Rightarrow> 'a scan \<Rightarrow> bool" where
  "done_inv c s \<longleftrightarrow>
     (\<forall>i < sg_participants c. done_ok (sg_epochBase c) (level (sc_pc s i)) (sc_done s i))"

fun part_ok :: "scan_pc \<Rightarrow> bool \<Rightarrow> 'a option \<Rightarrow> bool" where
  "part_ok Pass1 e p = (p = None)"
| "part_ok FailStamp e p = (p = None \<and> e)"
| "part_ok FailPublish e p = (p = None \<and> e)"
| "part_ok (FailJoin _) e p = (p = None \<and> e)"
| "part_ok Retired e p = (p = None \<longrightarrow> e)"
| "part_ok _ e p = (p \<noteq> None)"

definition part_inv :: "'a scan_cfg \<Rightarrow> 'a scan \<Rightarrow> bool" where
  "part_inv c s \<longleftrightarrow> (\<forall>i < sg_participants c. part_ok (sc_pc s i) (sc_exc s \<noteq> None) (sc_part s i))"

definition flags_inv :: "'a scan_cfg \<Rightarrow> 'a scan \<Rightarrow> bool" where
  "flags_inv c s \<longleftrightarrow> (sc_exc s \<noteq> None \<longrightarrow> sc_cancelled s) \<and>
     (sc_published s \<longleftrightarrow> past_publish (sc_pc s 0)) \<and>
     (\<forall>i < sg_participants c. sc_pc s i \<in> {Gate, Pass2} \<longrightarrow> sc_published s)"

definition wait_inv :: "'a scan_cfg \<Rightarrow> 'a scan \<Rightarrow> bool" where
  "wait_inv c s \<longleftrightarrow>
     (before_reduce (sc_pc s 0) \<longrightarrow> (\<forall>i < sg_participants c. \<forall>v. sc_part s i = Some v \<longrightarrow> sc_partials s i = v)) \<and>
     (\<forall>k. sc_pc s 0 = WaitAll k \<longrightarrow> (\<forall>i<k. i < sg_participants c \<longrightarrow> 1 \<le> level (sc_pc s i))) \<and>
     (sc_pc s 0 = CheckFail \<longrightarrow> (\<forall>i < sg_participants c. 1 \<le> level (sc_pc s i)))"

definition reduce_inv :: "'a scan_cfg \<Rightarrow> 'a scan \<Rightarrow> bool" where
  "reduce_inv c s \<longleftrightarrow>
     (\<forall>k. sc_pc s 0 = SeqReduce k \<longrightarrow> all_parts c s \<and> sc_acc s 0 = pre c s k \<and>
        (\<forall>i < sg_participants c. sc_partials s i = (if i < k then pre c s i else the (sc_part s i)))) \<and>
     (sc_pc s 0 \<in> {PublishPrefixes, Gate, Pass2, Stamp2, Retired} \<longrightarrow> sc_exc s \<noteq> None \<or> complete c s) \<and>
     (sc_pc s 0 = Retired \<longrightarrow> sc_exc s \<noteq> None \<or> sc_total s = pre c s (sg_participants c))"

definition seed_inv :: "'a scan_cfg \<Rightarrow> 'a scan \<Rightarrow> bool" where
  "seed_inv c s \<longleftrightarrow> (\<forall>i < sg_participants c. \<forall>v. sc_seed s i = Some v \<longrightarrow> all_parts c s \<and> v = pre c s i)"

text \<open>A slot past the gate ran pass 2 unless the scan was cancelled.\<close>

definition ran_inv :: "'a scan_cfg \<Rightarrow> 'a scan \<Rightarrow> bool" where
  "ran_inv c s \<longleftrightarrow> (sc_cancelled s \<longrightarrow> sc_exc s \<noteq> None \<or> sc_stop s) \<and>
     (\<forall>i < sg_participants c. sc_pc s i \<in> {Pass2, Stamp2, Retired} \<longrightarrow> sc_seed s i \<noteq> None \<or> sc_cancelled s)"

definition flat_inv :: "'a scan_cfg \<Rightarrow> 'a scan \<Rightarrow> bool" where
  "flat_inv c s \<longleftrightarrow> 0 < sg_participants c \<and> pcs_inv c s \<and> done_inv c s \<and> part_inv c s \<and> flags_inv c s \<and>
     wait_inv c s \<and> reduce_inv c s \<and> seed_inv c s \<and> ran_inv c s"

section \<open>The steps of this path\<close>

lemma flat_cases:
  assumes "\<not> sg_hier c" "scan_step c s a = Some t" "pcs_inv c s"
  obtains
    (stop) "t = s\<lparr> sc_stop := True \<rparr>" "\<not> sc_stop s"
  | (ret1) i v where "i < sg_participants c" "sc_pc s i = Pass1"
      "t = set_pc i Stamp1 (s\<lparr> sc_partials := (sc_partials s)(i := v), sc_part := (sc_part s)(i \<mapsto> v) \<rparr>)"
  | (ret2) i where "i < sg_participants c" "sc_pc s i = Pass2" "t = set_pc i Stamp2 s"
  | (throw1) i where "i < sg_participants c" "sc_pc s i = Pass1" "t = set_pc i FailStamp (recordFailure i s)"
  | (throw2) i where "i < sg_participants c" "sc_pc s i = Pass2" "t = set_pc i Stamp2 (recordFailure i s)"
  | (throwR) k where "sc_pc s 0 = SeqReduce k" "k < sg_participants c"
      "t = set_pc 0 PublishPrefixes (recordFailure 0 (s\<lparr> sc_partials := (sc_partials s)(k := sc_acc s 0) \<rparr>))"
  | (failW) i where "0 < i" "i < sg_participants c" "sc_pc s i = FailStamp"
      "t = set_pc i Retired (stamp i (sg_epochBase c + 2) s)"
  | (fail0) "sc_pc s 0 = FailStamp" "t = set_pc 0 FailPublish (stamp 0 (sg_epochBase c + 2) s)"
  | (failPub) "sc_pc s 0 = FailPublish" "t = set_pc 0 (FailJoin 1) (s\<lparr> sc_published := True \<rparr>)"
  | (failJoin) k where "sc_pc s 0 = FailJoin k" "k < sg_participants c"
      "sg_epochBase c + 2 \<le> sc_done s k" "t = set_pc 0 (FailJoin (Suc k)) s"
  | (failEnd) "sc_pc s 0 = FailJoin (sg_participants c)" "t = set_pc 0 Retired s"
  | (stamp0) "sc_pc s 0 = Stamp1" "t = set_pc 0 (WaitAll 1) (stamp 0 (sg_epochBase c + 1) s)"
  | (stampW) i where "0 < i" "i < sg_participants c" "sc_pc s i = Stamp1"
      "t = set_pc i WaitPrefixes (stamp i (sg_epochBase c + 1) s)"
  | (waitAll) k where "sc_pc s 0 = WaitAll k" "k < sg_participants c"
      "sg_epochBase c + 1 \<le> sc_done s k" "t = set_pc 0 (WaitAll (Suc k)) s"
  | (waitEnd) "sc_pc s 0 = WaitAll (sg_participants c)" "t = set_pc 0 CheckFail s"
  | (check) "sc_pc s 0 = CheckFail"
      "t = set_pc 0 (if sc_exc s = None then SeqReduce 0 else PublishPrefixes)
        (s\<lparr> sc_acc := (sc_acc s)(0 := sg_identity c) \<rparr>)"
  | (reduce) k where "sc_pc s 0 = SeqReduce k" "k < sg_participants c"
      "t = set_pc 0 (SeqReduce (Suc k)) (s\<lparr> sc_partials := (sc_partials s)(k := sc_acc s 0),
         sc_acc := (sc_acc s)(0 := sg_prefix c (sc_acc s 0) (sc_partials s k)) \<rparr>)"
  | (reduceEnd) "sc_pc s 0 = SeqReduce (sg_participants c)" "t = set_pc 0 PublishPrefixes s"
  | (publish) "sc_pc s 0 = PublishPrefixes" "t = set_pc 0 Gate (s\<lparr> sc_published := True \<rparr>)"
  | (waitPub) i where "0 < i" "i < sg_participants c" "sc_pc s i = WaitPrefixes" "sc_published s"
      "t = set_pc i Gate s"
  | (gate) i where "i < sg_participants c" "sc_pc s i = Gate" "t = gate_step i s"
  | (stamp2) i where "0 < i" "i < sg_participants c" "sc_pc s i = Stamp2"
      "t = set_pc i Retired (stamp i (sg_epochBase c + 2) s)"
  | (final0) "sc_pc s 0 = Stamp2"
      "t = set_pc 0 Retired (stamp 0 (sg_epochBase c + 2) (s\<lparr> sc_total := sc_acc s 0 \<rparr>))"
proof (cases a)
  case (Go i)
  then have i: "i < sg_participants c" and st: "scan_slot_step c i s = Some t"
    using assms(2) by (simp_all add: scan_step_def split: if_splits)
  have f: "flat_pc (sg_participants c) i (sc_pc s i)" using assms(3) i by (simp add: pcs_inv_def)
  show ?thesis
  proof (cases "sc_pc s i")
    case FailStamp
    then show ?thesis using st i failW fail0 by (cases "i = 0") (auto simp: scan_slot_step_def fail_step_def)
  next
    case FailPublish
    then show ?thesis using st i f failPub by (auto simp: scan_slot_step_def fail_step_def)
  next
    case (FailJoin k)
    then show ?thesis using st i f failJoin failEnd assms(1)
      by (auto simp: scan_slot_step_def fail_step_def flat_step_def split: if_splits)
  next
    case Stamp1
    then show ?thesis using st i assms(1) stamp0 stampW
      by (cases "i = 0") (auto simp: scan_slot_step_def after_stamp1_def)
  next
    case (WaitAll k)
    then show ?thesis using st i f waitAll waitEnd assms(1)
      by (auto simp: scan_slot_step_def fail_step_def flat_step_def split: if_splits)
  next
    case CheckFail
    then show ?thesis using st i f check assms(1)
      by (auto simp: scan_slot_step_def fail_step_def flat_step_def)
  next
    case (SeqReduce k)
    then show ?thesis using st i f reduce reduceEnd assms(1)
      by (auto simp: scan_slot_step_def fail_step_def flat_step_def split: if_splits)
  next
    case PublishPrefixes
    then show ?thesis using st i f publish assms(1)
      by (auto simp: scan_slot_step_def fail_step_def flat_step_def)
  next
    case WaitPrefixes
    then show ?thesis using st i f waitPub assms(1)
      by (auto simp: scan_slot_step_def fail_step_def flat_step_def split: if_splits)
  next
    case Gate
    then show ?thesis using st i gate by (auto simp: scan_slot_step_def)
  next
    case Stamp2
    then show ?thesis using st i assms(1) stamp2 final0
      by (cases "i = 0") (auto simp: scan_slot_step_def)
  qed (use st f assms(1) in \<open>auto simp: scan_slot_step_def fail_step_def flat_step_def\<close>)
next
  case (Ret i v)
  then have i: "i < sg_participants c" and st: "ret_step i v s = Some t"
    using assms(2) by (simp_all add: scan_step_def split: if_splits)
  show ?thesis using st ret1 [OF i] ret2 [OF i] by (auto simp: ret_step_def split: scan_pc.splits)
next
  case (Throw i)
  then have i: "i < sg_participants c" and st: "throw_step c i s = Some t"
    using assms(2) by (simp_all add: scan_step_def split: if_splits)
  have f: "flat_pc (sg_participants c) i (sc_pc s i)" using assms(3) i by (simp add: pcs_inv_def)
  show ?thesis using st f throw1 [OF i] throw2 [OF i] throwR assms(1)
    by (cases "sc_pc s i") (auto simp: throw_step_def split: if_splits)
next
  case RequestStop
  then show ?thesis using assms(2) stop by (auto simp: scan_step_def split: if_splits)
qed


section \<open>Every step keeps the invariant\<close>

lemmas scan_upd = set_pc_def stamp_def recordFailure_def gate_step_def

lemma flat_invD:
  assumes "flat_inv c s"
  shows "0 < sg_participants c" "pcs_inv c s" "done_inv c s" "part_inv c s" "flags_inv c s"
    "wait_inv c s" "reduce_inv c s" "seed_inv c s" "ran_inv c s"
  using assms by (simp_all add: flat_inv_def)

text \<open>A step that moves one slot.\<close>

lemma done_inv_upd:
  assumes "done_inv c s" "sc_pc t = (sc_pc s)(i := p)" "sc_done t = (sc_done s)(i := d)"
    and "done_ok (sg_epochBase c) (level p) d"
  shows "done_inv c t"
  using assms by (simp add: done_inv_def)

lemma done_inv_pc:
  assumes "done_inv c s" "sc_pc t = (sc_pc s)(i := p)" "sc_done t = sc_done s" "level p = level (sc_pc s i)"
  shows "done_inv c t"
  using assms by (simp add: done_inv_def)

lemma pcs_keep:
  assumes flat: "\<not> sg_hier c" and inv: "flat_inv c s" and step: "scan_step c s a = Some t"
  shows "pcs_inv c t"
  using flat_invD(1,2) [OF inv]
  by (cases rule: flat_cases [OF flat step flat_invD(2) [OF inv]]) (auto simp: pcs_inv_def scan_upd)

lemma done_keep:
  assumes flat: "\<not> sg_hier c" and inv: "flat_inv c s" and step: "scan_step c s a = Some t"
  shows "done_inv c t"
proof -
  note d = flat_invD(3) [OF inv]
  from flat step flat_invD(2) [OF inv] show ?thesis
  proof (cases rule: flat_cases)
    case stop
    then show ?thesis using d by (simp add: done_inv_def)
  next
    case (ret1 i v)
    show ?thesis by (rule done_inv_pc [OF d, of _ i Stamp1]) (simp_all add: ret1 scan_upd)
  next
    case (ret2 i)
    show ?thesis by (rule done_inv_pc [OF d, of _ i "Stamp2"]) (simp_all add: ret2 scan_upd)
  next
    case (throw1 i)
    show ?thesis by (rule done_inv_pc [OF d, of _ i "FailStamp"]) (simp_all add: throw1 scan_upd)
  next
    case (throw2 i)
    show ?thesis by (rule done_inv_pc [OF d, of _ i "Stamp2"]) (simp_all add: throw2 scan_upd)
  next
    case (throwR k)
    show ?thesis by (rule done_inv_pc [OF d, of _ 0 "PublishPrefixes"]) (simp_all add: throwR scan_upd)
  next
    case (failW i)
    show ?thesis by (rule done_inv_upd [OF d, of _ i "Retired"]) (simp_all add: failW scan_upd)
  next
    case fail0
    show ?thesis by (rule done_inv_upd [OF d, of _ 0 "FailPublish"]) (simp_all add: fail0 scan_upd)
  next
    case failPub
    show ?thesis by (rule done_inv_pc [OF d, of _ 0 "FailJoin 1"]) (simp_all add: failPub scan_upd)
  next
    case (failJoin k)
    show ?thesis by (rule done_inv_pc [OF d, of _ 0 "FailJoin (Suc k)"]) (simp_all add: failJoin scan_upd)
  next
    case failEnd
    show ?thesis by (rule done_inv_pc [OF d, of _ 0 "Retired"]) (simp_all add: failEnd scan_upd)
  next
    case stamp0
    show ?thesis by (rule done_inv_upd [OF d, of _ 0 "WaitAll 1"]) (simp_all add: stamp0 scan_upd)
  next
    case (stampW i)
    show ?thesis by (rule done_inv_upd [OF d, of _ i "WaitPrefixes"]) (simp_all add: stampW scan_upd)
  next
    case (waitAll k)
    show ?thesis by (rule done_inv_pc [OF d, of _ 0 "WaitAll (Suc k)"]) (simp_all add: waitAll scan_upd)
  next
    case waitEnd
    show ?thesis by (rule done_inv_pc [OF d, of _ 0 "CheckFail"]) (simp_all add: waitEnd scan_upd)
  next
    case check
    show ?thesis by (rule done_inv_pc [OF d, of _ 0 "if sc_exc s = None then SeqReduce 0 else PublishPrefixes"]) (simp_all add: check scan_upd)
  next
    case (reduce k)
    show ?thesis by (rule done_inv_pc [OF d, of _ 0 "SeqReduce (Suc k)"]) (simp_all add: reduce scan_upd)
  next
    case reduceEnd
    show ?thesis by (rule done_inv_pc [OF d, of _ 0 "PublishPrefixes"]) (simp_all add: reduceEnd scan_upd)
  next
    case publish
    show ?thesis by (rule done_inv_pc [OF d, of _ 0 "Gate"]) (simp_all add: publish scan_upd)
  next
    case (waitPub i)
    show ?thesis by (rule done_inv_pc [OF d, of _ i "Gate"]) (simp_all add: waitPub scan_upd)
  next
    case (gate i)
    show ?thesis by (rule done_inv_pc [OF d, of _ i "if sc_cancelled s \<or> sc_stop s then Stamp2 else Pass2"]) (simp_all add: gate scan_upd)
  next
    case (stamp2 i)
    show ?thesis by (rule done_inv_upd [OF d, of _ i "Retired"]) (simp_all add: stamp2 scan_upd)
  next
    case final0
    show ?thesis by (rule done_inv_upd [OF d, of _ 0 "Retired"]) (simp_all add: final0 scan_upd)
  qed
qed

lemma part_ok_mono: "part_ok p e q \<Longrightarrow> (e \<Longrightarrow> e') \<Longrightarrow> part_ok p e' q"
  by (cases p) auto

lemma part_inv_upd:
  assumes "part_inv c s" "i < sg_participants c" "sc_pc t = (sc_pc s)(i := p)" "sc_part t = (sc_part s)(i := q)"
    "sc_exc s \<noteq> None \<Longrightarrow> sc_exc t \<noteq> None"
    "part_ok (sc_pc s i) (sc_exc s \<noteq> None) (sc_part s i) \<Longrightarrow> part_ok p (sc_exc t \<noteq> None) q"
  shows "part_inv c t"
  unfolding part_inv_def
proof (intro allI impI)
  fix j assume j: "j < sg_participants c"
  then have "part_ok (sc_pc s j) (sc_exc s \<noteq> None) (sc_part s j)" using assms(1) by (simp add: part_inv_def)
  then show "part_ok (sc_pc t j) (sc_exc t \<noteq> None) (sc_part t j)"
    using part_ok_mono [OF _ assms(5)] assms(6) by (auto simp: assms(3,4))
qed

lemma part_inv_pc:
  assumes "part_inv c s" "i < sg_participants c" "sc_pc t = (sc_pc s)(i := p)" "sc_part t = sc_part s"
    "sc_exc s \<noteq> None \<Longrightarrow> sc_exc t \<noteq> None"
    "part_ok (sc_pc s i) (sc_exc s \<noteq> None) (sc_part s i) \<Longrightarrow> part_ok p (sc_exc t \<noteq> None) (sc_part s i)"
  shows "part_inv c t"
  by (rule part_inv_upd [OF assms(1-3), of "sc_part s i"]) (use assms(4-6) in simp_all)

lemma part_keep:
  assumes flat: "\<not> sg_hier c" and inv: "flat_inv c s" and step: "scan_step c s a = Some t"
  shows "part_inv c t"
proof -
  note d = flat_invD(4) [OF inv] and P = flat_invD(1) [OF inv]
  from flat step flat_invD(2) [OF inv] show ?thesis
  proof (cases rule: flat_cases)
    case stop
    then show ?thesis using d by (simp add: part_inv_def)
  next
    case (ret1 i v)
    show ?thesis by (rule part_inv_upd [OF d, of i _ Stamp1 "Some v"]) (simp_all add: P ret1 scan_upd split: option.splits)
  next
    case (ret2 i)
    show ?thesis by (rule part_inv_pc [OF d, of i _ "Stamp2"]) (simp_all add: P ret2 scan_upd split: option.splits)
  next
    case (throw1 i)
    show ?thesis by (rule part_inv_pc [OF d, of i _ "FailStamp"]) (simp_all add: P throw1 scan_upd split: option.splits)
  next
    case (throw2 i)
    show ?thesis by (rule part_inv_pc [OF d, of i _ "Stamp2"]) (simp_all add: P throw2 scan_upd split: option.splits)
  next
    case (throwR k)
    show ?thesis by (rule part_inv_pc [OF d, of 0 _ "PublishPrefixes"]) (simp_all add: P throwR scan_upd split: option.splits)
  next
    case (failW i)
    show ?thesis by (rule part_inv_pc [OF d, of i _ "Retired"]) (auto simp: P failW scan_upd split: option.splits)
  next
    case fail0
    show ?thesis by (rule part_inv_pc [OF d, of 0 _ "FailPublish"]) (auto simp: P fail0 scan_upd split: option.splits)
  next
    case failPub
    show ?thesis by (rule part_inv_pc [OF d, of 0 _ "FailJoin 1"]) (simp_all add: P failPub scan_upd split: option.splits)
  next
    case (failJoin k)
    show ?thesis by (rule part_inv_pc [OF d, of 0 _ "FailJoin (Suc k)"]) (simp_all add: P failJoin scan_upd split: option.splits)
  next
    case failEnd
    show ?thesis by (rule part_inv_pc [OF d, of 0 _ "Retired"]) (simp_all add: P failEnd scan_upd split: option.splits)
  next
    case stamp0
    show ?thesis by (rule part_inv_pc [OF d, of 0 _ "WaitAll 1"]) (simp_all add: P stamp0 scan_upd split: option.splits)
  next
    case (stampW i)
    show ?thesis by (rule part_inv_pc [OF d, of i _ "WaitPrefixes"]) (simp_all add: P stampW scan_upd split: option.splits)
  next
    case (waitAll k)
    show ?thesis by (rule part_inv_pc [OF d, of 0 _ "WaitAll (Suc k)"]) (simp_all add: P waitAll scan_upd split: option.splits)
  next
    case waitEnd
    show ?thesis by (rule part_inv_pc [OF d, of 0 _ "CheckFail"]) (simp_all add: P waitEnd scan_upd split: option.splits)
  next
    case check
    show ?thesis by (rule part_inv_pc [OF d, of 0 _ "if sc_exc s = None then SeqReduce 0 else PublishPrefixes"]) (simp_all add: P check scan_upd split: option.splits)
  next
    case (reduce k)
    show ?thesis by (rule part_inv_pc [OF d, of 0 _ "SeqReduce (Suc k)"]) (simp_all add: P reduce scan_upd split: option.splits)
  next
    case reduceEnd
    show ?thesis by (rule part_inv_pc [OF d, of 0 _ "PublishPrefixes"]) (simp_all add: P reduceEnd scan_upd split: option.splits)
  next
    case publish
    show ?thesis by (rule part_inv_pc [OF d, of 0 _ "Gate"]) (simp_all add: P publish scan_upd split: option.splits)
  next
    case (waitPub i)
    show ?thesis by (rule part_inv_pc [OF d, of i _ "Gate"]) (simp_all add: P waitPub scan_upd split: option.splits)
  next
    case (gate i)
    show ?thesis by (rule part_inv_pc [OF d, of i _ "if sc_cancelled s \<or> sc_stop s then Stamp2 else Pass2"]) (simp_all add: P gate scan_upd split: option.splits)
  next
    case (stamp2 i)
    show ?thesis by (rule part_inv_pc [OF d, of i _ "Retired"]) (auto simp: P stamp2 scan_upd split: option.splits)
  next
    case final0
    show ?thesis by (rule part_inv_pc [OF d, of 0 _ "Retired"]) (auto simp: P final0 scan_upd split: option.splits)
  qed
qed

lemma flags_keep:
  assumes flat: "\<not> sg_hier c" and inv: "flat_inv c s" and step: "scan_step c s a = Some t"
  shows "flags_inv c t"
  using flat_invD(1,2,5) [OF inv]
  by (cases rule: flat_cases [OF flat step flat_invD(2) [OF inv]])
    (auto simp: flags_inv_def pcs_inv_def scan_upd split: option.splits)


text \<open>What the pass-1 results say of the reduction.\<close>

lemma all_parts_not_Pass1:
  assumes "part_inv c s" "all_parts c s" "i < sg_participants c"
  shows "sc_pc s i \<noteq> Pass1"
proof
  assume "sc_pc s i = Pass1"
  moreover have "part_ok (sc_pc s i) (sc_exc s \<noteq> None) (sc_part s i)"
    using assms(1,3) unfolding part_inv_def by blast
  ultimately have "sc_part s i = None" by simp
  then show False using assms(2,3) unfolding all_parts_def by blast
qed

lemma done_level:
  assumes "done_inv c s" "k < sg_participants c" "sg_epochBase c + 1 \<le> sc_done s k"
  shows "1 \<le> level (sc_pc s k)"
proof -
  have "done_ok (sg_epochBase c) (level (sc_pc s k)) (sc_done s k)"
    using assms(1,2) unfolding done_inv_def by blast
  then show ?thesis using assms(3) by (cases "level (sc_pc s k)") simp_all
qed

lemma wait_later:
  assumes "wait_inv c s" "sc_pc s 0 = WaitAll k" "i < k" "i < sg_participants c"
  shows "level (sc_pc s i) \<noteq> 0"
  using assms unfolding wait_inv_def by (metis not_one_le_zero)

lemma parts_when_no_failure:
  assumes "part_inv c s" "sc_exc s = None" "\<forall>i < sg_participants c. 1 \<le> level (sc_pc s i)"
  shows "all_parts c s"
  unfolding all_parts_def
proof (intro allI impI)
  fix i assume i: "i < sg_participants c"
  then have "part_ok (sc_pc s i) False (sc_part s i)" "1 \<le> level (sc_pc s i)"
    using assms by (simp_all add: part_inv_def)
  then show "sc_part s i \<noteq> None" by (cases "sc_pc s i") auto
qed

lemma pre_Suc: "pre c s (Suc k) = sg_prefix c (pre c s k) (the (sc_part s k))"
  by (simp add: pre_def)

lemma pre_0 [simp]: "pre c s 0 = sg_identity c"
  by (simp add: pre_def)

lemma pre_cong: "sc_part t = sc_part s \<Longrightarrow> pre c t = pre c s"
  by (simp add: pre_def fun_eq_iff)

lemma all_parts_cong: "sc_part t = sc_part s \<Longrightarrow> all_parts c t = all_parts c s"
  by (simp add: all_parts_def)

text \<open>A step that leaves the producer before its reduction.\<close>

lemma wait_keep:
  assumes flat: "\<not> sg_hier c" and inv: "flat_inv c s" and step: "scan_step c s a = Some t"
  shows "wait_inv c t"
proof -
  note P = flat_invD(1) [OF inv] and w = flat_invD(6) [OF inv]
  from flat step flat_invD(2) [OF inv] show ?thesis
  proof (cases rule: flat_cases)
    case (ret1 i v)
    have "level (sc_pc s i) = 0" using ret1 by simp
    with wait_later [OF w] have "\<not> i < k" if "sc_pc s 0 = WaitAll k" for k using that ret1(1) by blast
    with w ret1 P show ?thesis by (auto simp: wait_inv_def scan_upd)
  next
    case (throw1 i)
    have "level (sc_pc s i) = 0" using throw1 by simp
    with wait_later [OF w] have "\<not> i < k" if "sc_pc s 0 = WaitAll k" for k using that throw1(1) by blast
    with w throw1 P show ?thesis by (auto simp: wait_inv_def scan_upd)
  next
    case (waitAll k)
    have "1 \<le> level (sc_pc s k)" using done_level [OF flat_invD(3) [OF inv] waitAll(2,3)] .
    with w waitAll P show ?thesis by (auto simp: wait_inv_def scan_upd less_Suc_eq)
  qed (use w P in \<open>auto simp: wait_inv_def scan_upd less_Suc_eq\<close>)
qed

text \<open>The reduction: the producer's moves after it, and the moves of the others.\<close>

lemma complete_cong:
  assumes "sc_part t = sc_part s" "sc_partials t = sc_partials s" "sc_acc t 0 = sc_acc s 0"
  shows "complete c t = complete c s"
  unfolding complete_def pre_cong [OF assms(1)] all_parts_cong [OF assms(1)] using assms(2,3) by simp

lemma reduce_other:
  assumes "reduce_inv c s" "sc_pc t 0 = sc_pc s 0" "sc_part t = sc_part s" "sc_partials t = sc_partials s"
    "sc_acc t 0 = sc_acc s 0" "sc_total t = sc_total s" "sc_exc s \<noteq> None \<Longrightarrow> sc_exc t \<noteq> None"
  shows "reduce_inv c t"
proof -
  have c: "complete c t = complete c s" "all_parts c t = all_parts c s" "pre c t = pre c s"
    using complete_cong [OF assms(3-5)] pre_cong [OF assms(3)] all_parts_cong [OF assms(3)] by simp_all
  show ?thesis using assms(1,7) unfolding reduce_inv_def assms(2,4-6) c by (simp add: assms(3)) blast
qed

lemma reduce_past:
  assumes "reduce_inv c s" "sc_pc s 0 \<in> {PublishPrefixes, Gate, Pass2, Stamp2, Retired}"
    "sc_pc t 0 \<in> {PublishPrefixes, Gate, Pass2, Stamp2}" "sc_part t = sc_part s"
    "sc_partials t = sc_partials s" "sc_acc t 0 = sc_acc s 0" "sc_exc s \<noteq> None \<Longrightarrow> sc_exc t \<noteq> None"
  shows "reduce_inv c t"
proof -
  have "sc_exc s \<noteq> None \<or> complete c s" using assms(1,2) unfolding reduce_inv_def by blast
  moreover have "complete c t = complete c s" by (rule complete_cong [OF assms(4-6)])
  ultimately show ?thesis using assms(3,7) unfolding reduce_inv_def by auto
qed

lemma reduce_before:
  assumes "before_reduce (sc_pc t 0) \<or> sc_pc t 0 = FailPublish \<or> (\<exists>k. sc_pc t 0 = FailJoin k)"
  shows "reduce_inv c t"
  using assms by (auto simp: reduce_inv_def)

lemma reduce_failed:
  assumes "sc_pc t 0 = PublishPrefixes \<or> sc_pc t 0 = Retired" "sc_exc t \<noteq> None"
  shows "reduce_inv c t"
  using assms by (auto simp: reduce_inv_def)

lemma reduce_keep:
  assumes flat: "\<not> sg_hier c" and inv: "flat_inv c s" and step: "scan_step c s a = Some t"
  shows "reduce_inv c t"
proof -
  note P = flat_invD(1) [OF inv] and w = flat_invD(7) [OF inv] and p = flat_invD(4) [OF inv]
  from flat step flat_invD(2) [OF inv] show ?thesis
  proof (cases rule: flat_cases)
    case stop
    then show ?thesis by (intro reduce_other [OF w]) simp_all
  next
    case (ret1 i v)
    show ?thesis
    proof (cases "i = 0")
      case True
      then show ?thesis using ret1 by (intro reduce_before) (simp add: scan_upd)
    next
      case False
      have np: "\<not> all_parts c s" using all_parts_not_Pass1 [OF p] ret1(1,2) by blast
      then have "\<not> complete c s" by (simp add: complete_def)
      then show ?thesis using w np False unfolding ret1(3) reduce_inv_def scan_upd by auto
    qed
  next
    case (ret2 i)
    show ?thesis
    proof (cases "i = 0")
      case True
      then show ?thesis using ret2 by (intro reduce_past [OF w]) (simp_all add: scan_upd)
    next
      case False
      then show ?thesis using ret2 by (intro reduce_other [OF w]) (simp_all add: scan_upd)
    qed
  next
    case (throw1 i)
    show ?thesis
    proof (cases "i = 0")
      case True
      then show ?thesis using throw1 by (intro reduce_before) (simp add: scan_upd)
    next
      case False
      then show ?thesis using throw1 by (intro reduce_other [OF w]) (auto simp: scan_upd split: option.splits)
    qed
  next
    case (throw2 i)
    show ?thesis
    proof (cases "i = 0")
      case True
      then show ?thesis using throw2 by (intro reduce_past [OF w]) (auto simp: scan_upd split: option.splits)
    next
      case False
      then show ?thesis using throw2 by (intro reduce_other [OF w]) (auto simp: scan_upd split: option.splits)
    qed
  next
    case (throwR k)
    then show ?thesis by (intro reduce_failed) (auto simp: scan_upd split: option.splits)
  next
    case (failW i)
    then show ?thesis by (intro reduce_other [OF w]) (simp_all add: scan_upd)
  next
    case fail0
    then show ?thesis by (intro reduce_before) (simp add: scan_upd)
  next
    case failPub
    then show ?thesis by (intro reduce_before) (simp add: scan_upd)
  next
    case (failJoin k)
    then show ?thesis by (intro reduce_before) (simp add: scan_upd)
  next
    case failEnd
    have "part_ok (sc_pc s 0) (sc_exc s \<noteq> None) (sc_part s 0)" using p P unfolding part_inv_def by blast
    then have "sc_exc s \<noteq> None" using failEnd by simp
    then show ?thesis using failEnd by (intro reduce_failed) (simp_all add: scan_upd)
  next
    case stamp0
    then show ?thesis by (intro reduce_before) (simp add: scan_upd)
  next
    case (stampW i)
    then show ?thesis by (intro reduce_other [OF w]) (simp_all add: scan_upd)
  next
    case (waitAll k)
    then show ?thesis by (intro reduce_before) (simp add: scan_upd)
  next
    case waitEnd
    then show ?thesis by (intro reduce_before) (simp add: scan_upd)
  next
    case check
    show ?thesis
    proof (cases "sc_exc s")
      case (Some j)
      then show ?thesis using check by (intro reduce_failed) (simp_all add: scan_upd)
    next
      case None
      have "\<forall>i < sg_participants c. 1 \<le> level (sc_pc s i)"
        and parts: "\<forall>i < sg_participants c. \<forall>v. sc_part s i = Some v \<longrightarrow> sc_partials s i = v"
        using flat_invD(6) [OF inv] check(1) by (auto simp: wait_inv_def)
      then have ap: "all_parts c s" using parts_when_no_failure [OF p None] by blast
      then have "\<forall>i < sg_participants c. sc_partials s i = the (sc_part s i)"
        using parts unfolding all_parts_def by (metis option.exhaust_sel)
      then show ?thesis using ap check None
        by (auto simp: reduce_inv_def scan_upd all_parts_def pre_def)
    qed
  next
    case (reduce k)
    have i: "all_parts c s" "sc_acc s 0 = pre c s k"
      "\<forall>i < sg_participants c. sc_partials s i = (if i < k then pre c s i else the (sc_part s i))"
      using w reduce(1) unfolding reduce_inv_def by blast+
    have t: "sc_part t = sc_part s" "sc_pc t 0 = SeqReduce (Suc k)" "sc_partials t = (sc_partials s)(k := sc_acc s 0)"
      "sc_acc t 0 = sg_prefix c (sc_acc s 0) (sc_partials s k)"
      unfolding reduce(3) by (simp_all add: scan_upd)
    show ?thesis unfolding reduce_inv_def t(2,3) t(4) pre_cong [OF t(1)] all_parts_cong [OF t(1)]
      using i reduce(2) by (auto simp: pre_Suc t(1) less_Suc_eq)
  next
    case reduceEnd
    have i: "all_parts c s" "sc_acc s 0 = pre c s (sg_participants c)"
      "\<forall>i < sg_participants c. sc_partials s i = pre c s i"
      using w reduceEnd(1) unfolding reduce_inv_def by simp_all
    then have "complete c s" by (simp add: complete_def)
    moreover have "complete c t = complete c s"
      by (rule complete_cong) (simp_all add: reduceEnd scan_upd)
    ultimately show ?thesis unfolding reduce_inv_def by (simp add: reduceEnd(2) scan_upd)
  next
    case publish
    then show ?thesis by (intro reduce_past [OF w]) (simp_all add: scan_upd)
  next
    case (waitPub i)
    then show ?thesis by (intro reduce_other [OF w]) (simp_all add: scan_upd)
  next
    case (gate i)
    show ?thesis
    proof (cases "i = 0")
      case True
      then show ?thesis using gate by (intro reduce_past [OF w]) (simp_all add: scan_upd)
    next
      case False
      then show ?thesis using gate by (intro reduce_other [OF w]) (simp_all add: scan_upd)
    qed
  next
    case (stamp2 i)
    then show ?thesis by (intro reduce_other [OF w]) (simp_all add: scan_upd)
  next
    case final0
    have "sc_exc s \<noteq> None \<or> complete c s" using w final0(1) unfolding reduce_inv_def by simp
    moreover have "complete c t = complete c s"
      by (rule complete_cong) (simp_all add: final0 scan_upd)
    moreover have "pre c t = pre c s" by (rule pre_cong) (simp add: final0 scan_upd)
    ultimately show ?thesis unfolding reduce_inv_def
      by (auto simp: final0(2) scan_upd complete_def)
  qed
qed

lemma seed_same:
  assumes "seed_inv c s" "sc_part t = sc_part s" "sc_seed t = sc_seed s"
  shows "seed_inv c t"
  unfolding seed_inv_def all_parts_cong [OF assms(2)] pre_cong [OF assms(2)]
  using assms(1,3) by (simp add: seed_inv_def)

lemma seed_keep:
  assumes flat: "\<not> sg_hier c" and inv: "flat_inv c s" and step: "scan_step c s a = Some t"
  shows "seed_inv c t"
proof -
  note w = flat_invD(8) [OF inv]
  from flat step flat_invD(2) [OF inv] show ?thesis
  proof (cases rule: flat_cases)
    case (ret1 i v)
    have "\<not> all_parts c s" using all_parts_not_Pass1 [OF flat_invD(4) [OF inv]] ret1(1,2) by blast
    then have "\<forall>j < sg_participants c. sc_seed s j = None" using w by (auto simp: seed_inv_def)
    then show ?thesis by (simp add: seed_inv_def ret1(3) scan_upd)
  next
    case (gate i)
    show ?thesis
    proof (cases "sc_cancelled s \<or> sc_stop s")
      case True
      then show ?thesis using gate by (intro seed_same [OF w]) (simp_all add: scan_upd)
    next
      case False
      have f: "sc_exc s = None" "sc_published s"
        using flat_invD(5) [OF inv] gate(1,2) False unfolding flags_inv_def by auto
      then have "past_publish (sc_pc s 0)" using flat_invD(5) [OF inv] unfolding flags_inv_def by blast
      moreover have "sc_pc s 0 \<noteq> FailJoin k" for k
        using flat_invD(4) [OF inv] flat_invD(1) [OF inv] f(1) unfolding part_inv_def by force
      ultimately have "sc_pc s 0 \<in> {PublishPrefixes, Gate, Pass2, Stamp2, Retired}"
        by (cases "sc_pc s 0") auto
      then have "complete c s" using flat_invD(7) [OF inv] f(1) unfolding reduce_inv_def by blast
      then have "all_parts c s" "sc_partials s i = pre c s i" using gate(1) by (simp_all add: complete_def)
      then show ?thesis using w False
        by (auto simp: seed_inv_def gate(3) scan_upd all_parts_def pre_def)
    qed
  qed (rule seed_same [OF w]; simp add: scan_upd)+
qed

lemma failed_cancelled:
  assumes "flat_inv c s" "i < sg_participants c" "sc_pc s i = FailStamp \<or> (\<exists>k. sc_pc s i = FailJoin k)"
  shows "sc_cancelled s"
proof -
  have "part_ok (sc_pc s i) (sc_exc s \<noteq> None) (sc_part s i)"
    using flat_invD(4) [OF assms(1)] assms(2) unfolding part_inv_def by blast
  then have "sc_exc s \<noteq> None" using assms(3) by auto
  then show ?thesis using flat_invD(5) [OF assms(1)] unfolding flags_inv_def by blast
qed

lemma ran_keep:
  assumes flat: "\<not> sg_hier c" and inv: "flat_inv c s" and step: "scan_step c s a = Some t"
  shows "ran_inv c t"
proof -
  note w = flat_invD(9) [OF inv] and P = flat_invD(1) [OF inv]
  from flat step flat_invD(2) [OF inv] show ?thesis
  proof (cases rule: flat_cases)
    case (failW i)
    then have "sc_cancelled s" using failed_cancelled [OF inv] by blast
    with w failW show ?thesis by (auto simp: ran_inv_def scan_upd)
  next
    case failEnd
    then have "sc_cancelled s" using failed_cancelled [OF inv P] by blast
    with w failEnd show ?thesis by (auto simp: ran_inv_def scan_upd)
  next
    case (gate i)
    then show ?thesis using w by (auto simp: ran_inv_def scan_upd)
  qed (use w P in \<open>auto simp: ran_inv_def scan_upd split: option.splits\<close>)
qed

lemma flat_step_inv:
  assumes "\<not> sg_hier c" "flat_inv c s" "scan_step c s a = Some t"
  shows "flat_inv c t"
  using pcs_keep [OF assms] done_keep [OF assms] part_keep [OF assms] flags_keep [OF assms]
    wait_keep [OF assms] reduce_keep [OF assms] seed_keep [OF assms] ran_keep [OF assms] flat_invD(1) [OF assms(2)]
  by (simp add: flat_inv_def)

section \<open>Progress\<close>

fun rank :: "nat \<Rightarrow> scan_pc \<Rightarrow> nat" where
  "rank P Retired = 0" | "rank P Stamp2 = 1" | "rank P Pass2 = 2" | "rank P Gate = 3"
| "rank P PublishPrefixes = 4" | "rank P WaitPrefixes = 4" | "rank P (SeqReduce k) = 5 + (P - k)"
| "rank P CheckFail = 6 + P" | "rank P (WaitAll k) = 7 + P + (P - k)" | "rank P Stamp1 = 8 + 2 * P"
| "rank P (FailJoin k) = 1 + (P - k)" | "rank P FailPublish = 2 + P" | "rank P FailStamp = 3 + P"
| "rank P Pass1 = 9 + 2 * P" | "rank P _ = 0"

definition scan_fuel :: "'a scan_cfg \<Rightarrow> 'a scan \<Rightarrow> nat" where
  "scan_fuel c s = (\<Sum>i < sg_participants c. rank (sg_participants c) (sc_pc s i)) + (if sc_stop s then 0 else 1)"

lemma scan_fuel_upd:
  assumes "i < sg_participants c" "sc_pc t = (sc_pc s)(i := p)" "sc_stop t = sc_stop s"
    "rank (sg_participants c) p < rank (sg_participants c) (sc_pc s i)"
  shows "scan_fuel c t < scan_fuel c s"
proof -
  let ?r = "rank (sg_participants c)"
  have e: "(\<lambda>j. ?r (sc_pc t j)) = (\<lambda>j. ?r (sc_pc s j))(i := ?r p)" by (auto simp: assms(2) fun_eq_iff)
  have "(\<Sum>j < sg_participants c. ?r (sc_pc t j)) + ?r (sc_pc s i)
      = (\<Sum>j < sg_participants c. ?r (sc_pc s j)) + ?r p"
    using sum_fun_upd_nat [OF assms(1), of "\<lambda>j. ?r (sc_pc s j)" "?r p"] unfolding e by simp
  then show ?thesis using assms(3,4) by (simp add: scan_fuel_def)
qed

lemma scan_step_fuel:
  assumes flat: "\<not> sg_hier c" and inv: "flat_inv c s" and step: "scan_step c s a = Some t"
  shows "scan_fuel c t < scan_fuel c s"
proof -
  note P = flat_invD(1) [OF inv]
  have moved: "scan_fuel c t < scan_fuel c s"
    if "i < sg_participants c" "sc_pc t = (sc_pc s)(i := sc_pc t i)" "sc_stop t = sc_stop s"
      "rank (sg_participants c) (sc_pc t i) < rank (sg_participants c) (sc_pc s i)" for i
    using that by (rule scan_fuel_upd)
  from flat step flat_invD(2) [OF inv] show ?thesis
  proof (cases rule: flat_cases)
    case stop
    then show ?thesis by (simp add: scan_fuel_def)
  next
    case (ret1 i v)
    show ?thesis by (rule moved [OF ret1(1)]) (simp_all add: ret1 scan_upd)
  next
    case (ret2 i)
    show ?thesis by (rule moved [OF ret2(1)]) (simp_all add: ret2 scan_upd)
  next
    case (throw1 i)
    show ?thesis by (rule moved [OF throw1(1)]) (simp_all add: throw1 scan_upd)
  next
    case (throw2 i)
    show ?thesis by (rule moved [OF throw2(1)]) (simp_all add: throw2 scan_upd)
  next
    case (failW i)
    show ?thesis by (rule moved [OF failW(2)]) (simp_all add: failW scan_upd)
  next
    case (stampW i)
    show ?thesis by (rule moved [OF stampW(2)]) (simp_all add: stampW scan_upd)
  next
    case (waitPub i)
    show ?thesis by (rule moved [OF waitPub(2)]) (simp_all add: waitPub scan_upd)
  next
    case (gate i)
    show ?thesis by (rule moved [OF gate(1)]) (simp_all add: gate scan_upd)
  next
    case (stamp2 i)
    show ?thesis by (rule moved [OF stamp2(2)]) (simp_all add: stamp2 scan_upd)
  qed (use moved [OF P] P in \<open>simp_all add: scan_upd\<close>)
qed

lemma step_GoI: "i < sg_participants c \<Longrightarrow> scan_slot_step c i s = Some t \<Longrightarrow> \<exists>a t. scan_step c s a = Some t"
  by (rule exI [of _ "Go i"]) (simp add: scan_step_def)

lemma step_RetI: "i < sg_participants c \<Longrightarrow> ret_step i v s = Some t \<Longrightarrow> \<exists>a t. scan_step c s a = Some t"
  by (rule exI [of _ "Ret i v"]) (simp add: scan_step_def)

lemma slot_enabled:
  assumes flat: "\<not> sg_hier c" and i: "i < sg_participants c" "flat_pc (sg_participants c) i (sc_pc s i)"
    and pc: "sc_pc s i \<noteq> Retired" "\<And>k. sc_pc s i = WaitAll k \<Longrightarrow> k < sg_participants c \<Longrightarrow> sg_epochBase c + 1 \<le> sc_done s k"
    "\<And>k. sc_pc s i = FailJoin k \<Longrightarrow> k < sg_participants c \<Longrightarrow> sg_epochBase c + 2 \<le> sc_done s k"
    "sc_pc s i = WaitPrefixes \<Longrightarrow> sc_published s"
  shows "\<exists>a t. scan_step c s a = Some t"
proof -
  consider "sc_pc s i = Pass1" | "sc_pc s i = Pass2"
    | "sc_pc s i \<in> {FailStamp, FailPublish, Stamp1, CheckFail, PublishPrefixes, WaitPrefixes, Gate, Stamp2}"
    | k where "sc_pc s i = FailJoin k" | k where "sc_pc s i = WaitAll k" | k where "sc_pc s i = SeqReduce k"
    using i(2) pc(1) by (cases "sc_pc s i") auto
  then show ?thesis
  proof cases
    case 1
    then show ?thesis using i(1) by (intro step_RetI [of i]) (simp_all add: ret_step_def)
  next
    case 2
    then show ?thesis using i(1) by (intro step_RetI [of i]) (simp_all add: ret_step_def)
  next
    case 3
    then have "scan_slot_step c i s \<noteq> None"
      using flat pc(4) by (auto simp: scan_slot_step_def fail_step_def flat_step_def)
    then show ?thesis using i(1) step_GoI by blast
  next
    case (4 k)
    then have "scan_slot_step c i s \<noteq> None" using pc(3) [OF 4] by (simp add: scan_slot_step_def fail_step_def)
    then show ?thesis using i(1) step_GoI by blast
  next
    case (5 k)
    then have "scan_slot_step c i s \<noteq> None"
      using flat pc(2) [OF 5] by (simp add: scan_slot_step_def fail_step_def flat_step_def)
    then show ?thesis using i(1) step_GoI by blast
  next
    case (6 k)
    then have "scan_slot_step c i s \<noteq> None"
      using flat by (simp add: scan_slot_step_def fail_step_def flat_step_def)
    then show ?thesis using i(1) step_GoI by blast
  qed
qed

lemma worker_enabled:
  assumes flat: "\<not> sg_hier c" and inv: "flat_inv c s" and i: "0 < i" "i < sg_participants c"
    and "sc_pc s i \<noteq> Retired" "level (sc_pc s i) = 0 \<or> sc_published s"
  shows "\<exists>a t. scan_step c s a = Some t"
proof -
  have f: "flat_pc (sg_participants c) i (sc_pc s i)"
    using flat_invD(2) [OF inv] i(2) unfolding pcs_inv_def by blast
  show ?thesis by (rule slot_enabled [OF flat i(2) f]) (use assms(3-6) f in auto)
qed

lemma scan_progress:
  assumes flat: "\<not> sg_hier c" and inv: "flat_inv c s" and "\<not> retired c s"
  shows "\<exists>a t. scan_step c s a = Some t"
proof -
  let ?P = "sg_participants c"
  note P = flat_invD(1) [OF inv] and d = flat_invD(3) [OF inv]
  have f: "flat_pc ?P 0 (sc_pc s 0)" using flat_invD(2) [OF inv] P unfolding pcs_inv_def by blast
  have pub: "sc_published s \<longleftrightarrow> past_publish (sc_pc s 0)"
    using flat_invD(5) [OF inv] unfolding flags_inv_def by blast
  have dk: "done_ok (sg_epochBase c) (level (sc_pc s k)) (sc_done s k)" if "k < ?P" for k
    using d that unfolding done_inv_def by blast
  consider (a) "sc_pc s 0 = Retired"
    | (b) k where "sc_pc s 0 = WaitAll k" "k < ?P" "sc_done s k < sg_epochBase c + 1"
    | (c) k where "sc_pc s 0 = FailJoin k" "k < ?P" "sc_done s k < sg_epochBase c + 2"
    | (d) "sc_pc s 0 \<noteq> Retired"
      "\<And>k. sc_pc s 0 = WaitAll k \<Longrightarrow> k < ?P \<Longrightarrow> sg_epochBase c + 1 \<le> sc_done s k"
      "\<And>k. sc_pc s 0 = FailJoin k \<Longrightarrow> k < ?P \<Longrightarrow> sg_epochBase c + 2 \<le> sc_done s k"
    by (metis linorder_not_le)
  then show ?thesis
  proof cases
    case a
    obtain i where i: "i < ?P" "sc_pc s i \<noteq> Retired" using assms(3) by (auto simp: retired_def)
    have "0 < i" using a i(2) by (cases i) auto
    then show ?thesis by (rule worker_enabled [OF flat inv _ i]) (simp add: a pub)
  next
    case (b k)
    have "level (sc_pc s k) = 0" using dk [OF b(2)] b(3) by (cases "level (sc_pc s k)") (auto simp: done_ok_def)
    moreover have "0 < k" using b(1) f by simp
    moreover have "sc_pc s k \<noteq> Retired" using \<open>level (sc_pc s k) = 0\<close> by auto
    ultimately show ?thesis using worker_enabled [OF flat inv _ b(2)] by blast
  next
    case (c k)
    have "level (sc_pc s k) \<noteq> 2" using dk [OF c(2)] c(3) by (auto simp: done_ok_def)
    then have "sc_pc s k \<noteq> Retired" by auto
    moreover have "0 < k" "sc_published s" using c(1) f pub by simp_all
    ultimately show ?thesis using worker_enabled [OF flat inv _ c(2)] by blast
  next
    case d
    show ?thesis by (rule slot_enabled [OF flat P f d]) (use f in auto)
  qed
qed

section \<open>The properties\<close>

definition scan_start :: "'a scan_cfg \<Rightarrow> 'a scan \<Rightarrow> bool" where
  "scan_start c s \<longleftrightarrow> \<not> sg_hier c \<and> 0 < sg_participants c \<and>
     (\<exists>def stale stopped. s = scan_init c def stale stopped \<and>
        (\<forall>i < sg_participants c. stale i \<le> sg_epochBase c))"

lemma scan_start_inv: "scan_start c s \<Longrightarrow> flat_inv c s"
  by (auto simp: scan_start_def scan_init_def flat_inv_def pcs_inv_def done_inv_def part_inv_def
      flags_inv_def wait_inv_def reduce_inv_def seed_inv_def ran_inv_def)

interpretation scan: terminating_system "scan_step c" "scan_start c" "\<lambda>s. \<not> sg_hier c \<and> flat_inv c s"
  "retired c" "scan_fuel c" for c
proof unfold_locales
  show "scan_start c s \<Longrightarrow> \<not> sg_hier c \<and> flat_inv c s" for s
    by (simp add: scan_start_inv) (simp add: scan_start_def)
qed (auto intro: flat_step_inv scan_step_fuel scan_progress)

lemma scan_start_fuel:
  assumes "scan_start c s"
  shows "scan_fuel c s \<le> sg_participants c * (2 * sg_participants c + 9) + 1"
  using assms by (auto simp: scan_start_def scan_init_def scan_fuel_def algebra_simps)

text \<open>What the invariant says of a state, in the words of the properties.\<close>

lemma flat_inv_seeds:
  assumes "flat_inv c t" "i < sg_participants c" "sc_seed t i = Some v"
  shows "all_parts c t \<and> v = pre c t i"
  using flat_invD(8) [OF assms(1)] assms(2,3) unfolding seed_inv_def by blast

lemma flat_inv_retired:
  assumes "flat_inv c t" "retired c t"
  shows "\<forall>i < sg_participants c. sc_done t i = sg_epochBase c + 2"
    and "sc_exc t = None \<Longrightarrow> all_parts c t \<and> scan_result t = Inr (pre c t (sg_participants c)) \<and>
      (sc_stop t \<or> (\<forall>i < sg_participants c. sc_seed t i \<noteq> None))"
proof -
  show "\<forall>i < sg_participants c. sc_done t i = sg_epochBase c + 2"
    using flat_invD(3) [OF assms(1)] assms(2) by (auto simp: done_inv_def retired_def)
  assume e: "sc_exc t = None"
  have "sc_pc t 0 = Retired" using assms(2) flat_invD(1) [OF assms(1)] by (simp add: retired_def)
  then have "complete c t" "sc_total t = pre c t (sg_participants c)"
    using flat_invD(7) [OF assms(1)] e unfolding reduce_inv_def by simp_all
  moreover have "sc_stop t \<or> (\<forall>i < sg_participants c. sc_seed t i \<noteq> None)"
    using flat_invD(9) [OF assms(1)] e assms(2) unfolding ran_inv_def retired_def by blast
  ultimately show "all_parts c t \<and> scan_result t = Inr (pre c t (sg_participants c)) \<and>
      (sc_stop t \<or> (\<forall>i < sg_participants c. sc_seed t i \<noteq> None))"
    using e by (simp add: scan_result_def complete_def)
qed

lemma flat_run_inv:
  assumes "\<not> sg_hier c" "0 < sg_participants c" "\<forall>i < sg_participants c. stale i \<le> sg_epochBase c"
    "run (scan_step c) (scan_init c def stale stopped) acts = Some t"
  shows "flat_inv c t"
proof -
  have "scan_start c (scan_init c def stale stopped)" using assms(1-3) by (auto simp: scan_start_def)
  from scan.run_inv [OF this assms(4)] show ?thesis by simp
qed

text \<open>After a stop no slot enters pass 2.\<close>

lemma stop_keeps_seeds:
  assumes "scan_step c s a = Some t" "sc_stop s"
  shows "sc_stop t \<and> sc_seed t = sc_seed s"
  using assms
  by (cases a) (auto simp: scan_step_def scan_slot_step_def fail_step_def flat_step_def hier_step_def gate_step_def
      throw_step_def ret_step_def recordFailure_def stamp_def set_pc_def Let_def split: scan_pc.splits if_splits)

lemma stopped_run_seeds:
  assumes "run (scan_step c) s acts = Some t" "sc_stop s"
  shows "sc_seed t = sc_seed s"
  using assms by (induction acts arbitrary: s) (fastforce split: option.splits dest: stop_keeps_seeds)+

text \<open>
  C28. On the sequential-reduce path, whatever the interleaving, the exceptions and the stop
  requests: a slot that runs pass 2 is given the fold of the pass-1 results of the slots before it,
  and only when every slot delivered one. Once all slots are done their stamps are the last epoch
  of the dispatch, an exception is rethrown if there was one, and otherwise the call returns the
  fold of all chunks and, unless it was stopped, every slot ran pass 2. With a token that was
  stopped before the call no slot runs pass 2, and yet the call returns the fold of all chunks, not
  the identity: the README promises the identity there, which only the inline path of
  \<open>parallelScan\<close> returns.
\<close>

theorem scan_correct:
  assumes "\<not> sg_hier c" and "0 < sg_participants c" and "\<forall>i < sg_participants c. stale i \<le> sg_epochBase c"
    and "run (scan_step c) (scan_init c def stale stopped) acts = Some t"
  shows "(\<forall>i < sg_participants c. \<forall>v. sc_seed t i = Some v \<longrightarrow> all_parts c t \<and> v = pre c t i) \<and>
    (stopped \<longrightarrow> (\<forall>i. sc_seed t i = None)) \<and>
    (retired c t \<longrightarrow> (\<forall>i < sg_participants c. sc_done t i = sg_epochBase c + 2) \<and>
       (case sc_exc t of Some k \<Rightarrow> scan_result t = Inl k
        | None \<Rightarrow> all_parts c t \<and> scan_result t = Inr (pre c t (sg_participants c)) \<and>
            (sc_stop t \<or> (\<forall>i < sg_participants c. sc_seed t i \<noteq> None))))"
proof -
  have "sc_seed t i = None" if "stopped" for i
    using stopped_run_seeds [OF assms(4)] that by (simp add: scan_init_def)
  then show ?thesis
    using flat_inv_seeds [OF flat_run_inv [OF assms]] flat_inv_retired [OF flat_run_inv [OF assms]]
    by (auto simp: scan_result_def split: option.splits)
qed

text \<open>Two slots with chunk sums 4 and 5; slot 0's last stamps are of an earlier dispatch.\<close>

definition two_slots :: "nat scan_cfg" where
  "two_slots = \<lparr> sg_participants = 2, sg_identity = 0, sg_prefix = (+), sg_epochBase = 6, sg_hier = False,
     sg_clusterOf = [], sg_first = [], sg_count = [], sg_numClusters = 0 \<rparr>"

definition two_slots_run :: "nat scan_act list" where
  "two_slots_run = [Ret 1 5, Ret 0 4, Go 0, Go 1, Go 0, Go 0, Go 0, Go 0, Go 0, Go 0, Go 0,
     Go 1, Go 1, Go 0, Ret 0 0, Ret 1 0, Go 1, Go 0]"

lemma two_slots_result:
  "case run (scan_step two_slots) (scan_init two_slots 0 (\<lambda>_. 5) False) two_slots_run of None \<Rightarrow> False
   | Some t \<Rightarrow> sc_pc t 0 = Retired \<and> sc_pc t 1 = Retired \<and> sc_exc t = None \<and> sc_seed t 1 = Some 4"
  by (simp add: two_slots_run_def two_slots_def scan_init_def scan_step_def ret_step_def scan_slot_step_def
      fail_step_def flat_step_def after_stamp1_def scan_upd)

theorem scan_correct_witness:
  "\<exists>t. run (scan_step two_slots) (scan_init two_slots 0 (\<lambda>_. 5) False) two_slots_run = Some t \<and>
    4 = pre two_slots t 1 \<and> scan_result t = Inr (pre two_slots t 2)"
proof -
  obtain t where t: "run (scan_step two_slots) (scan_init two_slots 0 (\<lambda>_. 5) False) two_slots_run = Some t"
    "sc_pc t 0 = Retired" "sc_pc t 1 = Retired" "sc_exc t = None" "sc_seed t 1 = Some 4"
    using two_slots_result by (auto split: option.splits)
  have "retired two_slots t" using t(2,3) by (simp add: retired_def two_slots_def less_2_cases_iff)
  with scan_correct [OF _ _ _ t(1)] t(1,4,5) show ?thesis
    by (simp add: two_slots_def)
qed

text \<open>
  C29. The scan always returns: every schedule is bounded by \<open>P * (2 * P + 9) + 1\<close> steps for \<open>P\<close>
  slots, and every partial run, with bodies or combiners that threw and stop requests, extends to
  one in which all slots are done.
\<close>

theorem scan_terminates:
  assumes "\<not> sg_hier c" and "0 < sg_participants c" and "\<forall>i < sg_participants c. stale i \<le> sg_epochBase c"
    and "run (scan_step c) (scan_init c def stale stopped) acts = Some t"
  shows "length acts \<le> sg_participants c * (2 * sg_participants c + 9) + 1 \<and>
    (\<exists>bs u. run (scan_step c) (scan_init c def stale stopped) (acts @ bs) = Some u \<and> retired c u)"
proof -
  have s: "scan_start c (scan_init c def stale stopped)" using assms(1-3) by (auto simp: scan_start_def)
  from scan.run_bounded [OF s assms(4)] scan_start_fuel [OF s] scan.run_completes [OF s assms(4)]
  show ?thesis by simp
qed

theorem scan_terminates_witness:
  "\<exists>bs u. run (scan_step two_slots) (scan_init two_slots 0 (\<lambda>_. 5) False) ([Throw 0, Go 0] @ bs) = Some u \<and>
    retired two_slots u"
proof -
  have "run (scan_step two_slots) (scan_init two_slots 0 (\<lambda>_. 5) False) [Throw 0, Go 0] \<noteq> None"
    by (simp add: two_slots_def scan_init_def scan_step_def throw_step_def scan_slot_step_def fail_step_def scan_upd)
  then obtain t where "run (scan_step two_slots) (scan_init two_slots 0 (\<lambda>_. 5) False) [Throw 0, Go 0] = Some t"
    by blast
  from scan_terminates [OF _ _ _ this] show ?thesis by (simp add: two_slots_def)
qed

end
