(* ===== verification/ScanChunks.thy ===== *)
theory ScanChunks
  imports ScanFlat
begin

text \<open>
  The scan end to end: the slots' chunks tile \<open>[0, n)\<close> in slot order when the producer's CCD owns
  the first slots, so that the scan of an associative combiner gives every chunk the prefix of the
  elements before it; what happens when it does not; and the per-cluster path when a leader throws.
\<close>

section \<open>The chunks in slot order\<close>

definition producer_first :: "scan_shape \<Rightarrow> bool" where
  "producer_first sh \<longleftrightarrow> (case ss_ccdOfSlot sh of None \<Rightarrow> True
     | Some ccds \<Rightarrow> 0 < ss_slotsOnProducerCcd sh \<and> ss_slotsOnProducerCcd sh < ss_participants sh \<and>
         ss_asymmetricNum sh \<le> 16 \<and>
         (\<forall>s < ss_participants sh. (ccds ! s = ss_producerCcd sh) = (s < ss_slotsOnProducerCcd sh)))"

definition chunk_bound :: "scan_shape \<Rightarrow> nat \<Rightarrow> nat" where
  "chunk_bound sh i = (case ss_ccdOfSlot sh of
     None \<Rightarrow> ss_n sh * i div ss_participants sh
   | Some _ \<Rightarrow> let pv = ss_n sh * ss_asymmetricNum sh div 16; k = ss_slotsOnProducerCcd sh
       in if i \<le> k then pv * i div k else pv + (ss_n sh - pv) * (i - k) div (ss_participants sh - k))"

lemma scan_slotRange_bounds:
  assumes "producer_first sh" "ss_n sh < 2 ^ 64" "ss_participants sh < 2 ^ 32" "i < ss_participants sh"
  shows "scan_slotRange sh i = (chunk_bound sh i, chunk_bound sh (Suc i))"
proof (cases "ss_ccdOfSlot sh")
  case None
  have p: "ss_participants sh < 2 ^ 64" using assms(3) by simp
  show ?thesis using None p assms(2,4) by (simp add: scan_slotRange_def chunk_bound_def mulDiv64_eq)
next
  case (Some ccds)
  let ?k = "ss_slotsOnProducerCcd sh" and ?P = "ss_participants sh"
  let ?pv = "ss_n sh * ss_asymmetricNum sh div 16"
  have f: "0 < ?k" "?k < ?P" "ss_asymmetricNum sh \<le> 16"
    "\<And>s. s < ?P \<Longrightarrow> (ccds ! s = ss_producerCcd sh) = (s < ?k)"
    using assms(1) Some by (simp_all add: producer_first_def)
  have pv: "mulDiv64 (ss_n sh) (ss_asymmetricNum sh) 16 = ?pv" "?pv \<le> ss_n sh"
    using assms(2) f(3) by (simp_all add: mulDiv64_eq) (metis div_le_mono mult.commute mult_le_mono1
      nonzero_mult_div_cancel_left zero_neq_numeral)
  have p64: "?P < 2 ^ 64" using assms(3) by simp
  show ?thesis
  proof (cases "i < ?k")
    case True
    have "filter (\<lambda>s. (ccds ! s = ss_producerCcd sh) = True) [0..<i] = [0..<i]"
      using True f(2,4) by (intro filter_True) auto
    then show ?thesis using True Some f pv assms(2,4) p64
      by (simp add: scan_slotRange_def chunk_bound_def Let_def mulDiv64_eq)
  next
    case False
    have "filter (\<lambda>s. ccds ! s \<noteq> ss_producerCcd sh) [0..<i] = filter (\<lambda>s. ?k \<le> s) [0..<i]"
      using f(4) assms(4) by (intro filter_cong) auto
    also have "\<dots> = [?k..<i]"
    proof -
      have "[0..<i] = [0..<?k] @ [?k..<i]" using False by (metis le_add_diff_inverse not_less upt_add_eq_append zero_le)
      then show ?thesis by (simp add: filter_empty_conv)
    qed
    finally have idx: "length (filter (\<lambda>s. ccds ! s \<noteq> ss_producerCcd sh) [0..<i]) = i - ?k" by simp
    have le: "(ss_n sh - ?pv) * m div (?P - ?k) \<le> ss_n sh - ?pv" if "m \<le> ?P - ?k" for m
      using that f(2) by (metis div_le_mono div_mult_self_is_m mult_le_mono2 zero_less_diff)
    have md: "mulDiv64 (ss_n sh - ?pv) m (?P - ?k) = (ss_n sh - ?pv) * m div (?P - ?k)"
      if "m \<le> ?P - ?k" for m using that assms(2) p64 f(2) by (intro mulDiv64_eq) auto
    have w: "w64 (?pv + (ss_n sh - ?pv) * m div (?P - ?k)) = ?pv + (ss_n sh - ?pv) * m div (?P - ?k)"
      if "m \<le> ?P - ?k" for m using le [OF that] pv(2) assms(2) by (intro w64_id) linarith
    have m: "i - ?k \<le> ?P - ?k" "Suc (i - ?k) \<le> ?P - ?k" "Suc i - ?k = Suc (i - ?k)"
      using False assms(4) by auto
    have nb: "chunk_bound sh i = ?pv + (ss_n sh - ?pv) * (i - ?k) div (?P - ?k)"
      "chunk_bound sh (Suc i) = ?pv + (ss_n sh - ?pv) * Suc (i - ?k) div (?P - ?k)"
      using False f(1) Some m(3) by (auto simp: chunk_bound_def Let_def)
    have c: "(ccds ! i = ss_producerCcd sh) = False" using f(4) [OF assms(4)] False by simp
    have "scan_slotRange sh i = (w64 (?pv + (ss_n sh - ?pv) * (i - ?k) div (?P - ?k)),
        w64 (?pv + (ss_n sh - ?pv) * Suc (i - ?k) div (?P - ?k)))"
      using f(2) by (simp add: scan_slotRange_def Some Let_def pv(1) c idx md m)
    then show ?thesis by (simp only: w m nb)
  qed
qed

lemma chunk_bound_mono:
  assumes "producer_first sh" "i < ss_participants sh"
  shows "chunk_bound sh i \<le> chunk_bound sh (Suc i)"
proof (cases "ss_ccdOfSlot sh")
  case None
  then show ?thesis by (simp add: chunk_bound_def div_le_mono)
next
  case (Some ccds)
  let ?k = "ss_slotsOnProducerCcd sh" and ?pv = "ss_n sh * ss_asymmetricNum sh div 16"
  consider "Suc i \<le> ?k" | "i = ?k" | "?k < i" by linarith
  then show ?thesis
  proof cases
    case 3
    then have "i - ?k \<le> Suc i - ?k" by simp
    with 3 show ?thesis using Some
      by (simp add: chunk_bound_def Let_def div_le_mono)
  qed (use Some assms in \<open>auto simp: chunk_bound_def Let_def div_le_mono producer_first_def\<close>)
qed

lemma chunk_bound_ends:
  assumes "producer_first sh" "0 < ss_participants sh"
  shows "chunk_bound sh 0 = 0" "chunk_bound sh (ss_participants sh) = ss_n sh"
proof -
  show "chunk_bound sh 0 = 0" by (simp add: chunk_bound_def Let_def split: option.splits)
  have "ss_n sh * ss_asymmetricNum sh div 16 \<le> ss_n sh" if "ss_asymmetricNum sh \<le> 16"
    using that by (metis div_le_mono mult.commute mult_le_mono1 nonzero_mult_div_cancel_left zero_neq_numeral)
  then show "chunk_bound sh (ss_participants sh) = ss_n sh"
    using assms by (auto simp: chunk_bound_def Let_def producer_first_def split: option.splits)
qed

section \<open>The prefix sums\<close>

text \<open>An associative combiner with its identity.\<close>

definition monoid :: "('a \<Rightarrow> 'a \<Rightarrow> 'a) \<Rightarrow> 'a \<Rightarrow> bool" where
  "monoid f e \<longleftrightarrow> (\<forall>x y z. f (f x y) z = f x (f y z)) \<and> (\<forall>x. f e x = x) \<and> (\<forall>x. f x e = x)"

lemma foldl_append_monoid:
  assumes "monoid f e"
  shows "foldl f e (xs @ ys) = f (foldl f e xs) (foldl f e ys)"
proof -
  have "foldl f (f a b) ys = f a (foldl f b ys)" for a b
    using assms by (induction ys arbitrary: b) (simp_all add: monoid_def)
  from this [of "foldl f e xs" e] show ?thesis using assms by (simp add: monoid_def)
qed

lemma foldl_chunks:
  assumes m: "monoid f e" and "b 0 = 0" "\<And>i. i < P \<Longrightarrow> b i \<le> b (Suc i)"
    and "\<And>i. i < P \<Longrightarrow> the (part i) = foldl f e (map x [b i..<b (Suc i)])"
  shows "k \<le> P \<Longrightarrow> foldl f e (map (\<lambda>i. the (part i)) [0..<k]) = foldl f e (map x [0..<b k])"
proof (induction k)
  case 0
  then show ?case by (simp add: assms(2))
next
  case (Suc k)
  have "[0..<b (Suc k)] = [0..<b k] @ [b k..<b (Suc k)]"
    using assms(3) [of k] Suc.prems by (metis Suc_le_lessD le_add_diff_inverse upt_add_eq_append zero_le)
  then show ?case using Suc assms(4) [of k] 
      m [unfolded monoid_def]
    by (simp add: foldl_append_monoid [OF m] del: foldl_append)
qed

text \<open>
  C30. A scan on the sequential-reduce path whose combiner is associative with the given identity, over
  chunks of \<open>scan_slotRange\<close> that stand in slot order, that is, that are uniform or of a pool whose
  producer CCD owns the first slots (\<open>producer_first\<close>; C31 shows the other case), with bodies that
  return the fold of their chunk in pass 1: every slot that runs pass 2 is seeded with the fold of all
  elements before its chunk, and a call that ends without exception returns the fold of all \<open>n\<close>
  elements, also when a stop was requested before or during it, though it then runs no or not all of
  pass 2 (C28).
\<close>

theorem scan_prefix_sums:
  assumes "monoid (sg_prefix c) (sg_identity c)" and "\<not> sg_hier c"
    and "producer_first sh" and "ss_participants sh = sg_participants c"
    and "0 < sg_participants c" and "sg_participants c < 2 ^ 32" and "ss_n sh < 2 ^ 64"
    and "\<forall>i < sg_participants c. stale i \<le> sg_epochBase c"
    and "run (scan_step c) (scan_init c def stale stopped) acts = Some t"
    and "\<forall>i < sg_participants c. \<forall>v. sc_part t i = Some v \<longrightarrow> v = foldl (sg_prefix c) (sg_identity c)
      (map x [fst (scan_slotRange sh i)..<snd (scan_slotRange sh i)])"
  shows "(\<forall>i < sg_participants c. \<forall>v. sc_seed t i = Some v \<longrightarrow>
      v = foldl (sg_prefix c) (sg_identity c) (map x [0..<fst (scan_slotRange sh i)])) \<and>
    (retired c t \<and> sc_exc t = None \<longrightarrow>
      scan_result t = Inr (foldl (sg_prefix c) (sg_identity c) (map x [0..<ss_n sh])))"
proof -
  let ?f = "sg_prefix c" and ?e = "sg_identity c" and ?P = "sg_participants c"
  note inv = flat_run_inv [OF assms(2,5,8,9)]
  have range: "scan_slotRange sh i = (chunk_bound sh i, chunk_bound sh (Suc i))" if "i < ?P" for i
    using scan_slotRange_bounds [OF assms(3,7)] assms(4,6) that by simp
  have pre: "pre c t k = foldl ?f ?e (map x [0..<chunk_bound sh k])" if "all_parts c t" "k \<le> ?P" for k
    unfolding pre_def
  proof (rule foldl_chunks [OF assms(1), where P = ?P])
    show "chunk_bound sh 0 = 0" using chunk_bound_ends(1) assms(3-5) by simp
    show "chunk_bound sh i \<le> chunk_bound sh (Suc i)" if "i < ?P" for i
      using chunk_bound_mono assms(3,4) that by simp
    show "the (sc_part t i) = foldl ?f ?e (map x [chunk_bound sh i..<chunk_bound sh (Suc i)])"
      if "i < ?P" for i
      using assms(10) range [OF that] \<open>all_parts c t\<close> that by (auto simp: all_parts_def)
  qed (fact that(2))
  have "v = foldl ?f ?e (map x [0..<fst (scan_slotRange sh i)])"
    if "i < ?P" "sc_seed t i = Some v" for i v
    using flat_inv_seeds [OF inv that] pre [of i] range [OF that(1)] that(1) by simp
  moreover have "scan_result t = Inr (foldl ?f ?e (map x [0..<ss_n sh]))"
    if "retired c t" "sc_exc t = None"
    using flat_inv_retired(2) [OF inv that] pre [of ?P] chunk_bound_ends(2) [OF assms(3)] assms(4,5)
    by simp
  ultimately show ?thesis by blast
qed

definition two_chunks :: scan_shape where
  "two_chunks = \<lparr> ss_participants = 2, ss_n = 9, ss_ccdOfSlot = None, ss_producerCcd = 0,
     ss_asymmetricNum = 8, ss_slotsOnProducerCcd = 0 \<rparr>"

lemma two_slots_parts:
  "case run (scan_step two_slots) (scan_init two_slots 0 (\<lambda>_. 5) False) two_slots_run of None \<Rightarrow> False
   | Some t \<Rightarrow> sc_part t 0 = Some 4 \<and> sc_part t 1 = Some 5"
  by (simp add: two_slots_run_def two_slots_def scan_init_def scan_step_def ret_step_def scan_slot_step_def
      fail_step_def flat_step_def after_stamp1_def scan_upd)

theorem scan_prefix_sums_witness:
  "\<exists>t. run (scan_step two_slots) (scan_init two_slots 0 (\<lambda>_. 5) False) two_slots_run = Some t \<and>
    scan_result t = Inr (foldl (+) 0 (map (\<lambda>_. 1) [0..<9]))"
proof -
  obtain t where t: "run (scan_step two_slots) (scan_init two_slots 0 (\<lambda>_. 5) False) two_slots_run = Some t"
    "sc_pc t 0 = Retired" "sc_pc t 1 = Retired" "sc_exc t = None" "sc_part t 0 = Some 4" "sc_part t 1 = Some 5"
    using two_slots_result two_slots_parts by (auto split: option.splits)
  have "retired two_slots t" using t(2,3) by (simp add: retired_def two_slots_def less_2_cases_iff)
  moreover have r: "scan_slotRange two_chunks 0 = (0, 4)" "scan_slotRange two_chunks 1 = (4, 9)"
    by (simp_all add: scan_slotRange_def two_chunks_def mulDiv64_def w64_def)
  moreover have "\<forall>i < sg_participants two_slots. \<forall>v. sc_part t i = Some v \<longrightarrow>
      v = foldl (sg_prefix two_slots) (sg_identity two_slots)
        (map (\<lambda>_. 1) [fst (scan_slotRange two_chunks i)..<snd (scan_slotRange two_chunks i)])"
    using t(5,6) r by (auto simp: two_slots_def less_2_cases_iff upt_rec)
  ultimately show ?thesis
    using scan_prefix_sums [OF _ _ _ _ _ _ _ _ t(1), of two_chunks "\<lambda>_. 1"] t(1,4)
    by (simp add: two_slots_def two_chunks_def monoid_def producer_first_def)
qed

section \<open>Slots of the producer's CCD that come last\<close>

text \<open>
  Two cores on two CCDs, two hardware threads each; a pool of three participants with
  \<open>Affinity::PerCpuSmtPair\<close>. The placement appends the producer's SMT sibling after the core of the
  other CCD, so slots 0 and 2 are on the producer's CCD and slot 1 is not.
\<close>

definition smt_host :: Topology where
  "smt_host = \<lparr> tp_physicalCores = [0, 2], tp_ccdGroups = [[0], [2]], tp_ccdOfCpu = [0, 0, 1, 0],
     tp_l3KibOfCcd = [98304, 32768], tp_l2KibPerCore = 1024, tp_preferredCcd = 0,
     tp_logicalCount = 4, tp_physicalCount = 2, tp_ccdCount = 2, tp_smtSiblingOfCpu = [1, 0, 3, 2] \<rparr>"

definition smt_pins :: "nat list" where
  "smt_pins = participant_pins PerCpuSmtPair (tp_physicalCores smt_host) 3 True smt_host"

definition no_probe :: "nat CoherenceProbe" where
  "no_probe = \<lparr> cp_valid = False, cp_matrix = \<lparr> lm_cpus = [], lm_matrix = [], lm_valid = False \<rparr>,
     cp_clusters = \<lparr> cr_clusterIdOfCpuIndex = [], cr_numClusters = 0, cr_clusterDistanceNs = [] \<rparr>,
     cp_maxCrossOverIntraRatio = 1 \<rparr>"

text \<open>The default bias of the code is the literal 2; on these values naturals are exact.\<close>

definition nat_bias :: "nat bias_ops" where
  "nat_bias = \<lparr> bo_two = 2, bo_gt_one = (\<lambda>x. x > 1), bo_llround_mul = (*) \<rparr>"

definition smt_shape :: "nat \<Rightarrow> scan_shape" where
  "smt_shape n = (let ccds = ccdOfSlot smt_pins smt_host 3
     in scan_shape_of (initScanScratch nat_bias no_probe ccds smt_pins 3) ccds 3 n)"

definition three_slots :: "nat scan_cfg" where
  "three_slots = two_slots\<lparr> sg_participants := 3 \<rparr>"

text \<open>Each body returns the size of its chunk in pass 1: the scan of a sequence of ones.\<close>

definition ones_run :: "scan_shape \<Rightarrow> nat scan_act list" where
  "ones_run sh = map (\<lambda>i. Ret i (snd (scan_slotRange sh i) - fst (scan_slotRange sh i))) [0, 1, 2]
     @ map Go [0, 1, 2, 0, 0, 0, 0, 0, 0, 0, 0, 0, 0, 1, 1, 2, 2]
     @ [Ret 0 0, Ret 1 0, Ret 2 0, Go 0, Go 1, Go 2]"

lemma smt_pins_eq: "smt_pins = [0, 2, 1, 3]"
  by (simp add: smt_pins_def participant_pins_def reserveProducerCpuFirst_def Let_def smt_host_def
      ccd_first_def on_ccd_def append_sibling_def upt_rec UINT32_MAX_def)

lemma upt_3: "[0..<3] = [0, 1, 2::nat]"
  by (simp add: upt_rec)

lemma smt_shape_eq: "smt_shape 48 = \<lparr> ss_participants = 3, ss_n = 48, ss_ccdOfSlot = Some [0, 1, 0],
    ss_producerCcd = 0, ss_asymmetricNum = 12, ss_slotsOnProducerCcd = 2 \<rparr>"
proof -
  have c: "ccdOfSlot smt_pins smt_host 3 = [0, 1, 0]"
    by (simp add: smt_pins_eq ccdOfSlot_def ccdId_def cpuId_def smt_host_def UINT32_MAX_def upt_3)
  have "filter (\<lambda>s. s < 3 \<and> [0, 1, 0::nat] ! s = 0) [0, 1, 2] = [0, 2]" by simp
  moreover have "asymmetric_num nat_bias no_probe 3 (Suc (Suc 0)) = 12"
    by (simp add: asymmetric_num_def Let_def no_probe_def nat_bias_def w64_def w32_def)
  moreover have "\<not> cp_valid no_probe" by (simp add: no_probe_def)
  ultimately show ?thesis
    by (simp add: smt_shape_def c initScanScratch_def Let_def scan_shape_of_def upt_3)
qed

lemma smt_ranges: "map (scan_slotRange (smt_shape 48)) [0, 1, 2] = [(0, 18), (36, 48), (18, 36)]"
proof -
  have "[0..<2] = [0, 1::nat]" by (simp add: upt_rec)
  then show ?thesis by (simp add: smt_shape_eq scan_slotRange_def Let_def mulDiv64_def w64_def)
qed

text \<open>
  C31. With SMT siblings appended after the cores of the other CCD the slots' chunks are not in
  slot order, but the sequential reduce is: on this host the sum scan of 48 ones ends without
  exception, cancellation or stop request, and yet slot 1, whose chunk starts at element 36, is
  seeded with 18.
\<close>

theorem scan_smt_overflow_wrong:
  "fst (scan_slotRange (smt_shape 48) 1) = 36 \<and>
    (\<exists>t. run (scan_step three_slots) (scan_init three_slots 0 (\<lambda>_. 0) False) (ones_run (smt_shape 48)) = Some t \<and>
      retired three_slots t \<and> scan_result t = Inr 48 \<and> \<not> sc_cancelled t \<and> sc_seed t 1 = Some 18)"
proof -
  have "case run (scan_step three_slots) (scan_init three_slots 0 (\<lambda>_. 0) False) (ones_run (smt_shape 48)) of
      None \<Rightarrow> False
    | Some t \<Rightarrow> sc_pc t 0 = Retired \<and> sc_pc t 1 = Retired \<and> sc_pc t 2 = Retired \<and>
        scan_result t = Inr 48 \<and> \<not> sc_cancelled t \<and> sc_seed t 1 = Some 18"
    using smt_ranges
    by (simp add: ones_run_def three_slots_def two_slots_def scan_init_def scan_step_def ret_step_def
        scan_slot_step_def fail_step_def flat_step_def after_stamp1_def scan_upd scan_result_def)
  then obtain t where "run (scan_step three_slots) (scan_init three_slots 0 (\<lambda>_. 0) False) (ones_run (smt_shape 48)) = Some t"
      "sc_pc t 0 = Retired" "sc_pc t 1 = Retired" "sc_pc t 2 = Retired" "scan_result t = Inr 48"
      "\<not> sc_cancelled t" "sc_seed t 1 = Some 18"
    by (auto split: option.splits)
  moreover have "i = 0 \<or> i = 1 \<or> i = 2" if "i < 3" for i :: nat using that by auto
  ultimately show ?thesis using smt_ranges
    by (auto simp: retired_def three_slots_def two_slots_def)
qed

section \<open>A leader that throws\<close>

definition two_clusters :: "nat scan_cfg" where
  "two_clusters = \<lparr> sg_participants = 4, sg_identity = 0, sg_prefix = (+), sg_epochBase = 0, sg_hier = True,
     sg_clusterOf = [0, 0, 1, 1], sg_first = [0, 2], sg_count = [2, 2], sg_numClusters = 2 \<rparr>"

text \<open>Slot 2 leads the second cluster; its pass 1 throws and it is done.\<close>

definition leader_throws :: "nat scan_act list" where
  "leader_throws = [Throw 2, Go 2, Ret 0 1, Ret 1 1, Ret 3 1, Go 1, Go 3, Go 0, Go 0, Go 0, Go 0,
     Go 0, Go 0, Go 0, Go 0, Go 0]"

definition stuck_at :: "nat scan \<Rightarrow> bool" where
  "stuck_at t \<longleftrightarrow> sc_pc t 0 = WaitClusters 1 \<and> sc_clusterStamp t 1 = 0 \<and> sc_pc t 1 = WaitMember \<and>
     sc_clusterStamp t 0 = 1 \<and> sc_pc t 2 = Retired \<and> sc_pc t 3 = WaitMember \<and> sc_exc t = Some 2"

lemma stuck_step:
  assumes "stuck_at t" "scan_step two_clusters t a = Some u"
  shows "stuck_at u"
proof -
  have four: "i = 0 \<or> i = 1 \<or> i = 2 \<or> i = 3" if "i < 4" for i :: nat using that by auto
  show ?thesis
  proof (cases a)
    case (Go i)
    then have "i < 4" using assms(2) by (simp add: scan_step_def two_clusters_def split: if_splits)
    from four [OF this] show ?thesis using assms Go
      by (auto simp: scan_step_def two_clusters_def stuck_at_def scan_slot_step_def fail_step_def hier_step_def)
  next
    case (Ret i v)
    then have "i < 4" using assms(2) by (simp add: scan_step_def two_clusters_def split: if_splits)
    from four [OF this] show ?thesis using assms Ret
      by (auto simp: scan_step_def two_clusters_def stuck_at_def ret_step_def)
  next
    case (Throw i)
    then have "i < 4" using assms(2) by (simp add: scan_step_def two_clusters_def split: if_splits)
    from four [OF this] show ?thesis using assms Throw
      by (auto simp: scan_step_def two_clusters_def stuck_at_def throw_step_def)
  next
    case RequestStop
    then show ?thesis using assms by (auto simp: scan_step_def stuck_at_def split: if_splits)
  qed
qed

lemma stuck_run: "stuck_at t \<Longrightarrow> run (scan_step two_clusters) t as = Some u \<Longrightarrow> stuck_at u"
  by (induction as arbitrary: t) (auto split: option.splits intro: stuck_step)

text \<open>
  C32. On the per-cluster path an exception does not reach the caller: when the body of a cluster's
  leader other than the producer throws in pass 1, the leader is done without publishing its
  cluster's total, and no continuation of the run, with or without a stop request, ends the scan.
\<close>

theorem scan_leader_deadlock:
  "\<exists>t. run (scan_step two_clusters) (scan_init two_clusters 0 (\<lambda>_. 0) False) leader_throws = Some t \<and>
    sc_exc t = Some 2 \<and>
    \<not> (\<exists>as u. run (scan_step two_clusters) t as = Some u \<and> retired two_clusters u)"
proof -
  have "case run (scan_step two_clusters) (scan_init two_clusters 0 (\<lambda>_. 0) False) leader_throws of
      None \<Rightarrow> False | Some t \<Rightarrow> stuck_at t"
    by (simp add: leader_throws_def two_clusters_def scan_init_def scan_step_def ret_step_def throw_step_def
        scan_slot_step_def fail_step_def hier_step_def after_stamp1_def scan_upd cluster_end_def stuck_at_def)
  then obtain t where t: "run (scan_step two_clusters) (scan_init two_clusters 0 (\<lambda>_. 0) False) leader_throws = Some t"
      "stuck_at t" by (auto split: option.splits)
  have "\<not> retired two_clusters u" if "run (scan_step two_clusters) t as = Some u" for as u
  proof -
    have "sc_pc u 1 \<noteq> Retired" using stuck_run [OF t(2) that] by (simp add: stuck_at_def)
    then show ?thesis unfolding retired_def two_clusters_def by fastforce
  qed
  with t show ?thesis by (auto simp: stuck_at_def)
qed

end
