(* ===== verification/Lookback.thy ===== *)
theory Lookback
  imports ScanChunks
begin

text \<open>
  The one-pass inclusive scan by decoupled lookback (\<open>runInclusiveScanLookback\<close> of
  \<open>thread_pool.h\<close>, \<open>LookbackTile\<close> and \<open>lookbackWalk\<close> of \<open>lookback_scan.h\<close>): the slots claim
  tiles of the input, publish each tile's total, walk back over the tiles before it for its prefix,
  publish that and adjust the tile's outputs.

  A step is one atomic operation of one slot with the accesses to the data it publishes or reads,
  or one call of the combiner with the array accesses around it. A call of the combiner returns
  (\<open>Go\<close>) or throws (\<open>Throw\<close>); the handler stores the exception in the same step, the combiner's
  value is the pure function \<open>lc_op\<close>. A tile's payload is read with its flag: both are written
  before the flag is raised, and later only on a call that will rethrow.
\<close>

section \<open>Tiles and their ranges\<close>

datatype tile_flag = Initialized | AggregateAvailable | PrefixAvailable

text \<open>The contiguous tile range of each cluster.\<close>

fun cluster_tiles :: "nat \<Rightarrow> nat \<Rightarrow> nat list \<Rightarrow> nat \<Rightarrow> (nat \<times> nat) list" where
  "cluster_tiles numTiles participants [] cursor = []"
| "cluster_tiles numTiles participants (kSlots # rest) cursor =
     (let kTiles = w64 (w64 (w64 (numTiles * kSlots) + participants) + SIZE_MAX) div participants;
          taken = (if rest = [] \<or> w64 (cursor + kTiles) > numTiles then numTiles - cursor else kTiles)
      in (cursor, cursor + taken) # cluster_tiles numTiles participants rest (cursor + taken))"

text \<open>The set-up of a call: the sizes, the clusters' ranges and the array behind the output span.\<close>

record 'a lookback_cfg =
  lc_op :: "'a \<Rightarrow> 'a \<Rightarrow> 'a"
  lc_identity :: 'a
  lc_in :: "'a list"
  lc_alias :: bool             \<comment> \<open>the output is the input array\<close>
  lc_participants :: nat
  lc_tileElems :: nat
  lc_numTiles :: nat
  lc_ranges :: "(nat \<times> nat) list"
  lc_clusterOf :: "nat \<Rightarrow> nat"

definition tile_count :: "nat \<Rightarrow> nat \<Rightarrow> nat" where
  "tile_count n tileElems = w64 (n + tileElems + SIZE_MAX) div tileElems"

definition lookback_setup :: "('a \<Rightarrow> 'a \<Rightarrow> 'a) \<Rightarrow> 'a \<Rightarrow> 'a list \<Rightarrow> bool \<Rightarrow> nat \<Rightarrow> nat \<Rightarrow> bool \<Rightarrow>
    nat list \<Rightarrow> nat list \<Rightarrow> 'a lookback_cfg" where
  "lookback_setup prefix identity xs alias participants tileElems multiCluster ids counts =
     (let numTiles = tile_count (length xs) tileElems
      in \<lparr> lc_op = prefix, lc_identity = identity, lc_in = xs, lc_alias = alias,
           lc_participants = participants, lc_tileElems = tileElems, lc_numTiles = numTiles,
           lc_ranges = (if multiCluster then cluster_tiles numTiles participants counts 0 else [(0, numTiles)]),
           lc_clusterOf = (\<lambda>slot. if multiCluster then ids ! slot else 0) \<rparr>)"

text \<open>The set-up from the pool's slot tables.\<close>

definition lookback_of :: "scan_scratch \<Rightarrow> ('a \<Rightarrow> 'a \<Rightarrow> 'a) \<Rightarrow> 'a \<Rightarrow> 'a list \<Rightarrow> bool \<Rightarrow> nat \<Rightarrow> nat \<Rightarrow>
    'a lookback_cfg" where
  "lookback_of sx prefix identity xs alias participants tileElems =
     lookback_setup prefix identity xs alias participants tileElems
       (sx_useHierarchical sx \<and> sx_numClusters sx \<ge> 2) (sx_clusterIdOfSlot sx) (sx_clusterSlotCount sx)"

definition tile_lo :: "'a lookback_cfg \<Rightarrow> nat \<Rightarrow> nat" where
  "tile_lo c t = t * lc_tileElems c"

definition tile_hi :: "'a lookback_cfg \<Rightarrow> nat \<Rightarrow> nat" where
  "tile_hi c t = (let lo = t * lc_tileElems c in
     if lo + lc_tileElems c > length (lc_in c) then length (lc_in c) else lo + lc_tileElems c)"

section \<open>State\<close>

datatype 'a tile_pc =
    Claim
  | CheckExc nat               \<comment> \<open>tile claimed; did a peer throw?\<close>
  | Skip nat
  | Pass1 nat nat 'a           \<comment> \<open>tile, next element, running total\<close>
  | PubAgg nat 'a
  | Walk nat nat 'a            \<comment> \<open>\<open>lookbackWalk\<close>: tile, cursor, accum\<close>
  | PubPrefix nat 'a
  | Pass2 nat nat 'a           \<comment> \<open>tile, next element, the tile's prefix\<close>
  | FailTile nat
  | Finished

record 'a lookback =
  lb_pc :: "nat \<Rightarrow> 'a tile_pc"
  lb_next :: "nat \<Rightarrow> nat"
  lb_flag :: "nat \<Rightarrow> tile_flag"
  lb_aggregate :: "nat \<Rightarrow> 'a"
  lb_prefix :: "nat \<Rightarrow> 'a"
  lb_out :: "'a list"
  lb_exc :: "nat option"

datatype lookback_act = Go nat | Throw nat

section \<open>The steps\<close>

definition set_tile_pc :: "nat \<Rightarrow> 'a tile_pc \<Rightarrow> 'a lookback \<Rightarrow> 'a lookback" where
  "set_tile_pc i p s = s\<lparr> lb_pc := (lb_pc s)(i := p) \<rparr>"

definition source :: "'a lookback_cfg \<Rightarrow> 'a lookback \<Rightarrow> nat \<Rightarrow> 'a" where
  "source c s i = (if lc_alias c then lb_out s ! i else lc_in c ! i)"

definition publish_prefix :: "nat \<Rightarrow> 'a \<Rightarrow> 'a lookback \<Rightarrow> 'a lookback" where
  "publish_prefix t v s = s\<lparr> lb_prefix := (lb_prefix s)(t := v), lb_flag := (lb_flag s)(t := PrefixAvailable) \<rparr>"

text \<open>
  One turn of the loops of \<open>lookbackWalk\<close>: \<open>None\<close> is the spin on a tile that has published nothing.
  The code takes the tile index as a \<open>uint32_t\<close>; here it keeps its width.
\<close>

definition walk_step :: "'a lookback_cfg \<Rightarrow> nat \<Rightarrow> nat \<Rightarrow> nat \<Rightarrow> 'a \<Rightarrow> 'a lookback \<Rightarrow> 'a lookback option" where
  "walk_step c i t cursor accum s = (case cursor of
     0 \<Rightarrow> Some (set_tile_pc i (PubPrefix t accum) s)
   | Suc p \<Rightarrow> (case lb_flag s p of
       PrefixAvailable \<Rightarrow> Some (set_tile_pc i (PubPrefix t
         (lc_op c (lc_op c (lb_prefix s p) (lb_aggregate s p)) accum)) s)
     | AggregateAvailable \<Rightarrow> Some (set_tile_pc i (Walk t p (lc_op c (lb_aggregate s p) accum)) s)
     | Initialized \<Rightarrow> None))"

definition tile_go :: "'a lookback_cfg \<Rightarrow> nat \<Rightarrow> 'a lookback \<Rightarrow> 'a lookback option" where
  "tile_go c i s = (case lb_pc s i of
     Claim \<Rightarrow> let k = lc_clusterOf c i; t = lb_next s k
       in Some (set_tile_pc i (if t \<ge> snd (lc_ranges c ! k) then Finished else CheckExc t)
                 (s\<lparr> lb_next := (lb_next s)(k := Suc t) \<rparr>))
   | CheckExc t \<Rightarrow> Some (set_tile_pc i (if lb_exc s \<noteq> None then Skip t
                           else Pass1 t (tile_lo c t) (lc_identity c)) s)
   | Skip t \<Rightarrow> Some (set_tile_pc i Claim (publish_prefix t (lc_identity c) s))
   | Pass1 t j acc \<Rightarrow> (if j < tile_hi c t
       then let v = lc_op c acc (source c s j)
            in Some (set_tile_pc i (Pass1 t (Suc j) v) (s\<lparr> lb_out := (lb_out s)[j := v] \<rparr>))
       else Some (set_tile_pc i (PubAgg t acc) s))
   | PubAgg t acc \<Rightarrow> Some (set_tile_pc i (if t = 0 then PubPrefix t (lc_identity c) else Walk t t (lc_identity c))
       (s\<lparr> lb_aggregate := (lb_aggregate s)(t := acc), lb_flag := (lb_flag s)(t := AggregateAvailable) \<rparr>))
   | Walk t cursor accum \<Rightarrow> walk_step c i t cursor accum s
   | PubPrefix t v \<Rightarrow> Some (set_tile_pc i (if t > 0 then Pass2 t (tile_lo c t) v else Claim) (publish_prefix t v s))
   | Pass2 t j v \<Rightarrow> (if j < tile_hi c t
       then Some (set_tile_pc i (Pass2 t (Suc j) v) (s\<lparr> lb_out := (lb_out s)[j := lc_op c v (lb_out s ! j)] \<rparr>))
       else Some (set_tile_pc i Claim s))
   | FailTile t \<Rightarrow> Some (set_tile_pc i Claim (publish_prefix t (lc_identity c) s))
   | Finished \<Rightarrow> None)"

definition tile_throw :: "'a lookback_cfg \<Rightarrow> nat \<Rightarrow> 'a lookback \<Rightarrow> 'a lookback option" where
  "tile_throw c i s =
     (let failed = (\<lambda>t. Some (set_tile_pc i (FailTile t)
            (s\<lparr> lb_exc := (case lb_exc s of None \<Rightarrow> Some i | Some k \<Rightarrow> Some k) \<rparr>)))
      in case lb_pc s i of
        Pass1 t j acc \<Rightarrow> if j < tile_hi c t then failed t else None
      | Walk t (Suc p) accum \<Rightarrow> if lb_flag s p = Initialized then None else failed t
      | Pass2 t j v \<Rightarrow> if j < tile_hi c t then failed t else None
      | _ \<Rightarrow> None)"

definition lookback_step :: "'a lookback_cfg \<Rightarrow> 'a lookback \<Rightarrow> lookback_act \<Rightarrow> 'a lookback option" where
  "lookback_step c s a = (case a of
     Go i \<Rightarrow> if i < lc_participants c then tile_go c i s else None
   | Throw i \<Rightarrow> if i < lc_participants c then tile_throw c i s else None)"

definition lookback_init :: "'a lookback_cfg \<Rightarrow> 'a \<Rightarrow> 'a list \<Rightarrow> 'a lookback" where
  "lookback_init c def out = \<lparr> lb_pc = (\<lambda>_. Claim), lb_next = (\<lambda>k. fst (lc_ranges c ! k)),
     lb_flag = (\<lambda>_. Initialized), lb_aggregate = (\<lambda>_. def), lb_prefix = (\<lambda>_. def),
     lb_out = (if lc_alias c then lc_in c else out), lb_exc = None \<rparr>"

definition all_finished :: "'a lookback_cfg \<Rightarrow> 'a lookback \<Rightarrow> bool" where
  "all_finished c s \<longleftrightarrow> (\<forall>i < lc_participants c. lb_pc s i = Finished)"

text \<open>The end of the call: rethrow, or the identity once stopped, or the inclusive total.\<close>

definition lookback_result :: "'a lookback_cfg \<Rightarrow> bool \<Rightarrow> 'a lookback \<Rightarrow> nat + 'a" where
  "lookback_result c stopped s = (case lb_exc s of Some k \<Rightarrow> Inl k
     | None \<Rightarrow> Inr (if stopped then lc_identity c
         else lc_op c (lb_prefix s (lc_numTiles c - 1)) (lb_aggregate s (lc_numTiles c - 1))))"

section \<open>The entry\<close>

fun serial_scan :: "('a \<Rightarrow> 'a \<Rightarrow> 'a) \<Rightarrow> 'a \<Rightarrow> 'a list \<Rightarrow> 'a list \<times> 'a" where
  "serial_scan prefix running [] = ([], running)"
| "serial_scan prefix running (x # xs) =
     (let running = prefix running x in case serial_scan prefix running xs of (out, r) \<Rightarrow> (running # out, r))"

datatype lookback_route =
    SizeMismatch
  | EmptyInput
  | Serial
  | SerialUnlessStopped
  | Tiles nat

definition kFallbackL2Bytes :: nat where
  "kFallbackL2Bytes = 512 * 1024"

definition kMinTileBytes :: nat where
  "kMinTileBytes = 64 * 1024"

definition tile_elems :: "nat \<Rightarrow> nat \<Rightarrow> nat \<Rightarrow> nat \<Rightarrow> nat" where
  "tile_elems n sizeofT participants l2KibPerCore =
     (let l2Bytes = (if l2KibPerCore = 0 then kFallbackL2Bytes else w64 (l2KibPerCore * 1024));
          nBytes = w64 (n * sizeofT);
          perParticipantBytes = w64 (nBytes + participants + SIZE_MAX) div participants;
          tileBytes = max (min perParticipantBytes l2Bytes) kMinTileBytes
      in tileBytes div sizeofT)"

definition runInclusiveScanLookback :: "nat \<Rightarrow> nat \<Rightarrow> nat \<Rightarrow> nat \<Rightarrow> nat \<Rightarrow> bool \<Rightarrow> lookback_route" where
  "runInclusiveScanLookback nIn nOut sizeofT participants l2KibPerCore fallThrough =
     (if nIn \<noteq> nOut then SizeMismatch
      else if nIn = 0 then EmptyInput
      else let tileElems = tile_elems nIn sizeofT participants l2KibPerCore
           in if tileElems = 0 then Serial
              else if participants \<le> 1 \<or> tile_count nIn tileElems = 1 \<or> fallThrough
              then SerialUnlessStopped else Tiles tileElems)"

lemma serial_scan_foldl:
  "serial_scan f e xs = (map (\<lambda>i. foldl f e (take (Suc i) xs)) [0..<length xs], foldl f e xs)"
proof (induction xs arbitrary: e)
  case (Cons x xs)
  have "[0..<length (x # xs)] = 0 # map Suc [0..<length xs]"
    by (simp add: map_Suc_upt upt_conv_Cons del: upt_Suc)
  then show ?case using Cons by (simp add: Let_def del: upt_Suc)
qed simp

section \<open>The tile ranges\<close>

fun interval_chain :: "(nat \<times> nat) list \<Rightarrow> nat \<Rightarrow> nat \<Rightarrow> bool" where
  "interval_chain [] lo hi = (lo = hi)"
| "interval_chain ((a, b) # rs) lo hi = (a = lo \<and> a \<le> b \<and> interval_chain rs b hi)"

lemma chain_le: "interval_chain rs lo hi \<Longrightarrow> lo \<le> hi"
  by (induction rs lo hi rule: interval_chain.induct) auto

lemma chain_nth:
  "interval_chain rs lo hi \<Longrightarrow> k < length rs \<Longrightarrow> lo \<le> fst (rs ! k) \<and> fst (rs ! k) \<le> snd (rs ! k) \<and> snd (rs ! k) \<le> hi"
proof (induction rs lo hi arbitrary: k rule: interval_chain.induct)
  case (2 a b rs lo hi)
  from 2(2) have *: "a = lo" "a \<le> b" "interval_chain rs b hi" by simp_all
  show ?case
  proof (cases k)
    case 0
    then show ?thesis using * chain_le [OF *(3)] by simp
  next
    case (Suc k')
    then show ?thesis using 2(1) [OF *(3), of k'] 2(3) * by simp
  qed
qed simp

lemma chain_covers: "interval_chain rs lo hi \<Longrightarrow> lo \<le> t \<Longrightarrow> t < hi \<Longrightarrow> \<exists>k<length rs. fst (rs ! k) \<le> t \<and> t < snd (rs ! k)"
proof (induction rs lo hi rule: interval_chain.induct)
  case (2 a b rs lo hi)
  show ?case
  proof (cases "t < b")
    case True
    then show ?thesis using 2 by (intro exI [of _ 0]) simp
  next
    case False
    then obtain k where "k < length rs" "fst (rs ! k) \<le> t" "t < snd (rs ! k)" using 2 by auto
    then show ?thesis by (intro exI [of _ "Suc k"]) simp
  qed
qed simp

lemma chain_order:
  "interval_chain rs lo hi \<Longrightarrow> j < k \<Longrightarrow> k < length rs \<Longrightarrow> snd (rs ! j) \<le> fst (rs ! k)"
proof (induction rs lo hi arbitrary: j k rule: interval_chain.induct)
  case (2 a b rs lo hi)
  from 2(2) have *: "interval_chain rs b hi" by simp
  obtain k' where k: "k = Suc k'" using 2(3) by (cases k) simp_all
  show ?case
  proof (cases j)
    case 0
    then show ?thesis using chain_nth [OF *, of k'] 2(4) k by simp
  next
    case (Suc j')
    then show ?thesis using 2(1) [OF *, of j' k'] 2(3,4) k by simp
  qed
qed simp

lemma length_cluster_tiles [simp]: "length (cluster_tiles T P counts cursor) = length counts"
  by (induction counts arbitrary: cursor) (simp_all add: Let_def)

lemma w64_pred: "0 < x \<Longrightarrow> x < 2 ^ 64 \<Longrightarrow> w64 (x + SIZE_MAX) = x - 1"
  by (simp add: w64_def SIZE_MAX_def mod_if)

lemma cluster_share:
  assumes "0 < P" "T * P + P < 2 ^ 62" "s \<le> P"
  shows "w64 (w64 (w64 (T * s) + P) + SIZE_MAX) div P = (T * s + P - 1) div P"
proof -
  have "T * s \<le> T * P" using assms(3) by simp
  then have "T * s + P \<le> T * P + P" by (rule add_le_mono1)
  also note assms(2)
  finally have b: "T * s + P < 2 ^ 64" by simp
  then show ?thesis using assms(1) by (simp add: w64_pred)
qed

lemma ceil_bounds:
  fixes x P :: nat
  assumes "0 < P"
  shows "x \<le> (x + P - 1) div P * P"
proof -
  have "x + P - 1 < (x + P - 1) div P * P + P"
    using assms by (metis add.commute dividend_less_times_div mult.commute)
  then show ?thesis using assms by linarith
qed

lemma cluster_tiles_Cons:
  assumes "0 < P" "T * P + P < 2 ^ 62" "s \<le> P" "cursor \<le> T"
  obtains nxt where "cluster_tiles T P (s # rest) cursor = (cursor, nxt) # cluster_tiles T P rest nxt"
    "cursor \<le> nxt" "nxt \<le> T" "rest = [] \<Longrightarrow> nxt = T" "nxt = T \<or> cursor * P + T * s \<le> nxt * P"
    "s = 0 \<Longrightarrow> rest \<noteq> [] \<Longrightarrow> nxt = cursor"
proof -
  let ?k = "(T * s + P - Suc 0) div P"
  have k: "w64 (w64 (w64 (T * s) + P) + SIZE_MAX) div P = ?k" using assms(1-3) by (simp add: cluster_share)
  have "T * s \<le> T * P" using assms(3) by simp
  then have "T * s + P - 1 < T * P + P" using assms(1) by linarith
  then have "T * s + P - 1 < Suc T * P" by (simp add: add.commute)
  then have "?k \<le> T" using less_mult_imp_div_less [of "T * s + P - 1" "Suc T" P] by simp
  moreover have "T \<le> T * P" using assms(1) by simp
  ultimately have "cursor + ?k \<le> T * P + T * P" using assms(4) by linarith
  then have "cursor + ?k < 2 ^ 64" using assms(2) by simp
  then have w: "w64 (cursor + ?k) = cursor + ?k" by simp
  define nxt where "nxt = (if rest = [] \<or> cursor + ?k > T then T else cursor + ?k)"
  have "cluster_tiles T P (s # rest) cursor = (cursor, nxt) # cluster_tiles T P rest nxt"
    using assms(4) by (simp add: Let_def k w nxt_def del: One_nat_def)
  moreover have "nxt = T \<or> cursor * P + T * s \<le> nxt * P"
    using ceil_bounds [OF assms(1), of "T * s"] by (auto simp: nxt_def add_mult_distrib)
  ultimately show ?thesis using assms(1,4) by (intro that [of nxt]) (auto simp: nxt_def)
qed

lemma cluster_tiles_chain:
  assumes "0 < P" "T * P + P < 2 ^ 62"
  shows "counts \<noteq> [] \<Longrightarrow> cursor \<le> T \<Longrightarrow> (\<And>k. k \<in> set counts \<Longrightarrow> k \<le> P) \<Longrightarrow>
    interval_chain (cluster_tiles T P counts cursor) cursor T"
proof (induction counts arbitrary: cursor)
  case (Cons s rest)
  obtain nxt where n: "cluster_tiles T P (s # rest) cursor = (cursor, nxt) # cluster_tiles T P rest nxt"
    "cursor \<le> nxt" "nxt \<le> T" "rest = [] \<Longrightarrow> nxt = T"
    by (rule cluster_tiles_Cons [OF assms _ Cons.prems(2), of s rest]) (use Cons.prems(3) in simp_all)
  then show ?case using Cons.IH [OF _ n(3)] Cons.prems(3) by (cases "rest = []") simp_all
qed simp

lemma cluster_tiles_zero:
  assumes "0 < P" "T * P + P < 2 ^ 62"
  shows "cursor \<le> T \<Longrightarrow> T * S \<le> cursor * P \<Longrightarrow> S + sum_list counts = P \<Longrightarrow> k < length counts \<Longrightarrow>
    counts ! k = 0 \<Longrightarrow> fst (cluster_tiles T P counts cursor ! k) = snd (cluster_tiles T P counts cursor ! k)"
proof (induction counts arbitrary: cursor S k)
  case (Cons s rest)
  obtain nxt where n: "cluster_tiles T P (s # rest) cursor = (cursor, nxt) # cluster_tiles T P rest nxt"
    "cursor \<le> nxt" "nxt \<le> T" "rest = [] \<Longrightarrow> nxt = T" "nxt = T \<or> cursor * P + T * s \<le> nxt * P"
    "s = 0 \<Longrightarrow> rest \<noteq> [] \<Longrightarrow> nxt = cursor"
    by (rule cluster_tiles_Cons [OF assms _ Cons.prems(1), of s rest]) (use Cons.prems(3) in simp_all)
  show ?case
  proof (cases k)
    case 0
    show ?thesis
    proof (cases "rest = []")
      case True
      then have "S = P" using Cons.prems(3,5) 0 by simp
      then have "T \<le> cursor" using Cons.prems(2) assms(1) by simp
      then show ?thesis using n(1-3) 0 by simp
    qed (use 0 n(1,6) Cons.prems(5) in simp)
  next
    case (Suc k')
    have "T * (S + s) \<le> T * P" using Cons.prems(3) by (intro mult_le_mono2) simp
    then have "T * (S + s) \<le> nxt * P" using n(5) Cons.prems(2) by (auto simp: algebra_simps)
    then show ?thesis using Cons.IH [OF n(3), of "S + s" k'] Cons.prems(3-5) Suc n(1) by (simp add: add.assoc)
  qed
qed simp

lemma sum_slot_counts:
  assumes "\<forall>i\<in>set ids. i < K"
  shows "sum_list (slot_counts ids K) = length ids"
proof -
  have "sum_list (slot_counts ids K) = (\<Sum>k<K. card {s. s < length ids \<and> ids ! s = k})"
  proof -
    have "length (cluster_slots ids k) = card {s. s < length ids \<and> ids ! s = k}" for k
    proof -
      have "distinct (cluster_slots ids k)" by (simp add: cluster_slots_def)
      moreover have "set (cluster_slots ids k) = {s. s < length ids \<and> ids ! s = k}"
        by (auto simp: cluster_slots_def)
      ultimately show ?thesis by (metis distinct_card)
    qed
    then show ?thesis by (simp add: slot_counts_def sum_list_distinct_conv_sum_set atLeast0LessThan)
  qed
  also have "\<dots> = card (\<Union>k<K. {s. s < length ids \<and> ids ! s = k})"
    by (rule card_UN_disjoint [symmetric]) auto
  also have "(\<Union>k<K. {s. s < length ids \<and> ids ! s = k}) = {..<length ids}"
    using assms by auto
  finally show ?thesis by simp
qed

text \<open>What the protocol needs of the set-up.\<close>

definition lookback_wf :: "'a lookback_cfg \<Rightarrow> bool" where
  "lookback_wf c \<longleftrightarrow> 0 < lc_participants c \<and> 0 < lc_tileElems c \<and>
     (lc_numTiles c - 1) * lc_tileElems c < length (lc_in c) \<and>
     length (lc_in c) \<le> lc_numTiles c * lc_tileElems c \<and>
     interval_chain (lc_ranges c) 0 (lc_numTiles c) \<and>
     (\<forall>i < lc_participants c. lc_clusterOf c i < length (lc_ranges c)) \<and>
     (\<forall>k < length (lc_ranges c). fst (lc_ranges c ! k) < snd (lc_ranges c ! k) \<longrightarrow>
        (\<exists>i < lc_participants c. lc_clusterOf c i = k))"

lemma tile_count_eq:
  assumes "0 < n" "0 < E" "n + E \<le> SIZE_MAX"
  shows "(tile_count n E - 1) * E < n" "n \<le> tile_count n E * E"
proof -
  have t: "tile_count n E = (n + E - 1) div E"
    unfolding tile_count_def by (subst w64_pred) (use assms in \<open>simp_all add: SIZE_MAX_def\<close>)
  then show "n \<le> tile_count n E * E" using ceil_bounds [OF assms(2)] by simp
  have "tile_count n E * E \<le> n + E - 1" using t by simp
  then show "(tile_count n E - 1) * E < n" using assms(1,2) by (simp add: diff_mult_distrib)
qed

lemma slot_counts_zero:
  "k < K \<Longrightarrow> slot_counts ids K ! k \<noteq> 0 \<Longrightarrow> \<exists>i < length ids. ids ! i = k"
  by (auto simp: slot_counts_def cluster_slots_def filter_empty_conv)

lemma slot_counts_le: "x \<in> set (slot_counts ids K) \<Longrightarrow> x \<le> length ids"
  by (auto simp: slot_counts_def cluster_slots_def) (metis diff_zero length_filter_le length_upt)

lemma lookback_setup_wf:
  assumes "xs \<noteq> []" "0 < E" "length xs + E \<le> SIZE_MAX" "0 < P"
    and "tile_count (length xs) E * P + P < 2 ^ 62"
    and "multi \<longrightarrow> 0 < K \<and> length ids = P \<and> (\<forall>i\<in>set ids. i < K) \<and> counts = slot_counts ids K"
  shows "lookback_wf (lookback_setup f e xs alias P E multi ids counts)"
proof -
  let ?T = "tile_count (length xs) E"
  let ?r = "if multi then cluster_tiles ?T P counts 0 else [(0, ?T)]"
  note T = tile_count_eq [OF _ assms(2,3)]
  have chain: "interval_chain ?r 0 ?T"
  proof (cases multi)
    case True
    then have "counts \<noteq> []" "\<And>k. k \<in> set counts \<Longrightarrow> k \<le> P"
      using assms(6) slot_counts_le by (auto simp: slot_counts_def)
    then show ?thesis using cluster_tiles_chain [OF assms(4,5)] True by simp
  qed simp
  have slot: "\<exists>i < P. (if multi then ids ! i else 0) = k"
    if k: "k < length ?r" "fst (?r ! k) < snd (?r ! k)" for k
  proof (cases multi)
    case True
    then have m: "length ids = P" "\<forall>i\<in>set ids. i < K" "counts = slot_counts ids K" using assms(6) by simp_all
    have "k < length counts" using True k(1) by simp
    then have "k < K" unfolding m(3) by (simp add: slot_counts_def)
    moreover have "counts ! k \<noteq> 0"
      using cluster_tiles_zero [OF assms(4,5), of 0 0 counts k] sum_slot_counts [OF m(2)] m k True by auto
    ultimately show ?thesis using slot_counts_zero m True by metis
  qed (use k(1) assms(4) in auto)
  have "(if multi then ids ! i else 0) < length ?r" if "i < P" for i
    using assms(6) that by (auto simp: slot_counts_def)
  then show ?thesis using T assms(1,2,4) chain slot
    by (simp add: lookback_wf_def lookback_setup_def Let_def)
qed

section \<open>The invariant\<close>

definition tot :: "'a lookback_cfg \<Rightarrow> nat \<Rightarrow> nat \<Rightarrow> 'a" where
  "tot c a b = foldl (lc_op c) (lc_identity c) (map (\<lambda>i. lc_in c ! i) [a..<b])"

fun owned :: "'a tile_pc \<Rightarrow> nat option" where
  "owned (CheckExc t) = Some t"
| "owned (Skip t) = Some t"
| "owned (Pass1 t j acc) = Some t"
| "owned (PubAgg t acc) = Some t"
| "owned (Walk t k a) = Some t"
| "owned (PubPrefix t v) = Some t"
| "owned (Pass2 t j v) = Some t"
| "owned (FailTile t) = Some t"
| "owned _ = None"

definition in_range :: "'a lookback_cfg \<Rightarrow> nat \<Rightarrow> nat \<Rightarrow> bool" where
  "in_range c k t \<longleftrightarrow> k < length (lc_ranges c) \<and> fst (lc_ranges c ! k) \<le> t \<and> t < snd (lc_ranges c ! k)"

definition claimed :: "'a lookback_cfg \<Rightarrow> 'a lookback \<Rightarrow> nat \<Rightarrow> bool" where
  "claimed c s t \<longleftrightarrow> (\<exists>k. in_range c k t \<and> t < lb_next s k)"

definition unowned :: "'a lookback_cfg \<Rightarrow> 'a lookback \<Rightarrow> nat \<Rightarrow> bool" where
  "unowned c s t \<longleftrightarrow> (\<forall>i < lc_participants c. owned (lb_pc s i) \<noteq> Some t)"

definition own_inv :: "'a lookback_cfg \<Rightarrow> 'a lookback \<Rightarrow> bool" where
  "own_inv c s \<longleftrightarrow>
     (\<forall>i < lc_participants c. \<forall>t. owned (lb_pc s i) = Some t \<longrightarrow>
        in_range c (lc_clusterOf c i) t \<and> t < lb_next s (lc_clusterOf c i)) \<and>
     (\<forall>i < lc_participants c. \<forall>j < lc_participants c. \<forall>t. i \<noteq> j \<longrightarrow> owned (lb_pc s i) = Some t \<longrightarrow>
        owned (lb_pc s j) \<noteq> Some t) \<and>
     (\<forall>i < lc_participants c. lb_pc s i = Finished \<longrightarrow>
        snd (lc_ranges c ! lc_clusterOf c i) \<le> lb_next s (lc_clusterOf c i)) \<and>
     (\<forall>k < length (lc_ranges c). fst (lc_ranges c ! k) \<le> lb_next s k)"

fun flag_ok :: "(nat \<Rightarrow> tile_flag) \<Rightarrow> 'a tile_pc \<Rightarrow> bool" where
  "flag_ok f (CheckExc t) = (f t = Initialized)"
| "flag_ok f (Skip t) = (f t = Initialized)"
| "flag_ok f (Pass1 t j acc) = (f t = Initialized)"
| "flag_ok f (PubAgg t acc) = (f t = Initialized)"
| "flag_ok f (Walk t k a) = (f t = AggregateAvailable \<and> k \<le> t)"
| "flag_ok f (PubPrefix t v) = (f t = AggregateAvailable)"
| "flag_ok f (Pass2 t j v) = (f t = PrefixAvailable)"
| "flag_ok f _ = True"

definition flag_inv :: "'a lookback_cfg \<Rightarrow> 'a lookback \<Rightarrow> bool" where
  "flag_inv c s \<longleftrightarrow> (\<forall>i < lc_participants c. flag_ok (lb_flag s) (lb_pc s i)) \<and>
     (\<forall>t < lc_numTiles c. \<not> claimed c s t \<longrightarrow> lb_flag s t = Initialized) \<and>
     (\<forall>t < lc_numTiles c. claimed c s t \<longrightarrow> unowned c s t \<longrightarrow> lb_flag s t = PrefixAvailable)"

text \<open>The outputs of a stretch: untouched, scanned within the tile, or final.\<close>

definition raw_out :: "'a lookback_cfg \<Rightarrow> 'a list \<Rightarrow> nat \<Rightarrow> nat \<Rightarrow> bool" where
  "raw_out c out a b \<longleftrightarrow> lc_alias c \<longrightarrow> (\<forall>j. a \<le> j \<and> j < b \<longrightarrow> out ! j = lc_in c ! j)"

definition local_out :: "'a lookback_cfg \<Rightarrow> 'a list \<Rightarrow> nat \<Rightarrow> nat \<Rightarrow> nat \<Rightarrow> bool" where
  "local_out c out t a b \<longleftrightarrow> (\<forall>j. a \<le> j \<and> j < b \<longrightarrow> out ! j = tot c (tile_lo c t) (Suc j))"

definition final_out :: "'a lookback_cfg \<Rightarrow> 'a list \<Rightarrow> nat \<Rightarrow> nat \<Rightarrow> bool" where
  "final_out c out a b \<longleftrightarrow> (\<forall>j. a \<le> j \<and> j < b \<longrightarrow> out ! j = tot c 0 (Suc j))"

fun val_ok :: "'a lookback_cfg \<Rightarrow> 'a list \<Rightarrow> 'a tile_pc \<Rightarrow> bool" where
  "val_ok c out (CheckExc t) = raw_out c out (tile_lo c t) (tile_hi c t)"
| "val_ok c out (Pass1 t j acc) = (tile_lo c t \<le> j \<and> j \<le> tile_hi c t \<and> acc = tot c (tile_lo c t) j \<and>
     local_out c out t (tile_lo c t) j \<and> raw_out c out j (tile_hi c t))"
| "val_ok c out (PubAgg t acc) = (acc = tot c (tile_lo c t) (tile_hi c t) \<and>
     local_out c out t (tile_lo c t) (tile_hi c t))"
| "val_ok c out (Walk t k a) = (a = tot c (tile_lo c k) (tile_lo c t) \<and>
     local_out c out t (tile_lo c t) (tile_hi c t))"
| "val_ok c out (PubPrefix t v) = (v = tot c 0 (tile_lo c t) \<and> local_out c out t (tile_lo c t) (tile_hi c t))"
| "val_ok c out (Pass2 t j v) = (tile_lo c t \<le> j \<and> j \<le> tile_hi c t \<and> v = tot c 0 (tile_lo c t) \<and>
     final_out c out (tile_lo c t) j \<and> local_out c out t j (tile_hi c t))"
| "val_ok c out (Skip t) = False"
| "val_ok c out (FailTile t) = False"
| "val_ok c out _ = True"

definition val_inv :: "'a lookback_cfg \<Rightarrow> 'a lookback \<Rightarrow> bool" where
  "val_inv c s \<longleftrightarrow> length (lb_out s) = length (lc_in c) \<and>
     (\<forall>i < lc_participants c. val_ok c (lb_out s) (lb_pc s i)) \<and>
     (\<forall>t < lc_numTiles c.
        (lb_flag s t \<noteq> Initialized \<longrightarrow> lb_aggregate s t = tot c (tile_lo c t) (tile_hi c t)) \<and>
        (lb_flag s t = PrefixAvailable \<longrightarrow> lb_prefix s t = tot c 0 (tile_lo c t)) \<and>
        (\<not> claimed c s t \<longrightarrow> raw_out c (lb_out s) (tile_lo c t) (tile_hi c t)) \<and>
        (claimed c s t \<longrightarrow> unowned c s t \<longrightarrow> final_out c (lb_out s) (tile_lo c t) (tile_hi c t)))"

definition lookback_inv :: "'a lookback_cfg \<Rightarrow> 'a lookback \<Rightarrow> bool" where
  "lookback_inv c s \<longleftrightarrow> own_inv c s \<and> flag_inv c s \<and> (lb_exc s = None \<longrightarrow> val_inv c s)"

section \<open>Facts about the tiles\<close>

lemma lookback_wfD:
  assumes "lookback_wf c"
  shows "0 < lc_participants c" "0 < lc_tileElems c" "interval_chain (lc_ranges c) 0 (lc_numTiles c)"
    "i < lc_participants c \<Longrightarrow> lc_clusterOf c i < length (lc_ranges c)"
    "k < length (lc_ranges c) \<Longrightarrow> fst (lc_ranges c ! k) < snd (lc_ranges c ! k) \<Longrightarrow>
      \<exists>i < lc_participants c. lc_clusterOf c i = k"
    "length (lc_in c) \<le> lc_numTiles c * lc_tileElems c"
  using assms by (simp_all add: lookback_wf_def)

lemma tile_lo_less:
  assumes "lookback_wf c" "t < lc_numTiles c"
  shows "tile_lo c t < length (lc_in c)"
proof -
  have "t * lc_tileElems c \<le> (lc_numTiles c - 1) * lc_tileElems c" using assms(2) by (intro mult_le_mono1) simp
  moreover have "(lc_numTiles c - 1) * lc_tileElems c < length (lc_in c)"
    using assms(1) by (simp add: lookback_wf_def)
  ultimately show ?thesis unfolding tile_lo_def by (rule le_less_trans)
qed

lemma tile_hi_le: "tile_hi c t \<le> length (lc_in c)"
  by (simp add: tile_hi_def Let_def)

lemma tile_lo_le_hi: "lookback_wf c \<Longrightarrow> t < lc_numTiles c \<Longrightarrow> tile_lo c t \<le> tile_hi c t"
  using tile_lo_less [of c t] by (simp add: tile_hi_def tile_lo_def Let_def)

lemma tile_hi_next:
  assumes "lookback_wf c" "Suc t < lc_numTiles c"
  shows "tile_hi c t = tile_lo c (Suc t)"
  using tile_lo_less [OF assms] by (simp add: tile_hi_def tile_lo_def Let_def add.commute)

lemma tile_hi_last: "lookback_wf c \<Longrightarrow> tile_hi c (lc_numTiles c - 1) = length (lc_in c)"
  using lookback_wfD(6) [of c] by (cases "lc_numTiles c") (auto simp: tile_hi_def Let_def add.commute)

lemma tiles_disjoint: "t < u \<Longrightarrow> tile_hi c t \<le> tile_lo c u"
proof -
  assume "t < u"
  then have "Suc t * lc_tileElems c \<le> u * lc_tileElems c" by (intro mult_le_mono1) simp
  then show ?thesis by (simp add: tile_hi_def tile_lo_def Let_def)
qed

lemma in_tile: "lookback_wf c \<Longrightarrow> j < length (lc_in c) \<Longrightarrow> \<exists>t < lc_numTiles c. tile_lo c t \<le> j \<and> j < tile_hi c t"
proof -
  assume wf: "lookback_wf c" and j: "j < length (lc_in c)"
  let ?E = "lc_tileElems c" and ?t = "j div lc_tileElems c"
  have "?t * ?E \<le> j" "j < ?t * ?E + ?E"
    using dividend_less_div_times [OF lookback_wfD(2) [OF wf], of j] by (simp_all add: add.commute)
  moreover have "?t < lc_numTiles c"
    using lookback_wfD(6) [OF wf] j by (simp add: less_mult_imp_div_less)
  ultimately show ?thesis using j by (intro exI [of _ ?t]) (auto simp: tile_lo_def tile_hi_def Let_def)
qed

lemma tot_empty [simp]: "tot c a a = lc_identity c"
  by (simp add: tot_def)

lemma tot_snoc: "a \<le> b \<Longrightarrow> tot c a (Suc b) = lc_op c (tot c a b) (lc_in c ! b)"
  by (simp add: tot_def)

lemma tot_join:
  assumes "monoid (lc_op c) (lc_identity c)" "a \<le> b" "b \<le> d"
  shows "lc_op c (tot c a b) (tot c b d) = tot c a d"
proof -
  have "[a..<d] = [a..<b] @ [b..<d]" using assms(2,3) by (metis le_add_diff_inverse upt_add_eq_append)
  then show ?thesis using foldl_append_monoid [OF assms(1)] by (simp add: tot_def del: foldl_append)
qed

lemma monoid_left: "monoid f e \<Longrightarrow> f e x = x" and monoid_right: "monoid f e \<Longrightarrow> f x e = x"
  by (simp_all add: monoid_def)

lemma in_range_unique:
  assumes "lookback_wf c" "in_range c k t" "in_range c l t"
  shows "k = l"
proof (rule ccontr)
  assume "k \<noteq> l"
  then consider "k < l" | "l < k" by linarith
  then show False
    using chain_order [OF lookback_wfD(3) [OF assms(1)]] assms(2,3) by (cases; fastforce simp: in_range_def)
qed

lemma in_range_less: "lookback_wf c \<Longrightarrow> in_range c k t \<Longrightarrow> t < lc_numTiles c"
  using chain_nth [OF lookback_wfD(3), of c k] by (auto simp: in_range_def)

lemma in_range_exists: "lookback_wf c \<Longrightarrow> t < lc_numTiles c \<Longrightarrow> \<exists>k. in_range c k t"
  using chain_covers [OF lookback_wfD(3), of c t] by (auto simp: in_range_def)

section \<open>The steps, by their effect\<close>

lemmas lookback_upd = set_tile_pc_def publish_prefix_def

text \<open>A claim moves the cluster's counter; every other step is of the owner of a tile.\<close>

lemma lookback_cases:
  assumes "lookback_step c s a = Some s'"
  obtains
    (claim) i where "i < lc_participants c" "lb_pc s i = Claim"
      "s' = set_tile_pc i (if lb_next s (lc_clusterOf c i) \<ge> snd (lc_ranges c ! lc_clusterOf c i) then Finished
          else CheckExc (lb_next s (lc_clusterOf c i)))
        (s\<lparr> lb_next := (lb_next s)(lc_clusterOf c i := Suc (lb_next s (lc_clusterOf c i))) \<rparr>)"
  | (stay) i t p where "i < lc_participants c" "owned (lb_pc s i) = Some t" "owned p = Some t" "s' = set_tile_pc i p s"
      "(lb_pc s i = CheckExc t \<and> p = (if lb_exc s \<noteq> None then Skip t else Pass1 t (tile_lo c t) (lc_identity c))) \<or>
       (\<exists>j acc. lb_pc s i = Pass1 t j acc \<and> tile_hi c t \<le> j \<and> p = PubAgg t acc) \<or>
       (\<exists>a. lb_pc s i = Walk t 0 a \<and> p = PubPrefix t a) \<or>
       (\<exists>k a. lb_pc s i = Walk t (Suc k) a \<and> lb_flag s k = PrefixAvailable \<and>
          p = PubPrefix t (lc_op c (lc_op c (lb_prefix s k) (lb_aggregate s k)) a)) \<or>
       (\<exists>k a. lb_pc s i = Walk t (Suc k) a \<and> lb_flag s k = AggregateAvailable \<and>
          p = Walk t k (lc_op c (lb_aggregate s k) a))"
  | (pass1) i t j acc where "i < lc_participants c" "lb_pc s i = Pass1 t j acc" "j < tile_hi c t"
      "s' = set_tile_pc i (Pass1 t (Suc j) (lc_op c acc (source c s j)))
        (s\<lparr> lb_out := (lb_out s)[j := lc_op c acc (source c s j)] \<rparr>)"
  | (pubAgg) i t acc where "i < lc_participants c" "lb_pc s i = PubAgg t acc"
      "s' = set_tile_pc i (if t = 0 then PubPrefix t (lc_identity c) else Walk t t (lc_identity c))
        (s\<lparr> lb_aggregate := (lb_aggregate s)(t := acc), lb_flag := (lb_flag s)(t := AggregateAvailable) \<rparr>)"
  | (pubPrefix) i t v where "i < lc_participants c" "lb_pc s i = PubPrefix t v"
      "s' = set_tile_pc i (if t > 0 then Pass2 t (tile_lo c t) v else Claim) (publish_prefix t v s)"
  | (pass2) i t j v where "i < lc_participants c" "lb_pc s i = Pass2 t j v" "j < tile_hi c t"
      "s' = set_tile_pc i (Pass2 t (Suc j) v) (s\<lparr> lb_out := (lb_out s)[j := lc_op c v (lb_out s ! j)] \<rparr>)"
  | (pass2End) i t j v where "i < lc_participants c" "lb_pc s i = Pass2 t j v" "tile_hi c t \<le> j"
      "s' = set_tile_pc i Claim s"
  | (giveUp) i t where "i < lc_participants c" "lb_pc s i = Skip t \<or> lb_pc s i = FailTile t"
      "s' = set_tile_pc i Claim (publish_prefix t (lc_identity c) s)"
  | (throw) i t where "i < lc_participants c" "owned (lb_pc s i) = Some t"
      "(\<exists>j acc. lb_pc s i = Pass1 t j acc \<and> j < tile_hi c t) \<or>
       (\<exists>k a. lb_pc s i = Walk t (Suc k) a \<and> lb_flag s k \<noteq> Initialized) \<or>
       (\<exists>j v. lb_pc s i = Pass2 t j v \<and> j < tile_hi c t)"
      "s' = set_tile_pc i (FailTile t)
            (s\<lparr> lb_exc := (case lb_exc s of None \<Rightarrow> Some i | Some k \<Rightarrow> Some k) \<rparr>)"
proof (cases a)
  case (Go i)
  then have i: "i < lc_participants c" and st: "tile_go c i s = Some s'"
    using assms by (simp_all add: lookback_step_def split: if_splits)
  show ?thesis
  proof (cases "lb_pc s i")
    case Claim
    then show ?thesis using st i claim by (simp add: tile_go_def walk_step_def Let_def)
  next
    case (CheckExc t)
    then show ?thesis using st by (intro stay [OF i]) (auto simp: tile_go_def walk_step_def)
  next
    case (Skip t)
    then show ?thesis using st by (intro giveUp [OF i]) (auto simp: tile_go_def walk_step_def)
  next
    case (Pass1 t j acc)
    show ?thesis
    proof (cases "j < tile_hi c t")
      case True
      then show ?thesis using st Pass1 by (intro pass1 [OF i]) (auto simp: tile_go_def walk_step_def Let_def)
    next
      case False
      then show ?thesis using st Pass1 by (intro stay [OF i]) (auto simp: tile_go_def walk_step_def)
    qed
  next
    case (PubAgg t acc)
    then show ?thesis using st by (intro pubAgg [OF i]) (auto simp: tile_go_def walk_step_def)
  next
    case (Walk t k accum)
    show ?thesis
    proof (cases k)
      case 0
      then show ?thesis using st Walk by (intro stay [OF i]) (auto simp: tile_go_def walk_step_def)
    next
      case (Suc p)
      then show ?thesis using st Walk
        by (cases "lb_flag s p") (auto simp: tile_go_def walk_step_def intro!: stay [OF i])
    qed
  next
    case (PubPrefix t v)
    then show ?thesis using st by (intro pubPrefix [OF i]) (auto simp: tile_go_def walk_step_def)
  next
    case (Pass2 t j v)
    show ?thesis
    proof (cases "j < tile_hi c t")
      case True
      then show ?thesis using st Pass2 by (intro pass2 [OF i]) (auto simp: tile_go_def walk_step_def)
    next
      case False
      then show ?thesis using st Pass2 by (intro pass2End [OF i]) (auto simp: tile_go_def walk_step_def)
    qed
  next
    case (FailTile t)
    then show ?thesis using st by (intro giveUp [OF i]) (auto simp: tile_go_def walk_step_def)
  next
    case Finished
    then show ?thesis using st by (simp add: tile_go_def walk_step_def)
  qed
next
  case (Throw i)
  then have i: "i < lc_participants c" and st: "tile_throw c i s = Some s'"
    using assms by (simp_all add: lookback_step_def split: if_splits)
  show ?thesis
  proof (cases "lb_pc s i")
    case (Pass1 t j acc)
    then show ?thesis using st by (intro throw [OF i]) (auto simp: tile_throw_def Let_def split: if_splits)
  next
    case (Walk t k accum)
    then show ?thesis using st
      by (intro throw [OF i]) (auto simp: tile_throw_def Let_def split: if_splits nat.splits)
  next
    case (Pass2 t j v)
    then show ?thesis using st by (intro throw [OF i]) (auto simp: tile_throw_def Let_def split: if_splits)
  qed (use st in \<open>simp_all add: tile_throw_def Let_def\<close>)
qed

section \<open>Every step keeps the invariant\<close>

lemma own_invD:
  assumes "own_inv c s" "i < lc_participants c"
  shows "owned (lb_pc s i) = Some t \<Longrightarrow> in_range c (lc_clusterOf c i) t"
    "owned (lb_pc s i) = Some t \<Longrightarrow> claimed c s t"
    "owned (lb_pc s i) = Some t \<Longrightarrow> j < lc_participants c \<Longrightarrow> j \<noteq> i \<Longrightarrow> owned (lb_pc s j) \<noteq> Some t"
    "lb_pc s i = Finished \<Longrightarrow> snd (lc_ranges c ! lc_clusterOf c i) \<le> lb_next s (lc_clusterOf c i)"
proof -
  show "owned (lb_pc s i) = Some t \<Longrightarrow> in_range c (lc_clusterOf c i) t"
    using assms unfolding own_inv_def by blast
  show "owned (lb_pc s i) = Some t \<Longrightarrow> claimed c s t"
    using assms unfolding own_inv_def claimed_def by blast
  show "owned (lb_pc s i) = Some t \<Longrightarrow> j < lc_participants c \<Longrightarrow> j \<noteq> i \<Longrightarrow> owned (lb_pc s j) \<noteq> Some t"
    using assms unfolding own_inv_def by blast
  show "lb_pc s i = Finished \<Longrightarrow> snd (lc_ranges c ! lc_clusterOf c i) \<le> lb_next s (lc_clusterOf c i)"
    using assms unfolding own_inv_def by blast
qed

lemma flag_ok_frame: "owned p \<noteq> Some t \<Longrightarrow> flag_ok (f(t := x)) p = flag_ok f p"
  by (cases p) auto

lemma val_ok_frame:
  assumes "owned p = Some u" "\<And>j. tile_lo c u \<le> j \<Longrightarrow> j < tile_hi c u \<Longrightarrow> out' ! j = out ! j"
  shows "val_ok c out p \<Longrightarrow> val_ok c out' p"
  using assms by (cases p) (auto simp: raw_out_def local_out_def final_out_def)

text \<open>A step of the owner of tile \<open>t\<close>.\<close>

lemma own_move:
  assumes inv: "own_inv c s" and i: "i < lc_participants c" and t: "owned (lb_pc s i) = Some t"
    and upd: "lb_pc s' = (lb_pc s)(i := p)" "lb_next s' = lb_next s"
    and p: "owned p = Some t \<or> p = Claim"
  shows "own_inv c s'" "claimed c s' = claimed c s" "u \<noteq> t \<Longrightarrow> unowned c s' u = unowned c s u"
    "owned p = Some t \<Longrightarrow> \<not> unowned c s' t"
proof -
  show "claimed c s' = claimed c s" by (rule ext) (simp add: claimed_def upd)
  have p': "p \<noteq> Finished" "\<And>u. owned p = Some u \<Longrightarrow> u = t" using p by auto
  show "own_inv c s'"
    unfolding own_inv_def
  proof (intro conjI allI impI)
    fix j u assume j: "j < lc_participants c" and u: "owned (lb_pc s' j) = Some u"
    have "\<exists>l < lc_participants c. lc_clusterOf c l = lc_clusterOf c j \<and> owned (lb_pc s l) = Some u"
      using i j t u p' by (cases "j = i") (auto simp: upd)
    then show "in_range c (lc_clusterOf c j) u" "u < lb_next s' (lc_clusterOf c j)"
      using inv unfolding own_inv_def upd(2) by fastforce+
  next
    fix j l u assume j: "j < lc_participants c" "l < lc_participants c" "j \<noteq> l" "owned (lb_pc s' j) = Some u"
    show "owned (lb_pc s' l) \<noteq> Some u"
      using own_invD(3) [OF inv j(1), of u l] own_invD(3) [OF inv i t, of j] own_invD(3) [OF inv i t, of l]
        j p'(2) by (auto simp: upd split: if_splits)
  next
    fix j assume j: "j < lc_participants c" "lb_pc s' j = Finished"
    then have "lb_pc s j = Finished" using p'(1) by (auto simp: upd split: if_splits)
    then show "snd (lc_ranges c ! lc_clusterOf c j) \<le> lb_next s' (lc_clusterOf c j)"
      using own_invD(4) [OF inv j(1)] by (simp add: upd)
  next
    fix k assume "k < length (lc_ranges c)"
    then show "fst (lc_ranges c ! k) \<le> lb_next s' k" using inv by (simp add: own_inv_def upd)
  qed
  show "u \<noteq> t \<Longrightarrow> unowned c s' u = unowned c s u"
    using i t p'(2) by (auto simp: unowned_def upd)
  show "owned p = Some t \<Longrightarrow> \<not> unowned c s' t" using i by (auto simp: unowned_def upd)
qed

lemma flag_invD:
  assumes "flag_inv c s"
  shows "i < lc_participants c \<Longrightarrow> flag_ok (lb_flag s) (lb_pc s i)"
    "t < lc_numTiles c \<Longrightarrow> \<not> claimed c s t \<Longrightarrow> lb_flag s t = Initialized"
    "t < lc_numTiles c \<Longrightarrow> claimed c s t \<Longrightarrow> unowned c s t \<Longrightarrow> lb_flag s t = PrefixAvailable"
  using assms by (simp_all add: flag_inv_def)

lemma flag_move:
  assumes inv: "own_inv c s" "flag_inv c s" and i: "i < lc_participants c" and t: "owned (lb_pc s i) = Some t"
    and upd: "lb_pc s' = (lb_pc s)(i := p)" "lb_next s' = lb_next s" "lb_flag s' = (lb_flag s)(t := x)"
    and p: "owned p = Some t \<or> p = Claim" and ok: "flag_ok (lb_flag s') p"
    and x: "owned p \<noteq> Some t \<Longrightarrow> x = PrefixAvailable"
  shows "flag_inv c s'"
  unfolding flag_inv_def
proof (intro conjI allI impI)
  note move = own_move [OF inv(1) i t upd(1,2) p]
  fix j assume j: "j < lc_participants c"
  show "flag_ok (lb_flag s') (lb_pc s' j)"
  proof (cases "j = i")
    case False
    have "owned (lb_pc s j) \<noteq> Some t" by (rule own_invD(3) [OF inv(1) i t j False])
    then show ?thesis using False flag_invD(1) [OF inv(2) j] by (simp add: upd flag_ok_frame)
  qed (use ok upd in simp)
next
  note move = own_move [OF inv(1) i t upd(1,2) p]
  fix u assume u: "u < lc_numTiles c"
  have t': "claimed c s t" by (rule own_invD(2) [OF inv(1) i t])
  {
    assume "\<not> claimed c s' u"
    then show "lb_flag s' u = Initialized" using flag_invD(2) [OF inv(2) u] t' by (auto simp: upd move(2))
  next
    assume "claimed c s' u" "unowned c s' u"
    then show "lb_flag s' u = PrefixAvailable"
      using flag_invD(3) [OF inv(2) u] move(2-4) x by (cases "u = t") (auto simp: upd)
  }
qed

lemma val_invD:
  assumes "val_inv c s"
  shows "length (lb_out s) = length (lc_in c)" "i < lc_participants c \<Longrightarrow> val_ok c (lb_out s) (lb_pc s i)"
    "t < lc_numTiles c \<Longrightarrow> lb_flag s t \<noteq> Initialized \<Longrightarrow> lb_aggregate s t = tot c (tile_lo c t) (tile_hi c t)"
    "t < lc_numTiles c \<Longrightarrow> lb_flag s t = PrefixAvailable \<Longrightarrow> lb_prefix s t = tot c 0 (tile_lo c t)"
    "t < lc_numTiles c \<Longrightarrow> \<not> claimed c s t \<Longrightarrow> raw_out c (lb_out s) (tile_lo c t) (tile_hi c t)"
    "t < lc_numTiles c \<Longrightarrow> claimed c s t \<Longrightarrow> unowned c s t \<Longrightarrow>
      final_out c (lb_out s) (tile_lo c t) (tile_hi c t)"
  using assms by (simp_all add: val_inv_def)

lemma tile_out_frame:
  assumes "\<And>j. j < tile_lo c t \<or> tile_hi c t \<le> j \<Longrightarrow> out' ! j = out ! j" "u \<noteq> t"
    "tile_lo c u \<le> j" "j < tile_hi c u"
  shows "out' ! j = out ! j"
proof -
  consider "u < t" | "t < u" using assms(2) by linarith
  then show ?thesis
  proof cases
    case 1
    then show ?thesis using tiles_disjoint [OF 1, of c] assms(1) [of j] assms(4) by linarith
  next
    case 2
    then show ?thesis using tiles_disjoint [OF 2, of c] assms(1) [of j] assms(3) by linarith
  qed
qed

lemma val_move:
  assumes wf: "lookback_wf c" and inv: "own_inv c s" "val_inv c s"
    and i: "i < lc_participants c" and t: "owned (lb_pc s i) = Some t"
    and upd: "lb_pc s' = (lb_pc s)(i := p)" "lb_next s' = lb_next s" "lb_flag s' = (lb_flag s)(t := x)"
      "lb_aggregate s' = (lb_aggregate s)(t := y)" "lb_prefix s' = (lb_prefix s)(t := z)"
    and p: "owned p = Some t \<or> p = Claim"
    and out: "length (lb_out s') = length (lb_out s)"
      "\<And>j. j < tile_lo c t \<or> tile_hi c t \<le> j \<Longrightarrow> lb_out s' ! j = lb_out s ! j"
    and ok: "val_ok c (lb_out s') p" "p = Claim \<Longrightarrow> final_out c (lb_out s') (tile_lo c t) (tile_hi c t)"
    and pay: "x \<noteq> Initialized \<Longrightarrow> y = tot c (tile_lo c t) (tile_hi c t)"
      "x = PrefixAvailable \<Longrightarrow> z = tot c 0 (tile_lo c t)"
  shows "val_inv c s'"
  unfolding val_inv_def
proof (intro conjI allI impI)
  show "length (lb_out s') = length (lc_in c)" using val_invD(1) [OF inv(2)] out(1) by simp
  fix j assume j: "j < lc_participants c"
  show "val_ok c (lb_out s') (lb_pc s' j)"
  proof (cases "j = i")
    case False
    have v: "val_ok c (lb_out s) (lb_pc s j)" by (rule val_invD(2) [OF inv(2) j])
    show ?thesis
    proof (cases "owned (lb_pc s j)")
      case None
      then show ?thesis using v False by (cases "lb_pc s j") (auto simp: upd)
    next
      case (Some u)
      then have "u \<noteq> t" using own_invD(3) [OF inv(1) i t j False] by auto
      with val_ok_frame [OF Some tile_out_frame [OF out(2)] v] show ?thesis using False by (simp add: upd)
    qed
  qed (use ok upd in simp)
next
  note move = own_move [OF inv(1) i t upd(1,2) p]
  fix u assume u: "u < lc_numTiles c"
  have t': "claimed c s t" by (rule own_invD(2) [OF inv(1) i t])
  have frame: "lb_out s' ! j = lb_out s ! j" if "u \<noteq> t" "tile_lo c u \<le> j" "j < tile_hi c u" for j
    by (rule tile_out_frame [OF out(2) that])
  {
    assume "lb_flag s' u \<noteq> Initialized"
    then show "lb_aggregate s' u = tot c (tile_lo c u) (tile_hi c u)"
      using val_invD(3) [OF inv(2) u] pay by (auto simp: upd split: if_splits)
  next
    assume "lb_flag s' u = PrefixAvailable"
    then show "lb_prefix s' u = tot c 0 (tile_lo c u)"
      using val_invD(4) [OF inv(2) u] pay by (auto simp: upd split: if_splits)
  next
    assume c: "\<not> claimed c s' u"
    then have "u \<noteq> t" using t' by (auto simp: move(2))
    then show "raw_out c (lb_out s') (tile_lo c u) (tile_hi c u)"
      using val_invD(5) [OF inv(2) u] c frame by (simp add: raw_out_def move(2))
  next
    assume c: "claimed c s' u" "unowned c s' u"
    show "final_out c (lb_out s') (tile_lo c u) (tile_hi c u)"
    proof (cases "u = t")
      case True
      then have "p = Claim" using c(2) move(4) p by auto
      then show ?thesis using ok(2) True by simp
    next
      case False
      then have "unowned c s u" "claimed c s u" using c move(2,3) by simp_all
      from val_invD(6) [OF inv(2) u this(2,1)] show ?thesis using frame [OF False] by (simp add: final_out_def)
    qed
  }
qed

text \<open>A claim.\<close>

lemma claim_keep:
  assumes wf: "lookback_wf c" and inv: "lookback_inv c s" and i: "i < lc_participants c" "lb_pc s i = Claim"
    and k: "k = lc_clusterOf c i"
    and s': "s' = set_tile_pc i (if lb_next s k \<ge> snd (lc_ranges c ! k) then Finished else CheckExc (lb_next s k))
        (s\<lparr> lb_next := (lb_next s)(k := Suc (lb_next s k)) \<rparr>)"
  shows "lookback_inv c s'"
proof -
  let ?t = "lb_next s k"
  have own: "own_inv c s" and flag: "flag_inv c s" and val: "lb_exc s = None \<Longrightarrow> val_inv c s"
    using inv by (simp_all add: lookback_inv_def)
  have kK: "k < length (lc_ranges c)" using lookback_wfD(4) [OF wf i(1)] k by simp
  have first: "fst (lc_ranges c ! k) \<le> ?t" using own kK by (simp add: own_inv_def)
  have none: "owned (lb_pc s i) = None" using i(2) by simp
  show ?thesis
  proof (cases "?t \<ge> snd (lc_ranges c ! k)")
    case True
    then have pc: "lb_pc s' = (lb_pc s)(i := Finished)" "lb_next s' = (lb_next s)(k := Suc ?t)"
      "lb_flag s' = lb_flag s" "lb_out s' = lb_out s" "lb_exc s' = lb_exc s" "lb_aggregate s' = lb_aggregate s"
      "lb_prefix s' = lb_prefix s"
      by (simp_all add: s' set_tile_pc_def)
    have cl: "claimed c s' u \<longleftrightarrow> claimed c s u" for u
      using True by (auto simp: claimed_def pc in_range_def less_Suc_eq)
    have un: "unowned c s' u \<longleftrightarrow> unowned c s u" for u
      using none by (auto simp: unowned_def pc) (metis option.distinct(1))
    have "own_inv c s'"
      unfolding own_inv_def
    proof (intro conjI allI impI)
      fix j u assume "j < lc_participants c" "owned (lb_pc s' j) = Some u"
      then show "in_range c (lc_clusterOf c j) u" "u < lb_next s' (lc_clusterOf c j)"
        using own unfolding own_inv_def by (auto simp: pc split: if_splits intro: less_SucI)
    next
      fix j l u assume "j < lc_participants c" "l < lc_participants c" "j \<noteq> l" "owned (lb_pc s' j) = Some u"
      then show "owned (lb_pc s' l) \<noteq> Some u" using own_invD(3) [OF own, of j u l] by (auto simp: pc split: if_splits)
    next
      fix j assume "j < lc_participants c" "lb_pc s' j = Finished"
      then show "snd (lc_ranges c ! lc_clusterOf c j) \<le> lb_next s' (lc_clusterOf c j)"
        using own_invD(4) [OF own, of j] True k by (auto simp: pc split: if_splits intro: le_SucI)
    next
      fix l assume "l < length (lc_ranges c)"
      then show "fst (lc_ranges c ! l) \<le> lb_next s' l" using own by (auto simp: own_inv_def pc le_SucI)
    qed
    moreover have "flag_inv c s'" using flag by (auto simp: flag_inv_def pc cl un)
    moreover have "lb_exc s' = None \<Longrightarrow> val_inv c s'" using val by (auto simp: val_inv_def pc cl un)
    ultimately show ?thesis by (simp add: lookback_inv_def)
  next
    case False
    then have pc: "lb_pc s' = (lb_pc s)(i := CheckExc ?t)" "lb_next s' = (lb_next s)(k := Suc ?t)"
      "lb_flag s' = lb_flag s" "lb_out s' = lb_out s" "lb_exc s' = lb_exc s" "lb_aggregate s' = lb_aggregate s"
      "lb_prefix s' = lb_prefix s"
      by (simp_all add: s' set_tile_pc_def)
    have rng: "in_range c k ?t" using False first kK by (simp add: in_range_def)
    have T: "?t < lc_numTiles c" by (rule in_range_less [OF wf rng])
    have new: "\<not> claimed c s ?t" using in_range_unique [OF wf rng] by (auto simp: claimed_def)
    have cl: "claimed c s' u \<longleftrightarrow> claimed c s u \<or> u = ?t" for u
      unfolding claimed_def pc using rng by (metis fun_upd_apply less_Suc_eq)
    have free: "owned (lb_pc s j) \<noteq> Some ?t" if "j < lc_participants c" for j
      using own_invD(2) [OF own that] new by blast
    have un: "unowned c s' u \<longleftrightarrow> unowned c s u \<and> u \<noteq> ?t" for u
      using i(1) none free by (auto simp: unowned_def pc)
    have "own_inv c s'"
      unfolding own_inv_def
    proof (intro conjI allI impI)
      fix j u assume "j < lc_participants c" "owned (lb_pc s' j) = Some u"
      then show "in_range c (lc_clusterOf c j) u" "u < lb_next s' (lc_clusterOf c j)"
        using own rng k unfolding own_inv_def by (auto simp: pc split: if_splits intro: less_SucI)
    next
      fix j l u assume "j < lc_participants c" "l < lc_participants c" "j \<noteq> l" "owned (lb_pc s' j) = Some u"
      then show "owned (lb_pc s' l) \<noteq> Some u"
        using own_invD(3) [OF own, of j u l] free [of j] free [of l] by (auto simp: pc split: if_splits)
    next
      fix j assume "j < lc_participants c" "lb_pc s' j = Finished"
      then show "snd (lc_ranges c ! lc_clusterOf c j) \<le> lb_next s' (lc_clusterOf c j)"
        using own_invD(4) [OF own, of j] by (auto simp: pc split: if_splits intro: le_SucI)
    next
      fix l assume "l < length (lc_ranges c)"
      then show "fst (lc_ranges c ! l) \<le> lb_next s' l" using own by (auto simp: own_inv_def pc le_SucI)
    qed
    moreover have "flag_inv c s'"
      using flag flag_invD(2) [OF flag T new] by (auto simp: flag_inv_def pc cl un)
    moreover have "val_inv c s'" if "lb_exc s' = None"
      using val val_invD(5) [OF val T new] that by (auto simp: val_inv_def pc cl un)
    ultimately show ?thesis by (simp add: lookback_inv_def)
  qed
qed

text \<open>The owner's step, put together.\<close>

lemma move_keep:
  assumes wf: "lookback_wf c" and inv: "lookback_inv c s"
    and i: "i < lc_participants c" and t: "owned (lb_pc s i) = Some t"
    and upd: "lb_pc s' = (lb_pc s)(i := p)" "lb_next s' = lb_next s" "lb_flag s' = (lb_flag s)(t := x)"
      "lb_aggregate s' = (lb_aggregate s)(t := y)" "lb_prefix s' = (lb_prefix s)(t := z)"
    and p: "owned p = Some t \<or> p = Claim" and flag: "flag_ok (lb_flag s') p" "p = Claim \<Longrightarrow> x = PrefixAvailable"
    and out: "length (lb_out s') = length (lb_out s)"
      "\<And>j. lb_exc s' = None \<Longrightarrow> val_inv c s \<Longrightarrow> j < tile_lo c t \<or> tile_hi c t \<le> j \<Longrightarrow> lb_out s' ! j = lb_out s ! j"
    and exc: "lb_exc s' = None \<Longrightarrow> lb_exc s = None"
    and ok: "lb_exc s' = None \<Longrightarrow> val_inv c s \<Longrightarrow> val_ok c (lb_out s') p \<and>
        (p = Claim \<longrightarrow> final_out c (lb_out s') (tile_lo c t) (tile_hi c t)) \<and>
        (x \<noteq> Initialized \<longrightarrow> y = tot c (tile_lo c t) (tile_hi c t)) \<and>
        (x = PrefixAvailable \<longrightarrow> z = tot c 0 (tile_lo c t))"
  shows "lookback_inv c s'"
proof -
  have own: "own_inv c s" and flg: "flag_inv c s" and val: "lb_exc s = None \<Longrightarrow> val_inv c s"
    using inv by (simp_all add: lookback_inv_def)
  have "flag_inv c s'"
    by (rule flag_move [OF own flg i t upd(1-3) p flag(1)]) (use p flag(2) in auto)
  moreover have "val_inv c s'" if e: "lb_exc s' = None"
  proof -
    note ok' = ok [OF e val [OF exc [OF e]]]
    show ?thesis
      by (rule val_move [OF wf own val [OF exc [OF e]] i t upd p out(1) out(2) [OF e val [OF exc [OF e]]]])
        (use ok' in simp_all)
  qed
  ultimately show ?thesis using own_move(1) [OF own i t upd(1,2) p] by (simp add: lookback_inv_def)
qed

lemma owned_less: "lookback_wf c \<Longrightarrow> own_inv c s \<Longrightarrow> i < lc_participants c \<Longrightarrow> owned (lb_pc s i) = Some t \<Longrightarrow>
    t < lc_numTiles c"
  by (meson in_range_less own_invD(1))

text \<open>One hop of \<open>lookbackWalk\<close>.\<close>

lemma walk_prefix:
  assumes m: "monoid (lc_op c) (lc_identity c)" and wf: "lookback_wf c" and val: "val_inv c s"
    and k: "Suc k \<le> t" "t < lc_numTiles c" and f: "lb_flag s k = PrefixAvailable" and a: "a = tot c (tile_lo c (Suc k)) (tile_lo c t)"
  shows "lc_op c (lc_op c (lb_prefix s k) (lb_aggregate s k)) a = tot c 0 (tile_lo c t)"
proof -
  have T: "k < lc_numTiles c" "Suc k < lc_numTiles c" using k by simp_all
  have le: "tile_lo c k \<le> tile_hi c k" "tile_hi c k \<le> tile_lo c t"
    using tile_lo_le_hi [OF wf T(1)] tiles_disjoint [of k t c] k(1) by simp_all
  have "lb_prefix s k = tot c 0 (tile_lo c k)" "lb_aggregate s k = tot c (tile_lo c k) (tile_hi c k)"
    using val_invD(3,4) [OF val T(1)] f by simp_all
  moreover have "a = tot c (tile_hi c k) (tile_lo c t)" using a tile_hi_next [OF wf T(2)] by simp
  ultimately show ?thesis using tot_join [OF m] le by simp
qed

lemma walk_aggregate:
  assumes m: "monoid (lc_op c) (lc_identity c)" and wf: "lookback_wf c" and val: "val_inv c s"
    and k: "Suc k \<le> t" "t < lc_numTiles c" and f: "lb_flag s k = AggregateAvailable" and a: "a = tot c (tile_lo c (Suc k)) (tile_lo c t)"
  shows "lc_op c (lb_aggregate s k) a = tot c (tile_lo c k) (tile_lo c t)"
proof -
  have T: "k < lc_numTiles c" "Suc k < lc_numTiles c" using k by simp_all
  have le: "tile_lo c k \<le> tile_hi c k" "tile_hi c k \<le> tile_lo c t"
    using tile_lo_le_hi [OF wf T(1)] tiles_disjoint [of k t c] k(1) by simp_all
  have "lb_aggregate s k = tot c (tile_lo c k) (tile_hi c k)"
    using val_invD(3) [OF val T(1)] f by simp
  moreover have "a = tot c (tile_hi c k) (tile_lo c t)" using a tile_hi_next [OF wf T(2)] by simp
  ultimately show ?thesis using tot_join [OF m] le by simp
qed

lemma tile_lo_0: "tile_lo c 0 = 0"
  by (simp add: tile_lo_def)

lemma stay_keep:
  assumes m: "monoid (lc_op c) (lc_identity c)" and wf: "lookback_wf c" and inv: "lookback_inv c s"
    and i: "i < lc_participants c" and t: "owned (lb_pc s i) = Some t" "owned p = Some t" and s': "s' = set_tile_pc i p s"
    and alts: "(lb_pc s i = CheckExc t \<and> p = (if lb_exc s \<noteq> None then Skip t else Pass1 t (tile_lo c t) (lc_identity c))) \<or>
       (\<exists>j acc. lb_pc s i = Pass1 t j acc \<and> tile_hi c t \<le> j \<and> p = PubAgg t acc) \<or>
       (\<exists>a. lb_pc s i = Walk t 0 a \<and> p = PubPrefix t a) \<or>
       (\<exists>k a. lb_pc s i = Walk t (Suc k) a \<and> lb_flag s k = PrefixAvailable \<and>
          p = PubPrefix t (lc_op c (lc_op c (lb_prefix s k) (lb_aggregate s k)) a)) \<or>
       (\<exists>k a. lb_pc s i = Walk t (Suc k) a \<and> lb_flag s k = AggregateAvailable \<and>
          p = Walk t k (lc_op c (lb_aggregate s k) a))"
  shows "lookback_inv c s'"
proof -
  have own: "own_inv c s" and flg: "flag_inv c s" using inv by (simp_all add: lookback_inv_def)
  have T: "t < lc_numTiles c" by (rule owned_less [OF wf own i t(1)])
  have f: "flag_ok (lb_flag s) (lb_pc s i)" by (rule flag_invD(1) [OF flg i])
  have nofl: "flag_ok (lb_flag s) p" using alts f by auto
  have ok: "val_ok c (lb_out s) p" if e: "lb_exc s = None" and val: "val_inv c s"
  proof -
    have v: "val_ok c (lb_out s) (lb_pc s i)" by (rule val_invD(2) [OF val i])
    have "p = Pass1 t (tile_lo c t) (lc_identity c)" if "lb_pc s i = CheckExc t"
      using alts that by (simp add: e)
    with alts consider
      (a) "lb_pc s i = CheckExc t" "p = Pass1 t (tile_lo c t) (lc_identity c)"
    | (b) j acc where "lb_pc s i = Pass1 t j acc" "tile_hi c t \<le> j" "p = PubAgg t acc"
    | (c) a where "lb_pc s i = Walk t 0 a" "p = PubPrefix t a"
    | (d) k a where "lb_pc s i = Walk t (Suc k) a" "lb_flag s k = PrefixAvailable"
        "p = PubPrefix t (lc_op c (lc_op c (lb_prefix s k) (lb_aggregate s k)) a)"
    | (e) k a where "lb_pc s i = Walk t (Suc k) a" "lb_flag s k = AggregateAvailable"
        "p = Walk t k (lc_op c (lb_aggregate s k) a)"
      by blast
    then show ?thesis
    proof cases
      case a
      then show ?thesis using v tile_lo_le_hi [OF wf T] by (auto simp: local_out_def)
    next
      case b
      then show ?thesis using v by auto
    next
      case c
      then show ?thesis using v by (simp add: tile_lo_0)
    next
      case (d k a)
      then show ?thesis using v f walk_prefix [OF m wf val _ T d(2)] by simp
    next
      case (e k a)
      then show ?thesis using v f walk_aggregate [OF m wf val _ T e(2)] by simp
    qed
  qed
  show ?thesis
    by (rule move_keep [OF wf inv i t(1), of _ p "lb_flag s t" "lb_aggregate s t" "lb_prefix s t"])
      (use t(2) nofl ok val_invD(3,4) [OF _ T] in \<open>auto simp: s' set_tile_pc_def\<close>)
qed

lemma lookback_keep:
  assumes m: "monoid (lc_op c) (lc_identity c)" and wf: "lookback_wf c" and inv: "lookback_inv c s"
    and step: "lookback_step c s a = Some s'"
  shows "lookback_inv c s'"
proof -
  have own: "own_inv c s" and flg: "flag_inv c s" using inv by (simp_all add: lookback_inv_def)
  note less = owned_less [OF wf own] and f = flag_invD(1) [OF flg]
  note keep = move_keep [OF wf inv]
  from step show ?thesis
  proof (cases rule: lookback_cases)
    case (claim i)
    show ?thesis by (rule claim_keep [OF wf inv claim(1,2) refl claim(3)])
  next
    case (stay i t p)
    show ?thesis by (rule stay_keep [OF m wf inv stay])
  next
    case (pass1 i t j acc)
    have t: "owned (lb_pc s i) = Some t" using pass1(2) by simp
    let ?v = "lc_op c acc (source c s j)"
    have hi: "tile_hi c t \<le> length (lc_in c)" by (rule tile_hi_le)
    have ok: "val_ok c (lb_out s') (Pass1 t (Suc j) ?v) \<and> tile_lo c t \<le> j" if val: "val_inv c s"
    proof -
      have v: "tile_lo c t \<le> j" "acc = tot c (tile_lo c t) j" "local_out c (lb_out s) t (tile_lo c t) j"
        "raw_out c (lb_out s) j (tile_hi c t)"
        using val_invD(2) [OF val pass1(1)] pass1(2) by simp_all
      have "source c s j = lc_in c ! j" using v(4) pass1(3) by (auto simp: source_def raw_out_def)
      then have "?v = tot c (tile_lo c t) (Suc j)" using v(1,2) by (simp add: tot_snoc)
      moreover have "length (lb_out s) = length (lc_in c)" by (rule val_invD(1) [OF val])
      ultimately show ?thesis using v pass1(3,4) hi
        by (auto simp: set_tile_pc_def local_out_def raw_out_def nth_list_update less_Suc_eq)
    qed
    show ?thesis
      by (rule keep [OF pass1(1) t, of _ "Pass1 t (Suc j) ?v" "lb_flag s t" "lb_aggregate s t" "lb_prefix s t"])
        (use pass1 f [OF pass1(1)] ok val_invD(3,4) [of c s, OF _ less [OF pass1(1) t]] in \<open>auto simp: set_tile_pc_def nth_list_update\<close>)
  next
    case (pubAgg i t acc)
    have t: "owned (lb_pc s i) = Some t" using pubAgg(2) by simp
    show ?thesis
      by (rule keep [OF pubAgg(1) t, of _ "if t = 0 then PubPrefix t (lc_identity c) else Walk t t (lc_identity c)"
            AggregateAvailable acc "lb_prefix s t"])
        (use pubAgg val_invD(2) [of c s, OF _ pubAgg(1), unfolded pubAgg(2)] in \<open>auto simp: set_tile_pc_def tile_lo_0 split: if_splits\<close>)
  next
    case (pubPrefix i t v)
    have t: "owned (lb_pc s i) = Some t" using pubPrefix(2) by simp
    note T = less [OF pubPrefix(1) t]
    have fin: "final_out c (lb_out s) a b" if "local_out c (lb_out s) 0 a b" for a b
      using that by (simp add: local_out_def final_out_def tile_lo_0)
    show ?thesis
      by (rule keep [OF pubPrefix(1) t, of _ "if t > 0 then Pass2 t (tile_lo c t) v else Claim" PrefixAvailable
            "lb_aggregate s t" v])
        (use pubPrefix f [OF pubPrefix(1)] val_invD(2) [of c s, OF _ pubPrefix(1), unfolded pubPrefix(2)]
           val_invD(3) [of c s, OF _ T] fin tile_lo_le_hi [OF wf T]
         in \<open>auto simp: set_tile_pc_def publish_prefix_def final_out_def tile_lo_0 split: if_splits\<close>)
  next
    case (pass2 i t j v)
    have t: "owned (lb_pc s i) = Some t" using pass2(2) by simp
    let ?v = "lc_op c v (lb_out s ! j)"
    have hi: "tile_hi c t \<le> length (lc_in c)" by (rule tile_hi_le)
    have ok: "val_ok c (lb_out s') (Pass2 t (Suc j) v) \<and> tile_lo c t \<le> j" if val: "val_inv c s"
    proof -
      have w: "tile_lo c t \<le> j" "v = tot c 0 (tile_lo c t)" "final_out c (lb_out s) (tile_lo c t) j"
        "local_out c (lb_out s) t j (tile_hi c t)"
        using val_invD(2) [OF val pass2(1)] pass2(2) by simp_all
      have "lb_out s ! j = tot c (tile_lo c t) (Suc j)" using w(4) pass2(3) by (simp add: local_out_def)
      then have "?v = tot c 0 (Suc j)" using tot_join [OF m, of 0 "tile_lo c t" "Suc j"] w(1,2) by simp
      moreover have "length (lb_out s) = length (lc_in c)" by (rule val_invD(1) [OF val])
      ultimately show ?thesis using w pass2(3,4) hi
        by (auto simp: set_tile_pc_def local_out_def final_out_def nth_list_update less_Suc_eq)
    qed
    show ?thesis
      by (rule keep [OF pass2(1) t, of _ "Pass2 t (Suc j) v" "lb_flag s t" "lb_aggregate s t" "lb_prefix s t"])
        (use pass2 f [OF pass2(1)] ok val_invD(3,4) [of c s, OF _ less [OF pass2(1) t]] in \<open>auto simp: set_tile_pc_def nth_list_update\<close>)
  next
    case (pass2End i t j v)
    have t: "owned (lb_pc s i) = Some t" using pass2End(2) by simp
    note T = less [OF pass2End(1) t]
    show ?thesis
      by (rule keep [OF pass2End(1) t, of _ Claim "lb_flag s t" "lb_aggregate s t" "lb_prefix s t"])
        (use pass2End f [OF pass2End(1)] val_invD(2) [of c s, OF _ pass2End(1), unfolded pass2End(2)]
          val_invD(3,4) [of c s, OF _ T] in \<open>auto simp: set_tile_pc_def final_out_def\<close>)
  next
    case (giveUp i t)
    have t: "owned (lb_pc s i) = Some t" using giveUp(2) by auto
    show ?thesis
      by (rule keep [OF giveUp(1) t, of _ Claim PrefixAvailable "lb_aggregate s t" "lc_identity c"])
        (use giveUp val_invD(2) [of c s, OF _ giveUp(1)] in \<open>auto simp: set_tile_pc_def publish_prefix_def\<close>)
  next
    case (throw i t)
    show ?thesis
      by (rule keep [OF throw(1,2), of _ "FailTile t" "lb_flag s t" "lb_aggregate s t" "lb_prefix s t"])
        (use throw(4) in \<open>auto simp: set_tile_pc_def split: option.splits\<close>)
  qed
qed

end
