(* ===== verification/LookbackScan.thy ===== *)
theory LookbackScan
  imports Lookback
begin

text \<open>
  Progress and the properties of the lookback scan: every step of \<open>Lookback\<close> decreases a measure and
  a state in which a slot is not done has a step, so each run ends; at its end the tiles hold the
  serial scan.
\<close>

section \<open>Every step makes progress\<close>

fun tile_rank :: "'a lookback_cfg \<Rightarrow> 'a tile_pc \<Rightarrow> nat" where
  "tile_rank c Claim = 1"
| "tile_rank c (CheckExc t) = 2 * lc_tileElems c + lc_numTiles c + 9"
| "tile_rank c (Skip t) = 2"
| "tile_rank c (Pass1 t j acc) = (tile_hi c t - j) + lc_tileElems c + lc_numTiles c + 8"
| "tile_rank c (PubAgg t acc) = lc_tileElems c + lc_numTiles c + 7"
| "tile_rank c (Walk t k a) = lc_tileElems c + k + 5"
| "tile_rank c (PubPrefix t v) = lc_tileElems c + 4"
| "tile_rank c (Pass2 t j v) = (tile_hi c t - j) + 3"
| "tile_rank c (FailTile t) = 2"
| "tile_rank c Finished = 0"

definition tile_work :: "'a lookback_cfg \<Rightarrow> nat" where
  "tile_work c = 2 * lc_tileElems c + lc_numTiles c + 10"

definition lookback_fuel :: "'a lookback_cfg \<Rightarrow> 'a lookback \<Rightarrow> nat" where
  "lookback_fuel c s = (\<Sum>k < length (lc_ranges c). (snd (lc_ranges c ! k) - lb_next s k) * tile_work c) +
     (\<Sum>i < lc_participants c. tile_rank c (lb_pc s i))"

lemma rank_upd:
  assumes "i < lc_participants c" "lb_pc s' = (lb_pc s)(i := p)"
  shows "(\<Sum>j < lc_participants c. tile_rank c (lb_pc s' j)) + tile_rank c (lb_pc s i)
    = (\<Sum>j < lc_participants c. tile_rank c (lb_pc s j)) + tile_rank c p"
proof -
  have "(\<lambda>j. tile_rank c (lb_pc s' j)) = (\<lambda>j. tile_rank c (lb_pc s j))(i := tile_rank c p)"
    using assms(2) by auto
  then show ?thesis
    using sum_fun_upd_nat [OF assms(1), of "\<lambda>j. tile_rank c (lb_pc s j)" "tile_rank c p"] by (simp only:)
qed

lemma move_fuel:
  assumes "i < lc_participants c" "lb_pc s' = (lb_pc s)(i := p)" "lb_next s' = lb_next s"
    "tile_rank c p < tile_rank c (lb_pc s i)"
  shows "lookback_fuel c s' < lookback_fuel c s"
  using rank_upd [OF assms(1,2)] assms(3,4) by (simp add: lookback_fuel_def)

lemma tile_width: "tile_hi c t - tile_lo c t \<le> lc_tileElems c"
  unfolding tile_hi_def tile_lo_def Let_def by (split if_split) linarith

lemma lookback_step_fuel:
  assumes wf: "lookback_wf c" and inv: "lookback_inv c s" and step: "lookback_step c s a = Some s'"
  shows "lookback_fuel c s' < lookback_fuel c s"
proof -
  have own: "own_inv c s" using inv by (simp add: lookback_inv_def)
  from step show ?thesis
  proof (cases rule: lookback_cases)
    case (claim i)
    let ?k = "lc_clusterOf c i" and ?r = "lc_ranges c"
    have k: "?k < length ?r" by (rule lookback_wfD(4) [OF wf claim(1)])
    define f where "f = (\<lambda>k. (snd (?r ! k) - lb_next s k) * tile_work c)"
    have f': "(\<lambda>k. (snd (?r ! k) - lb_next s' k) * tile_work c)
      = f(?k := (snd (?r ! ?k) - Suc (lb_next s ?k)) * tile_work c)"
      by (auto simp: f_def claim(3) set_tile_pc_def)
    have sums: "(\<Sum>k < length ?r. (snd (?r ! k) - lb_next s' k) * tile_work c) + f ?k
      = (\<Sum>k < length ?r. f k) + (snd (?r ! ?k) - Suc (lb_next s ?k)) * tile_work c"
      using sum_fun_upd_nat [OF k, of f] unfolding f' by simp
    have upd: "lb_pc s' = (lb_pc s)(i := if lb_next s ?k \<ge> snd (?r ! ?k) then Finished else CheckExc (lb_next s ?k))"
      by (simp add: claim(3) set_tile_pc_def)
    note ranks = rank_upd [OF claim(1) upd]
    show ?thesis
    proof (cases "lb_next s ?k \<ge> snd (?r ! ?k)")
      case True
      then show ?thesis using sums ranks claim(2) by (simp add: lookback_fuel_def f_def)
    next
      case False
      then have "snd (?r ! ?k) - lb_next s ?k = Suc (snd (?r ! ?k) - Suc (lb_next s ?k))" by simp
      then have "f ?k = (snd (?r ! ?k) - Suc (lb_next s ?k)) * tile_work c + tile_work c" by (simp add: f_def)
      then show ?thesis using sums ranks claim(2) False by (simp add: lookback_fuel_def f_def tile_work_def)
    qed
  next
    case (stay i t p)
    from stay(5) have "tile_rank c p < tile_rank c (lb_pc s i)"
      using tile_width [of c t] by (auto split: if_splits)
    then show ?thesis using stay(4) by (intro move_fuel [OF stay(1)]) (auto simp: set_tile_pc_def)
  next
    case (pass1 i t j acc)
    then show ?thesis by (intro move_fuel [OF pass1(1), where p = "Pass1 t (Suc j) (lc_op c acc (source c s j))"])
        (auto simp: set_tile_pc_def)
  next
    case (pubAgg i t acc)
    then have "t < lc_numTiles c" using owned_less [OF wf own pubAgg(1)] by simp
    with pubAgg show ?thesis
      by (intro move_fuel [OF pubAgg(1), where p = "if t = 0 then PubPrefix t (lc_identity c) else Walk t t (lc_identity c)"])
        (auto simp: set_tile_pc_def)
  next
    case (pubPrefix i t v)
    then show ?thesis using tile_width [of c t]
      by (intro move_fuel [OF pubPrefix(1), where p = "if t > 0 then Pass2 t (tile_lo c t) v else Claim"])
        (auto simp: set_tile_pc_def publish_prefix_def)
  next
    case (pass2 i t j v)
    then show ?thesis by (intro move_fuel [OF pass2(1), where p = "Pass2 t (Suc j) v"]) (auto simp: set_tile_pc_def)
  next
    case (pass2End i t j v)
    then show ?thesis by (intro move_fuel [OF pass2End(1), where p = Claim]) (auto simp: set_tile_pc_def)
  next
    case (giveUp i t)
    then show ?thesis
      by (intro move_fuel [OF giveUp(1), where p = Claim]) (auto simp: set_tile_pc_def publish_prefix_def)
  next
    case (throw i t)
    then show ?thesis by (intro move_fuel [OF throw(1), where p = "FailTile t"]) (auto simp: set_tile_pc_def)
  qed
qed

text \<open>A slot can move, has finished, or waits for the total of a tile before its own.\<close>

lemma slot_moves:
  assumes "i < lc_participants c"
  obtains (moves) s' where "lookback_step c s (Go i) = Some s'"
  | (finished) "lb_pc s i = Finished"
  | (waits) t k a where "lb_pc s i = Walk t (Suc k) a" "lb_flag s k = Initialized"
proof (cases "tile_go c i s")
  case None
  show ?thesis
  proof (cases "lb_pc s i")
    case (Walk t k a)
    then show ?thesis using None waits by (cases k) (auto simp: tile_go_def walk_step_def split: tile_flag.splits)
  qed (use None finished in \<open>auto simp: tile_go_def walk_step_def Let_def split: if_splits\<close>)
qed (use assms moves in \<open>simp add: lookback_step_def\<close>)

lemma lookback_progress:
  assumes wf: "lookback_wf c" and inv: "lookback_inv c s" and "\<not> all_finished c s"
  shows "\<exists>a s'. lookback_step c s a = Some s'"
proof (rule ccontr)
  assume stuck: "\<not> ?thesis"
  have own: "own_inv c s" and flg: "flag_inv c s" using inv by (simp_all add: lookback_inv_def)
  define Q where "Q t \<longleftrightarrow> (\<exists>i k a. i < lc_participants c \<and> lb_pc s i = Walk t (Suc k) a \<and> lb_flag s k = Initialized)" for t
  have waits: "lb_pc s i = Finished \<or> (\<exists>t k a. lb_pc s i = Walk t (Suc k) a \<and> lb_flag s k = Initialized)"
    if "i < lc_participants c" for i
    by (rule slot_moves [OF that, of s]) (use stuck in blast)+
  obtain i where "i < lc_participants c" "lb_pc s i \<noteq> Finished" using assms(3) by (auto simp: all_finished_def)
  then have "\<exists>t. Q t" using waits unfolding Q_def by blast
  then obtain t where "Q t" and least: "\<And>u. u < t \<Longrightarrow> \<not> Q u" using exists_least_iff [of Q] by blast
  then obtain i k a where i: "i < lc_participants c" "lb_pc s i = Walk t (Suc k) a" "lb_flag s k = Initialized"
    unfolding Q_def by blast
  have kt: "k < t" using flag_invD(1) [OF flg i(1)] i(2) by simp
  have T: "k < lc_numTiles c" using owned_less [OF wf own i(1), of t] i(2) kt by simp
  show False
  proof (cases "claimed c s k")
    case True
    then obtain j where j: "j < lc_participants c" "owned (lb_pc s j) = Some k"
      using flag_invD(3) [OF flg T] i(3) by (auto simp: unowned_def)
    then obtain k' a' where "lb_pc s j = Walk k (Suc k') a'" using waits [OF j(1)] by auto
    then show False using flag_invD(1) [OF flg j(1)] i(3) by simp
  next
    case False
    obtain l where l: "in_range c l k" using in_range_exists [OF wf T] by blast
    then have "lb_next s l \<le> k" using False by (meson claimed_def linorder_not_le)
    obtain j where j: "j < lc_participants c" "lc_clusterOf c j = l"
      using lookback_wfD(5) [OF wf, of l] l by (auto simp: in_range_def)
    have "lb_pc s j \<noteq> Finished" using own_invD(4) [OF own j(1)] j(2) l \<open>lb_next s l \<le> k\<close> by (auto simp: in_range_def)
    then obtain u k' a' where u: "lb_pc s j = Walk u (Suc k') a'" "lb_flag s k' = Initialized"
      using waits [OF j(1)] by blast
    then have "u < lb_next s l" using own j unfolding own_inv_def by fastforce
    then have "u < t" using kt \<open>lb_next s l \<le> k\<close> by linarith
    moreover have "Q u" using u j(1) unfolding Q_def by blast
    ultimately show False using least by blast
  qed
qed

section \<open>The properties\<close>

definition lookback_start :: "'a lookback_cfg \<Rightarrow> 'a lookback \<Rightarrow> bool" where
  "lookback_start c s \<longleftrightarrow> (\<exists>def out. s = lookback_init c def out \<and> length out = length (lc_in c))"

lemma lookback_start_inv:
  assumes "lookback_wf c" "lookback_start c s"
  shows "lookback_inv c s"
proof -
  obtain d out where s: "s = lookback_init c d out" "length out = length (lc_in c)"
    using assms(2) by (auto simp: lookback_start_def)
  have "\<not> claimed c s t" for t by (auto simp: claimed_def in_range_def s(1) lookback_init_def)
  then show ?thesis using s
    by (simp add: lookback_inv_def own_inv_def flag_inv_def val_inv_def lookback_init_def raw_out_def)
qed

interpretation lookback: terminating_system "lookback_step c"
  "\<lambda>s. monoid (lc_op c) (lc_identity c) \<and> lookback_wf c \<and> lookback_start c s"
  "\<lambda>s. monoid (lc_op c) (lc_identity c) \<and> lookback_wf c \<and> lookback_inv c s" "all_finished c" "lookback_fuel c" for c
  by unfold_locales (use lookback_start_inv lookback_keep lookback_step_fuel lookback_progress in blast)+

lemma resolve_clusters_length: "resolve_clusters probe cpuIds = Some ids \<Longrightarrow> length ids = length cpuIds"
  by (auto simp: resolve_clusters_def Let_def split: if_splits)

lemma initScanScratch_clusters:
  assumes "sx_useHierarchical (initScanScratch ops probe ccds cpuIds P)" "P \<le> length cpuIds"
  shows "\<exists>K. 0 < K \<and> length (sx_clusterIdOfSlot (initScanScratch ops probe ccds cpuIds P)) = P \<and>
    (\<forall>i\<in>set (sx_clusterIdOfSlot (initScanScratch ops probe ccds cpuIds P)). i < K) \<and>
    sx_clusterSlotCount (initScanScratch ops probe ccds cpuIds P)
      = slot_counts (sx_clusterIdOfSlot (initScanScratch ops probe ccds cpuIds P)) K"
proof -
  let ?K = "unat (cr_numClusters (cp_clusters probe))"
  from assms(1) obtain ids where ids: "resolve_clusters probe (take P cpuIds) = Some ids"
    "\<not> (\<exists>k\<in>set ids. ?K \<le> k)" "2 \<le> ?K"
    "sx_clusterIdOfSlot (initScanScratch ops probe ccds cpuIds P) = ids"
    "sx_clusterSlotCount (initScanScratch ops probe ccds cpuIds P) = slot_counts ids ?K"
    by (auto simp: initScanScratch_def Let_def split: if_splits option.splits)
  have "length ids = P" using resolve_clusters_length [OF ids(1)] assms(2) by simp
  then show ?thesis using ids(2-5) by (intro exI [of _ ?K]) (simp add: linorder_not_le)
qed

lemma lookback_of_wf:
  assumes "xs \<noteq> []" "0 < E" "length xs + E \<le> SIZE_MAX" "0 < P" "P \<le> length cpuIds"
    and "tile_count (length xs) E * P + P < 2 ^ 62"
  shows "lookback_wf (lookback_of (initScanScratch ops probe ccds cpuIds P) f e xs alias P E)"
proof (cases "sx_useHierarchical (initScanScratch ops probe ccds cpuIds P)")
  case True
  from initScanScratch_clusters [OF True assms(5)] obtain K where K:
    "0 < K" "length (sx_clusterIdOfSlot (initScanScratch ops probe ccds cpuIds P)) = P"
    "\<forall>i\<in>set (sx_clusterIdOfSlot (initScanScratch ops probe ccds cpuIds P)). i < K"
    "sx_clusterSlotCount (initScanScratch ops probe ccds cpuIds P)
      = slot_counts (sx_clusterIdOfSlot (initScanScratch ops probe ccds cpuIds P)) K" by blast
  show ?thesis unfolding lookback_of_def
    by (rule lookback_setup_wf [where K = K]) (use assms K in auto)
next
  case False
  then show ?thesis unfolding lookback_of_def
    by (intro lookback_setup_wf [where K = 1]) (use assms in auto)
qed

lemma chain_fuel: "interval_chain rs lo hi \<Longrightarrow> (\<Sum>k < length rs. snd (rs ! k) - fst (rs ! k)) = hi - lo"
proof (induction rs lo hi rule: interval_chain.induct)
  case (2 a b rs lo hi)
  have "(\<Sum>k < length ((a, b) # rs). snd (((a, b) # rs) ! k) - fst (((a, b) # rs) ! k))
    = (b - a) + (\<Sum>k < length rs. snd (rs ! k) - fst (rs ! k))"
    by (simp add: sum.lessThan_Suc_shift del: sum.lessThan_Suc)
  then show ?case using 2 chain_le [of rs b hi] by simp
qed simp

lemma lookback_start_fuel:
  assumes "lookback_wf c"
  shows "lookback_fuel c (lookback_init c def out)
    \<le> lc_numTiles c * (2 * lc_tileElems c + lc_numTiles c + 10) + lc_participants c"
  using chain_fuel [OF lookback_wfD(3) [OF assms]]
  by (simp add: lookback_fuel_def lookback_init_def tile_work_def sum_distrib_right [symmetric])

text \<open>What the invariant says at the end.\<close>

lemma finished_claimed:
  assumes wf: "lookback_wf c" and own: "own_inv c s" and fin: "all_finished c s" and t: "t < lc_numTiles c"
  shows "claimed c s t \<and> unowned c s t"
proof -
  obtain k where k: "in_range c k t" using in_range_exists [OF wf t] by blast
  then obtain i where i: "i < lc_participants c" "lc_clusterOf c i = k"
    using lookback_wfD(5) [OF wf, of k] by (auto simp: in_range_def)
  have "snd (lc_ranges c ! k) \<le> lb_next s k" using own_invD(4) [OF own i(1)] fin i by (simp add: all_finished_def)
  then have "claimed c s t" using k unfolding claimed_def in_range_def by fastforce
  then show ?thesis using fin by (simp add: unowned_def all_finished_def)
qed

lemma finished_scan:
  assumes m: "monoid (lc_op c) (lc_identity c)" and wf: "lookback_wf c" and inv: "lookback_inv c s"
    and fin: "all_finished c s" and exc: "lb_exc s = None"
  shows "lb_out s = fst (serial_scan (lc_op c) (lc_identity c) (lc_in c)) \<and>
    lookback_result c False s = Inr (snd (serial_scan (lc_op c) (lc_identity c) (lc_in c)))"
proof -
  have own: "own_inv c s" and flg: "flag_inv c s" and val: "val_inv c s"
    using inv exc by (simp_all add: lookback_inv_def)
  note cu = finished_claimed [OF wf own fin]
  have tot: "tot c 0 k = foldl (lc_op c) (lc_identity c) (take k (lc_in c))" if "k \<le> length (lc_in c)" for k
  proof -
    have "map (\<lambda>i. lc_in c ! i) [0..<k] = take k (lc_in c)" by (rule nth_equalityI) (use that in simp_all)
    then show ?thesis by (simp add: tot_def)
  qed
  have out: "lb_out s ! j = tot c 0 (Suc j)" if j: "j < length (lc_in c)" for j
  proof -
    obtain t where t: "t < lc_numTiles c" "tile_lo c t \<le> j" "j < tile_hi c t" using in_tile [OF wf j] by blast
    then show ?thesis using val_invD(6) [OF val t(1)] cu [OF t(1)] by (simp add: final_out_def)
  qed
  have "lb_out s = map (\<lambda>i. foldl (lc_op c) (lc_identity c) (take (Suc i) (lc_in c))) [0..<length (lc_in c)]"
    by (rule nth_equalityI) (use val_invD(1) [OF val] out tot in auto)
  moreover have "0 < lc_numTiles c" using wf by (cases "lc_numTiles c") (auto simp: lookback_wf_def)
  then have T: "lc_numTiles c - 1 < lc_numTiles c" by simp
  have fp: "lb_flag s (lc_numTiles c - 1) = PrefixAvailable"
    using flag_invD(3) [OF flg T] cu [OF T] by simp
  have "lc_op c (lb_prefix s (lc_numTiles c - 1)) (lb_aggregate s (lc_numTiles c - 1)) = tot c 0 (length (lc_in c))"
    using val_invD(3,4) [OF val T] fp tot_join [OF m, of 0 "tile_lo c (lc_numTiles c - 1)" "length (lc_in c)"]
      tile_hi_last [OF wf] tile_lo_less [OF wf T] by simp
  ultimately show ?thesis using exc tot [of "length (lc_in c)"] by (simp add: lookback_result_def serial_scan_foldl)
qed

text \<open>
  C35. The lookback scan is the serial scan. For an associative combiner with its identity, on the
  tile size of the entry and the pool's slot tables, in every interleaving: when all slots have
  finished and nothing threw, the output array and the returned total are those of the serial loop,
  also when the output is the input array; a stop requested by the end of the call replaces the total
  by the identity, and the output is complete all the same. Otherwise the first exception is rethrown.
\<close>

theorem lookback_is_serial:
  assumes "monoid f e"
    and "runInclusiveScanLookback (length xs) (length out) sizeofT P l2KibPerCore fallThrough = Tiles E"
    and "length xs + E \<le> SIZE_MAX" and "P \<le> length cpuIds" and "tile_count (length xs) E * P + P < 2 ^ 62"
    and "c = lookback_of (initScanScratch ops probe ccds cpuIds P) f e xs alias P E"
    and "run (lookback_step c) (lookback_init c def out) acts = Some t" and "all_finished c t"
  shows "case lb_exc t of Some k \<Rightarrow> lookback_result c stopped t = Inl k
    | None \<Rightarrow> (lb_out t, lookback_result c stopped t) =
        (case serial_scan f e xs of (ys, r) \<Rightarrow> (ys, Inr (if stopped then e else r)))"
proof -
  have e: "xs \<noteq> []" "length out = length xs" "0 < E" "0 < P"
    using assms(2) by (auto simp: runInclusiveScanLookback_def Let_def split: if_splits)
  have wf: "lookback_wf c" unfolding assms(6) by (rule lookback_of_wf [OF e(1,3) assms(3) e(4) assms(4,5)])
  have c: "lc_op c = f" "lc_identity c = e" "lc_in c = xs"
    by (simp_all add: assms(6) lookback_of_def lookback_setup_def Let_def)
  have m: "monoid (lc_op c) (lc_identity c)" using assms(1) c by simp
  have "lookback_start c (lookback_init c def out)" using e(2) c by (auto simp: lookback_start_def)
  with m wf lookback.run_inv [OF _ assms(7)] have inv: "lookback_inv c t" by blast
  show ?thesis
    using finished_scan [OF m wf inv assms(8)] c by (auto simp: lookback_result_def split: option.splits prod.splits)
qed

text \<open>Three elements of 64 KiB each on two slots; the combiner does not commute.\<close>

definition three_tiles :: "nat list lookback_cfg" where
  "three_tiles = lookback_of (initScanScratch nat_bias no_probe [] [0, 1] 2) (@) [] [[7], [8], [9]] True 2 1"

definition three_tiles_run :: "lookback_act list" where
  "three_tiles_run = [Go 0, Go 1, Go 1, Go 1, Go 1, Go 1, Go 0, Go 0, Go 0, Go 0, Go 1, Go 1, Go 1, Go 0,
     Go 0, Go 0, Go 0, Go 0, Go 0, Go 0, Go 0, Go 0, Go 0, Go 1, Go 1, Go 0, Go 1]"

lemma three_tiles_eq:
  "three_tiles = \<lparr> lc_op = (@), lc_identity = [], lc_in = [[7], [8], [9]], lc_alias = True, lc_participants = 2,
     lc_tileElems = 1, lc_numTiles = 3, lc_ranges = [(0, 3)], lc_clusterOf = (\<lambda>_. 0) \<rparr>"
  by (simp add: three_tiles_def lookback_of_def lookback_setup_def tile_count_def initScanScratch_def Let_def
      w64_def SIZE_MAX_def)

lemma three_tiles_result:
  "case run (lookback_step three_tiles) (lookback_init three_tiles [] [[], [], []]) three_tiles_run of None \<Rightarrow> False
   | Some t \<Rightarrow> lb_pc t 0 = Finished \<and> lb_pc t 1 = Finished \<and> lb_exc t = None"
  by (simp add: three_tiles_run_def three_tiles_eq lookback_init_def lookback_step_def tile_go_def walk_step_def set_tile_pc_def
      publish_prefix_def source_def tile_lo_def tile_hi_def Let_def)

theorem lookback_is_serial_witness:
  "\<exists>t. run (lookback_step three_tiles) (lookback_init three_tiles [] [[], [], []]) three_tiles_run = Some t \<and>
    lb_out t = [[7], [7, 8], [7, 8, 9]] \<and> lookback_result three_tiles False t = Inr [7, 8, 9]"
proof -
  obtain t where t: "run (lookback_step three_tiles) (lookback_init three_tiles [] [[], [], []]) three_tiles_run = Some t"
    "lb_pc t 0 = Finished" "lb_pc t 1 = Finished" "lb_exc t = None"
    using three_tiles_result by (auto split: option.splits)
  have fin: "all_finished three_tiles t"
    using t(2,3) by (simp add: all_finished_def three_tiles_eq less_2_cases_iff)
  have entry: "runInclusiveScanLookback (length [[7], [8], [9 :: nat]]) (length [[], [], [] :: nat list]) 65536 2 512 False = Tiles 1"
    by (simp add: runInclusiveScanLookback_def tile_elems_def kMinTileBytes_def kFallbackL2Bytes_def tile_count_def
        Let_def w64_def SIZE_MAX_def)
  have "monoid (@) ([] :: nat list)" by (simp add: monoid_def)
  from lookback_is_serial [OF this entry _ _ _ three_tiles_def t(1) fin] t(1,4)
  show ?thesis by (simp add: tile_count_def w64_def SIZE_MAX_def Let_def)
qed

text \<open>
  C36. For a combiner that is associative with its identity the lookback scan always returns: at most \<open>T * (2 * E + T + 10) + P\<close> steps for \<open>T\<close> tiles of
  \<open>E\<close> elements and \<open>P\<close> slots, and every partial run, whatever the combiner threw in it, extends to
  one in which all slots have finished; no slot waits for a tile that no one will publish, in one
  cluster or in several.
\<close>

theorem lookback_terminates:
  assumes "monoid f e"
    and "runInclusiveScanLookback (length xs) (length out) sizeofT P l2KibPerCore fallThrough = Tiles E"
    and "length xs + E \<le> SIZE_MAX" and "P \<le> length cpuIds" and "tile_count (length xs) E * P + P < 2 ^ 62"
    and "c = lookback_of (initScanScratch ops probe ccds cpuIds P) f e xs alias P E"
    and "run (lookback_step c) (lookback_init c def out) acts = Some t"
  shows "length acts \<le> tile_count (length xs) E * (2 * E + tile_count (length xs) E + 10) + P \<and>
    (\<exists>bs u. run (lookback_step c) (lookback_init c def out) (acts @ bs) = Some u \<and> all_finished c u)"
proof -
  have e: "xs \<noteq> []" "length out = length xs" "0 < E" "0 < P"
    using assms(2) by (auto simp: runInclusiveScanLookback_def Let_def split: if_splits)
  have wf: "lookback_wf c" unfolding assms(6) by (rule lookback_of_wf [OF e(1,3) assms(3) e(4) assms(4,5)])
  have c: "lc_op c = f" "lc_identity c = e" "lc_in c = xs" "lc_participants c = P" "lc_tileElems c = E"
    "lc_numTiles c = tile_count (length xs) E"
    by (simp_all add: assms(6) lookback_of_def lookback_setup_def Let_def)
  have s: "monoid (lc_op c) (lc_identity c) \<and> lookback_wf c \<and> lookback_start c (lookback_init c def out)"
    using assms(1) e(2) c wf by (auto simp: lookback_start_def)
  from lookback.run_bounded [OF s assms(7)] lookback_start_fuel [OF wf, of def out] lookback.run_completes [OF s assms(7)]
  show ?thesis using c by simp
qed

theorem lookback_terminates_witness:
  "\<exists>bs u. run (lookback_step three_tiles) (lookback_init three_tiles [] [[], [], []]) ([Go 0, Go 1, Go 1, Throw 1] @ bs) = Some u
    \<and> all_finished three_tiles u"
proof -
  have "run (lookback_step three_tiles) (lookback_init three_tiles [] [[], [], []]) [Go 0, Go 1, Go 1, Throw 1] \<noteq> None"
    by (simp add: three_tiles_eq lookback_init_def lookback_step_def tile_go_def walk_step_def tile_throw_def set_tile_pc_def
        tile_lo_def tile_hi_def Let_def)
  then obtain t where t: "run (lookback_step three_tiles) (lookback_init three_tiles [] [[], [], []])
      [Go 0, Go 1, Go 1, Throw 1] = Some t" by blast
  have entry: "runInclusiveScanLookback (length [[7], [8], [9 :: nat]]) (length [[], [], [] :: nat list]) 65536 2 512 False = Tiles 1"
    by (simp add: runInclusiveScanLookback_def tile_elems_def kMinTileBytes_def kFallbackL2Bytes_def tile_count_def
        Let_def w64_def SIZE_MAX_def)
  have "monoid (@) ([] :: nat list)" by (simp add: monoid_def)
  from lookback_terminates [OF this entry _ _ _ three_tiles_def t]
  show ?thesis by (simp add: tile_count_def w64_def SIZE_MAX_def)
qed

end
