(* ===== verification/Plex.thy ===== *)
theory Plex
  imports Job
begin

text \<open>
  The plex (\<open>runPlex\<close>, \<open>runPlexInline\<close> and \<open>runPlexParallel\<close> of \<open>thread_pool.h\<close>,
  \<open>plex_state.h\<close>): the slots run the phases of a computation in lockstep. The producer runs the
  hook of a phase, publishes the phase, runs its own slice and joins on the others; the workers
  wait for a phase, run their slice and stamp it. A slot's chunk is \<open>slotRange\<close>.

  A step is one atomic operation of one slot or one call of the phase function or of the hook. A
  failure stores the exception and the cancellation flag in one step, the producer's check reads
  the token and the flag in one; no other slot can tell the difference. \<open>px_hooks\<close> and \<open>px_ran\<close>
  record the phases whose hook returned and the phases each slot's slice returned from. The epochs
  \<open>epochBase + p\<close> are natural numbers: \<open>plex_epochs\<close> is the guard that keeps the stored \<open>uint64_t\<close>
  from wrapping within a call of fewer than 1024 phases.
\<close>

section \<open>The entry and the inline form\<close>

text \<open>A run on the calling thread; the callbacks return or throw (\<open>Some e\<close>), \<open>stop\<close> is the token before each phase.\<close>

fun runPlexInline_from :: "nat \<Rightarrow> nat \<Rightarrow> (nat \<Rightarrow> bool) \<Rightarrow> (nat \<Rightarrow> 'e option) \<Rightarrow>
    (nat \<Rightarrow> nat \<Rightarrow> nat \<Rightarrow> nat \<Rightarrow> 'e option) \<Rightarrow> nat \<Rightarrow> 'e option \<times> nat list" where
  "runPlexInline_from 0 p stop prePhaseFn phaseFn n = (None, [])"
| "runPlexInline_from (Suc k) p stop prePhaseFn phaseFn n =
     (if stop p then (None, [])
      else (case prePhaseFn p of Some e \<Rightarrow> (Some e, [])
        | None \<Rightarrow> (case phaseFn p 0 0 n of Some e \<Rightarrow> (Some e, [])
          | None \<Rightarrow> (case runPlexInline_from k (Suc p) stop prePhaseFn phaseFn n of
              (r, rs) \<Rightarrow> (r, p # rs)))))"

definition runPlexInline :: "nat \<Rightarrow> nat \<Rightarrow> (nat \<Rightarrow> bool) \<Rightarrow> (nat \<Rightarrow> 'e option) \<Rightarrow>
    (nat \<Rightarrow> nat \<Rightarrow> nat \<Rightarrow> nat \<Rightarrow> 'e option) \<Rightarrow> 'e option \<times> nat list" where
  "runPlexInline nPhases n stop prePhaseFn phaseFn =
     runPlexInline_from nPhases 0 stop prePhaseFn phaseFn n"

datatype plex_route = PlexNothing | PlexInline | PlexParallel

definition runPlex :: "nat \<Rightarrow> nat \<Rightarrow> bool \<Rightarrow> plex_route" where
  "runPlex nPhases participants fallThrough =
     (if nPhases = 0 then PlexNothing
      else if participants \<le> 1 \<or> fallThrough then PlexInline else PlexParallel)"

lemma runPlexInline_prefix:
  "runPlexInline_from k p stop h f n = (r, phases) \<Longrightarrow> phases = [p..<p + length phases] \<and> length phases \<le> k"
proof (induction k arbitrary: p r phases)
  case (Suc k)
  obtain r' phases' where rec: "runPlexInline_from k (Suc p) stop h f n = (r', phases')" by fastforce
  have IH: "phases' = [Suc p..<Suc p + length phases']" "length phases' \<le> k" using Suc.IH [OF rec] by simp_all
  have cons: "[p..<p + length (p # phases')] = p # [Suc p..<Suc p + length phases']"
    by (subst upt_conv_Cons) simp_all
  show ?case using Suc.prems rec IH cons by (auto split: if_splits option.splits)
qed simp

section \<open>State\<close>

record plex_cfg =
  pg_nPhases :: nat
  pg_participants :: nat
  pg_epochBase :: nat

text \<open>The producer's place in phase \<open>p\<close>.\<close>

datatype plex_pc =
    Check nat            \<comment> \<open>loop head: the bound, the token and the flag\<close>
  | CancelPub nat
  | Hook nat
  | FailPub nat
  | Publish nat
  | Body nat
  | StampOwn nat
  | FailStamp nat
  | Join nat nat bool    \<comment> \<open>wait for this slot; leave afterwards?\<close>
  | Retired

datatype worker_pc =
    Spin nat
  | Saw nat              \<comment> \<open>the phase is published; test the flag\<close>
  | WBody nat
  | WStamp nat
  | DrainStamp nat
  | DrainFinal
  | WRetired

record plex =
  px_prod :: plex_pc
  px_w :: "nat \<Rightarrow> worker_pc"
  px_currentPhase :: nat
  px_cancelled :: bool
  px_exc :: "nat option"
  px_stop :: bool
  px_done :: "nat \<Rightarrow> nat"
  px_hooks :: "nat list"
  px_ran :: "nat \<Rightarrow> nat list"

datatype plex_act =
    Go nat
  | GoCancelled nat      \<comment> \<open>a waiting worker reads the flag\<close>
  | Ret nat
  | Throw nat
  | RequestStop

section \<open>The steps\<close>

definition plex_fail :: "nat \<Rightarrow> plex \<Rightarrow> plex" where
  "plex_fail i s = s\<lparr> px_exc := (case px_exc s of None \<Rightarrow> Some i | Some j \<Rightarrow> Some j),
     px_cancelled := True \<rparr>"

definition set_prod :: "plex_pc \<Rightarrow> plex \<Rightarrow> plex" where
  "set_prod p s = s\<lparr> px_prod := p \<rparr>"

definition set_worker :: "nat \<Rightarrow> worker_pc \<Rightarrow> plex \<Rightarrow> plex" where
  "set_worker i p s = s\<lparr> px_w := (px_w s)(i := p) \<rparr>"

definition plex_stamp :: "plex_cfg \<Rightarrow> nat \<Rightarrow> nat \<Rightarrow> plex \<Rightarrow> plex" where
  "plex_stamp c i p s = s\<lparr> px_done := (px_done s)(i := pg_epochBase c + p) \<rparr>"

definition producer_go :: "plex_cfg \<Rightarrow> plex \<Rightarrow> plex option" where
  "producer_go c s = (case px_prod s of
     Check p \<Rightarrow> Some (if p > pg_nPhases c then set_prod Retired s
       else if px_stop s \<or> px_cancelled s then set_prod (CancelPub p) (s\<lparr> px_cancelled := True \<rparr>)
       else set_prod (Hook p) s)
   | CancelPub p \<Rightarrow> Some (set_prod (Join p 1 True) (s\<lparr> px_currentPhase := p \<rparr>))
   | FailPub p \<Rightarrow> Some (set_prod (FailStamp p) (s\<lparr> px_currentPhase := p \<rparr>))
   | Publish p \<Rightarrow> Some (set_prod (Body p) (s\<lparr> px_currentPhase := p \<rparr>))
   | StampOwn p \<Rightarrow> Some (set_prod (Join p 1 False) (plex_stamp c 0 p s))
   | FailStamp p \<Rightarrow> Some (set_prod (Join p 1 True) (plex_stamp c 0 p s))
   | Join p k leave \<Rightarrow> (if k \<ge> pg_participants c
       then Some (set_prod (if leave then Retired else Check (Suc p)) s)
       else if px_done s k \<ge> pg_epochBase c + p then Some (set_prod (Join p (Suc k) leave) s) else None)
   | _ \<Rightarrow> None)"

definition producer_ret :: "plex \<Rightarrow> plex option" where
  "producer_ret s = (case px_prod s of
     Hook p \<Rightarrow> Some (set_prod (Publish p) (s\<lparr> px_hooks := px_hooks s @ [p - 1] \<rparr>))
   | Body p \<Rightarrow> Some (set_prod (StampOwn p) (s\<lparr> px_ran := (px_ran s)(0 := px_ran s 0 @ [p - 1]) \<rparr>))
   | _ \<Rightarrow> None)"

definition producer_throw :: "plex \<Rightarrow> plex option" where
  "producer_throw s = (case px_prod s of
     Hook p \<Rightarrow> Some (set_prod (FailPub p) (plex_fail 0 s))
   | Body p \<Rightarrow> Some (set_prod (FailStamp p) (plex_fail 0 s))
   | _ \<Rightarrow> None)"

definition worker_go :: "plex_cfg \<Rightarrow> nat \<Rightarrow> plex \<Rightarrow> plex option" where
  "worker_go c i s = (case px_w s i of
     Spin p \<Rightarrow> (if p > pg_nPhases c then Some (set_worker i WRetired s)
       else if px_currentPhase s \<ge> p then Some (set_worker i (Saw p) s) else None)
   | Saw p \<Rightarrow> Some (set_worker i (if px_cancelled s then DrainStamp p else WBody p) s)
   | WStamp p \<Rightarrow> Some (set_worker i (Spin (Suc p)) (plex_stamp c i p s))
   | DrainStamp p \<Rightarrow> Some (set_worker i (if p < pg_nPhases c then DrainFinal else WRetired)
                          (plex_stamp c i p s))
   | DrainFinal \<Rightarrow> Some (set_worker i WRetired (plex_stamp c i (pg_nPhases c) s))
   | _ \<Rightarrow> None)"

definition worker_cancelled :: "plex_cfg \<Rightarrow> nat \<Rightarrow> plex \<Rightarrow> plex option" where
  "worker_cancelled c i s = (case px_w s i of
     Spin p \<Rightarrow> (if p \<le> pg_nPhases c \<and> px_cancelled s then Some (set_worker i DrainFinal s) else None)
   | _ \<Rightarrow> None)"

definition worker_ret :: "nat \<Rightarrow> plex \<Rightarrow> plex option" where
  "worker_ret i s = (case px_w s i of
     WBody p \<Rightarrow> Some (set_worker i (WStamp p) (s\<lparr> px_ran := (px_ran s)(i := px_ran s i @ [p - 1]) \<rparr>))
   | _ \<Rightarrow> None)"

definition worker_throw :: "nat \<Rightarrow> plex \<Rightarrow> plex option" where
  "worker_throw i s = (case px_w s i of
     WBody p \<Rightarrow> Some (set_worker i DrainFinal (plex_fail i s)) | _ \<Rightarrow> None)"

definition plex_step :: "plex_cfg \<Rightarrow> plex \<Rightarrow> plex_act \<Rightarrow> plex option" where
  "plex_step c s a =
     (let worker = (\<lambda>i. 0 < i \<and> i < pg_participants c) in case a of
     Go i \<Rightarrow> if i = 0 then producer_go c s else if worker i then worker_go c i s else None
   | GoCancelled i \<Rightarrow> if worker i then worker_cancelled c i s else None
   | Ret i \<Rightarrow> if i = 0 then producer_ret s else if worker i then worker_ret i s else None
   | Throw i \<Rightarrow> if i = 0 then producer_throw s else if worker i then worker_throw i s else None
   | RequestStop \<Rightarrow> if px_stop s then None else Some (s\<lparr> px_stop := True \<rparr>))"

definition plex_init :: "(nat \<Rightarrow> nat) \<Rightarrow> bool \<Rightarrow> plex" where
  "plex_init stale stopped = \<lparr> px_prod = Check 1, px_w = (\<lambda>_. Spin 1), px_currentPhase = 0,
     px_cancelled = False, px_exc = None, px_stop = stopped, px_done = stale, px_hooks = [],
     px_ran = (\<lambda>_. []) \<rparr>"

definition plex_retired :: "plex_cfg \<Rightarrow> plex \<Rightarrow> bool" where
  "plex_retired c s \<longleftrightarrow> px_prod s = Retired \<and> (\<forall>i < pg_participants c. 0 < i \<longrightarrow> px_w s i = WRetired)"

definition plex_epochs :: "nat \<Rightarrow> nat \<Rightarrow> nat \<Rightarrow> (nat \<Rightarrow> nat) \<Rightarrow> nat \<times> nat \<times> (nat \<Rightarrow> nat)" where
  "plex_epochs participants nPhases plexEpochBase stamps =
     (if plexEpochBase > SIZE_MAX - 1024
      then (0, w64 (nPhases + 1), \<lambda>i. if i < participants then 0 else stamps i)
      else (plexEpochBase, w64 (plexEpochBase + w64 (nPhases + 1)), stamps))"

section \<open>The invariant\<close>

definition done_at :: "nat \<Rightarrow> nat \<Rightarrow> nat \<Rightarrow> bool" where
  "done_at base k d \<longleftrightarrow> (if k = 0 then d \<le> base else d = base + k)"

text \<open>A worker: its phases in order, its stamp, and the bounds by the published phase and the hooks.\<close>

fun worker_ok :: "nat \<Rightarrow> nat \<Rightarrow> nat \<Rightarrow> nat \<Rightarrow> bool \<Rightarrow> worker_pc \<Rightarrow> nat list \<Rightarrow> nat \<Rightarrow> bool" where
  "worker_ok N base cur h x (Spin q) rs d =
     (1 \<le> q \<and> q \<le> N + 1 \<and> rs = [0..<q - 1] \<and> done_at base (q - 1) d \<and> q \<le> cur + 1)"
| "worker_ok N base cur h x (Saw q) rs d =
     (1 \<le> q \<and> q \<le> N \<and> rs = [0..<q - 1] \<and> done_at base (q - 1) d \<and> q \<le> cur \<and> (x \<or> q \<le> h))"
| "worker_ok N base cur h x (WBody q) rs d =
     (1 \<le> q \<and> q \<le> N \<and> rs = [0..<q - 1] \<and> done_at base (q - 1) d \<and> q \<le> cur \<and> q \<le> h)"
| "worker_ok N base cur h x (WStamp q) rs d =
     (1 \<le> q \<and> q \<le> N \<and> rs = [0..<q] \<and> done_at base (q - 1) d \<and> q \<le> cur \<and> q \<le> h)"
| "worker_ok N base cur h x (DrainStamp q) rs d =
     (x \<and> 1 \<le> q \<and> q \<le> N \<and> done_at base (q - 1) d \<and> q \<le> cur)"
| "worker_ok N base cur h x DrainFinal rs d = (x \<and> d \<le> base + N)"
| "worker_ok N base cur h x WRetired rs d = (d = base + N \<and> (x \<or> rs = [0..<N] \<and> N \<le> cur))"

definition near :: "nat \<Rightarrow> nat list \<Rightarrow> bool" where
  "near h rs \<longleftrightarrow> rs = [0..<length rs] \<and> length rs \<le> h \<and> h \<le> length rs + 1"

definition workers_ok :: "plex_cfg \<Rightarrow> plex \<Rightarrow> bool" where
  "workers_ok c s \<longleftrightarrow> (\<forall>i < pg_participants c. 0 < i \<longrightarrow>
     worker_ok (pg_nPhases c) (pg_epochBase c) (px_currentPhase s) (length (px_hooks s)) (px_cancelled s)
       (px_w s i) (px_ran s i) (px_done s i))"

definition near_ok :: "plex_cfg \<Rightarrow> plex \<Rightarrow> bool" where
  "near_ok c s \<longleftrightarrow> px_hooks s = [0..<length (px_hooks s)] \<and>
     (\<forall>i < pg_participants c. near (length (px_hooks s)) (px_ran s i) \<and>
        px_done s i \<le> pg_epochBase c + pg_nPhases c)"

definition joined :: "plex_cfg \<Rightarrow> plex \<Rightarrow> nat \<Rightarrow> nat \<Rightarrow> bool" where
  "joined c s p k \<longleftrightarrow> p = 0 \<or> (\<forall>i<k. 0 < i \<longrightarrow> pg_epochBase c + p \<le> px_done s i)"

definition all_spin :: "plex_cfg \<Rightarrow> plex \<Rightarrow> nat \<Rightarrow> bool" where
  "all_spin c s p \<longleftrightarrow> (\<forall>i < pg_participants c. 0 < i \<longrightarrow> px_w s i = Spin p)"

fun producer_ok :: "plex_cfg \<Rightarrow> plex \<Rightarrow> plex_pc \<Rightarrow> bool" where
  "producer_ok c s (Check p) = (1 \<le> p \<and> p \<le> pg_nPhases c + 1 \<and> px_currentPhase s = p - 1 \<and>
     length (px_hooks s) = p - 1 \<and> px_ran s 0 = [0..<p - 1] \<and> joined c s (p - 1) (pg_participants c))"
| "producer_ok c s (CancelPub p) = (1 \<le> p \<and> p \<le> pg_nPhases c \<and> px_currentPhase s = p - 1 \<and> px_cancelled s)"
| "producer_ok c s (Hook p) = (1 \<le> p \<and> p \<le> pg_nPhases c \<and> px_currentPhase s = p - 1 \<and>
     length (px_hooks s) = p - 1 \<and> px_ran s 0 = [0..<p - 1] \<and> all_spin c s p \<and> \<not> px_cancelled s)"
| "producer_ok c s (FailPub p) = (1 \<le> p \<and> p \<le> pg_nPhases c \<and> px_currentPhase s = p - 1 \<and> px_cancelled s)"
| "producer_ok c s (Publish p) = (1 \<le> p \<and> p \<le> pg_nPhases c \<and> px_currentPhase s = p - 1 \<and>
     length (px_hooks s) = p \<and> px_ran s 0 = [0..<p - 1] \<and> all_spin c s p \<and> \<not> px_cancelled s)"
| "producer_ok c s (Body p) = (1 \<le> p \<and> p \<le> pg_nPhases c \<and> px_currentPhase s = p \<and>
     length (px_hooks s) = p \<and> px_ran s 0 = [0..<p - 1])"
| "producer_ok c s (StampOwn p) = (1 \<le> p \<and> p \<le> pg_nPhases c \<and> px_currentPhase s = p \<and>
     length (px_hooks s) = p \<and> px_ran s 0 = [0..<p])"
| "producer_ok c s (FailStamp p) = (1 \<le> p \<and> p \<le> pg_nPhases c \<and> px_currentPhase s = p \<and> px_cancelled s)"
| "producer_ok c s (Join p k leave) = (1 \<le> p \<and> p \<le> pg_nPhases c \<and> px_currentPhase s = p \<and> 1 \<le> k \<and>
     (if leave then px_cancelled s else length (px_hooks s) = p \<and> px_ran s 0 = [0..<p]) \<and>
     joined c s p (min k (pg_participants c)))"
| "producer_ok c s Retired = (px_cancelled s \<or>
     px_currentPhase s = pg_nPhases c \<and> length (px_hooks s) = pg_nPhases c \<and> px_ran s 0 = [0..<pg_nPhases c])"

definition plex_inv :: "plex_cfg \<Rightarrow> plex \<Rightarrow> bool" where
  "plex_inv c s \<longleftrightarrow> 0 < pg_participants c \<and> 0 < pg_nPhases c \<and> workers_ok c s \<and> near_ok c s \<and> producer_ok c s (px_prod s) \<and>
     (px_exc s \<noteq> None \<longrightarrow> px_cancelled s) \<and> (px_cancelled s \<longrightarrow> px_exc s \<noteq> None \<or> px_stop s)"


section \<open>The steps\<close>

lemmas plex_upd = set_prod_def set_worker_def plex_stamp_def plex_fail_def

lemma producer_cases:
  assumes "plex_step c s a = Some t" "a \<in> {Go 0, Ret 0, Throw 0}"
  obtains
    (check) p where "px_prod s = Check p" "\<not> p > pg_nPhases c" "\<not> px_stop s" "\<not> px_cancelled s"
      "t = set_prod (Hook p) s"
  | (cancel) p where "px_prod s = Check p" "\<not> p > pg_nPhases c" "px_stop s \<or> px_cancelled s"
      "t = set_prod (CancelPub p) (s\<lparr> px_cancelled := True \<rparr>)"
  | (finish) p where "px_prod s = Check p" "p > pg_nPhases c" "t = set_prod Retired s"
  | (cancelPub) p where "px_prod s = CancelPub p" "t = set_prod (Join p 1 True) (s\<lparr> px_currentPhase := p \<rparr>)"
  | (failPub) p where "px_prod s = FailPub p" "t = set_prod (FailStamp p) (s\<lparr> px_currentPhase := p \<rparr>)"
  | (publish) p where "px_prod s = Publish p" "t = set_prod (Body p) (s\<lparr> px_currentPhase := p \<rparr>)"
  | (stampOwn) p where "px_prod s = StampOwn p" "t = set_prod (Join p 1 False) (plex_stamp c 0 p s)"
  | (failStamp) p where "px_prod s = FailStamp p" "t = set_prod (Join p 1 True) (plex_stamp c 0 p s)"
  | (joinEnd) p k leave where "px_prod s = Join p k leave" "k \<ge> pg_participants c"
      "t = set_prod (if leave then Retired else Check (Suc p)) s"
  | (join) p k leave where "px_prod s = Join p k leave" "k < pg_participants c"
      "pg_epochBase c + p \<le> px_done s k" "t = set_prod (Join p (Suc k) leave) s"
  | (hookRet) p where "px_prod s = Hook p" "t = set_prod (Publish p) (s\<lparr> px_hooks := px_hooks s @ [p - 1] \<rparr>)"
  | (bodyRet) p where "px_prod s = Body p"
      "t = set_prod (StampOwn p) (s\<lparr> px_ran := (px_ran s)(0 := px_ran s 0 @ [p - 1]) \<rparr>)"
  | (hookThrow) p where "px_prod s = Hook p" "t = set_prod (FailPub p) (plex_fail 0 s)"
  | (bodyThrow) p where "px_prod s = Body p" "t = set_prod (FailStamp p) (plex_fail 0 s)"
proof -
  from assms consider "producer_go c s = Some t" | "producer_ret s = Some t" | "producer_throw s = Some t"
    by (auto simp: plex_step_def)
  then show ?thesis
  proof cases
    case 1
    then show ?thesis
      using check cancel finish cancelPub failPub publish stampOwn failStamp joinEnd join
      by (cases "px_prod s") (auto simp: producer_go_def linorder_not_le split: if_splits)
  next
    case 2
    then show ?thesis using hookRet bodyRet by (auto simp: producer_ret_def split: plex_pc.splits)
  next
    case 3
    then show ?thesis using hookThrow bodyThrow by (auto simp: producer_throw_def split: plex_pc.splits)
  qed
qed

lemma worker_cases:
  assumes "plex_step c s a = Some t" "a \<notin> {Go 0, Ret 0, Throw 0}"
  obtains
    (stop) "t = s\<lparr> px_stop := True \<rparr>" "\<not> px_stop s"
  | (spinEnd) i q where "0 < i" "i < pg_participants c" "px_w s i = Spin q" "q > pg_nPhases c"
      "t = set_worker i WRetired s"
  | (see) i q where "0 < i" "i < pg_participants c" "px_w s i = Spin q" "q \<le> pg_nPhases c"
      "q \<le> px_currentPhase s" "t = set_worker i (Saw q) s"
  | (quit) i q where "0 < i" "i < pg_participants c" "px_w s i = Spin q" "q \<le> pg_nPhases c" "px_cancelled s"
      "t = set_worker i DrainFinal s"
  | (drain) i q where "0 < i" "i < pg_participants c" "px_w s i = Saw q" "px_cancelled s"
      "t = set_worker i (DrainStamp q) s"
  | (enter) i q where "0 < i" "i < pg_participants c" "px_w s i = Saw q" "\<not> px_cancelled s"
      "t = set_worker i (WBody q) s"
  | (wRet) i q where "0 < i" "i < pg_participants c" "px_w s i = WBody q"
      "t = set_worker i (WStamp q) (s\<lparr> px_ran := (px_ran s)(i := px_ran s i @ [q - 1]) \<rparr>)"
  | (wThrow) i q where "0 < i" "i < pg_participants c" "px_w s i = WBody q"
      "t = set_worker i DrainFinal (plex_fail i s)"
  | (wStamp) i q where "0 < i" "i < pg_participants c" "px_w s i = WStamp q"
      "t = set_worker i (Spin (Suc q)) (plex_stamp c i q s)"
  | (drainStamp) i q where "0 < i" "i < pg_participants c" "px_w s i = DrainStamp q"
      "t = set_worker i (if q < pg_nPhases c then DrainFinal else WRetired) (plex_stamp c i q s)"
  | (final) i where "0 < i" "i < pg_participants c" "px_w s i = DrainFinal"
      "t = set_worker i WRetired (plex_stamp c i (pg_nPhases c) s)"
proof (cases a)
  case (Go i)
  then have "0 < i" "i < pg_participants c" "worker_go c i s = Some t"
    using assms by (auto simp: plex_step_def Let_def split: if_splits)
  then show ?thesis using spinEnd see drain enter wStamp drainStamp final
    by (cases "px_w s i") (auto simp: worker_go_def linorder_not_le split: if_splits)
next
  case (GoCancelled i)
  then have "0 < i" "i < pg_participants c" "worker_cancelled c i s = Some t"
    using assms by (auto simp: plex_step_def Let_def split: if_splits)
  then show ?thesis using quit
    by (cases "px_w s i") (auto simp: worker_cancelled_def split: if_splits)
next
  case (Ret i)
  then have "0 < i" "i < pg_participants c" "worker_ret i s = Some t"
    using assms by (auto simp: plex_step_def Let_def split: if_splits)
  then show ?thesis using wRet by (cases "px_w s i") (auto simp: worker_ret_def)
next
  case (Throw i)
  then have "0 < i" "i < pg_participants c" "worker_throw i s = Some t"
    using assms by (auto simp: plex_step_def Let_def split: if_splits)
  then show ?thesis using wThrow by (cases "px_w s i") (auto simp: worker_throw_def)
next
  case RequestStop
  then show ?thesis using assms stop by (auto simp: plex_step_def split: if_splits)
qed

section \<open>Every step keeps the invariant\<close>

lemma plex_invD:
  assumes "plex_inv c s"
  shows "0 < pg_participants c" "workers_ok c s" "near_ok c s" "producer_ok c s (px_prod s)"
    "px_exc s \<noteq> None \<Longrightarrow> px_cancelled s" "px_cancelled s \<Longrightarrow> px_exc s \<noteq> None \<or> px_stop s"
    "0 < pg_nPhases c"
  using assms by (simp_all add: plex_inv_def)

lemma worker_ok_mono:
  "worker_ok N base cur h x w rs d \<Longrightarrow> cur \<le> cur' \<Longrightarrow> h \<le> h' \<Longrightarrow> (x \<Longrightarrow> x') \<Longrightarrow>
    worker_ok N base cur' h' x' w rs d"
  by (cases w) auto

lemma worker_okD:
  assumes "workers_ok c s" "0 < i" "i < pg_participants c"
  shows "worker_ok (pg_nPhases c) (pg_epochBase c) (px_currentPhase s) (length (px_hooks s)) (px_cancelled s)
       (px_w s i) (px_ran s i) (px_done s i)"
  using assms by (simp add: workers_ok_def)

lemma workers_frame:
  assumes "workers_ok c s" "px_w t = px_w s" "\<And>i. 0 < i \<Longrightarrow> px_ran t i = px_ran s i"
    "\<And>i. 0 < i \<Longrightarrow> px_done t i = px_done s i" "px_currentPhase s \<le> px_currentPhase t"
    "length (px_hooks s) \<le> length (px_hooks t)" "px_cancelled s \<Longrightarrow> px_cancelled t"
  shows "workers_ok c t"
  unfolding workers_ok_def
proof (intro allI impI)
  fix i assume i: "i < pg_participants c" "0 < i"
  show "worker_ok (pg_nPhases c) (pg_epochBase c) (px_currentPhase t) (length (px_hooks t)) (px_cancelled t)
       (px_w t i) (px_ran t i) (px_done t i)"
    unfolding assms(2) assms(3) [OF i(2)] assms(4) [OF i(2)]
    by (rule worker_ok_mono [OF worker_okD [OF assms(1) i(2,1)] assms(5-7)])
qed

lemma workers_upd:
  assumes "workers_ok c s" "px_w t = (px_w s)(i := w)" "\<And>j. j \<noteq> i \<Longrightarrow> px_ran t j = px_ran s j"
    "\<And>j. j \<noteq> i \<Longrightarrow> px_done t j = px_done s j" "px_currentPhase t = px_currentPhase s"
    "px_hooks t = px_hooks s" "px_cancelled s \<Longrightarrow> px_cancelled t"
    "worker_ok (pg_nPhases c) (pg_epochBase c) (px_currentPhase s) (length (px_hooks s)) (px_cancelled t)
       w (px_ran t i) (px_done t i)"
  shows "workers_ok c t"
  unfolding workers_ok_def
proof (intro allI impI)
  fix j assume j: "j < pg_participants c" "0 < j"
  from worker_ok_mono [OF worker_okD [OF assms(1) j(2,1)] le_refl le_refl assms(7)] assms(8)
  show "worker_ok (pg_nPhases c) (pg_epochBase c) (px_currentPhase t) (length (px_hooks t)) (px_cancelled t)
       (px_w t j) (px_ran t j) (px_done t j)"
    by (cases "j = i") (simp_all add: assms(2-6))
qed

text \<open>The published phase has its hook, unless the plex is cancelled.\<close>

lemma published_hook:
  assumes "plex_inv c s"
  shows "px_cancelled s \<or> px_currentPhase s \<le> length (px_hooks s)"
  using plex_invD(4) [OF assms] by (cases "px_prod s") (auto split: if_splits)

lemma joined_mono:
  assumes "joined c s p k" "\<And>i. px_done s i \<le> px_done t i" "k' \<le> k"
  shows "joined c t p k'"
  unfolding joined_def
proof (cases "p = 0")
  case False
  then have "pg_epochBase c + p \<le> px_done s i" if "0 < i" "i < k" for i
    using assms(1) that by (simp add: joined_def)
  then have "pg_epochBase c + p \<le> px_done t i" if "0 < i" "i < k'" for i
    using assms(2) [of i] assms(3) that by (meson le_trans less_le_trans)
  then show "p = 0 \<or> (\<forall>i<k'. 0 < i \<longrightarrow> pg_epochBase c + p \<le> px_done t i)" by blast
qed simp

text \<open>Nothing moves while the hook runs: the workers wait for the phase, and no one has failed.\<close>

lemma joined_all_spin:
  assumes "workers_ok c s" "px_currentPhase s = p - 1" "1 \<le> p" "p \<le> pg_nPhases c" "\<not> px_cancelled s"
    "joined c s (p - 1) (pg_participants c)"
  shows "all_spin c s p"
  unfolding all_spin_def
proof (intro allI impI)
  fix i assume i: "i < pg_participants c" "0 < i"
  have d: "p = 1 \<or> pg_epochBase c + (p - 1) \<le> px_done s i"
    using assms(3,6) i by (auto simp: joined_def)
  from worker_okD [OF assms(1) i(2,1)] assms(2-5) d
  show "px_w s i = Spin p"
    by (cases "px_w s i") (auto simp: done_at_def split: if_splits)
qed

lemma spin_still:
  assumes "plex_step c s a = Some t" "a \<notin> {Go 0, Ret 0, Throw 0}" "all_spin c s p"
    "px_currentPhase s = p - 1" "1 \<le> p" "p \<le> pg_nPhases c" "\<not> px_cancelled s"
  shows "t = s\<lparr> px_stop := True \<rparr>"
  using assms(1,2)
proof (cases rule: worker_cases)
  case (spinEnd i q)
  then show ?thesis using assms(3,6) by (auto simp: all_spin_def)
next
  case (see i q)
  then show ?thesis using assms(3-6) by (auto simp: all_spin_def)
qed (use assms(3,7) in \<open>auto simp: all_spin_def\<close>)

lemma producer_frame:
  assumes "producer_ok c s (px_prod s)" "\<And>p. px_prod s \<noteq> Hook p" "\<And>p. px_prod s \<noteq> Publish p"
    "px_prod t = px_prod s" "px_currentPhase t = px_currentPhase s" "px_hooks t = px_hooks s"
    "px_ran t 0 = px_ran s 0" "\<And>i. px_done s i \<le> px_done t i" "px_cancelled s \<Longrightarrow> px_cancelled t"
  shows "producer_ok c t (px_prod t)"
  using assms(1-3,9) joined_mono [OF _ assms(8)] unfolding assms(4)
  by (cases "px_prod s") (auto simp: assms(5-7))

lemma near_upd:
  assumes "near_ok c s" "px_hooks t = px_hooks s" "\<And>j. j \<noteq> i \<Longrightarrow> px_ran t j = px_ran s j"
    "\<And>j. j \<noteq> i \<Longrightarrow> px_done t j = px_done s j"
    "near (length (px_hooks s)) (px_ran s i) \<Longrightarrow> near (length (px_hooks s)) (px_ran t i)"
    "px_done s i \<le> pg_epochBase c + pg_nPhases c \<Longrightarrow> px_done t i \<le> pg_epochBase c + pg_nPhases c"
  shows "near_ok c t"
  unfolding near_ok_def
proof (intro conjI allI impI)
  show "px_hooks t = [0..<length (px_hooks t)]" using assms(1,2) by (simp add: near_ok_def)
  fix j assume "j < pg_participants c"
  then have "near (length (px_hooks s)) (px_ran s j)" "px_done s j \<le> pg_epochBase c + pg_nPhases c"
    using assms(1) by (simp_all add: near_ok_def)
  then show "near (length (px_hooks t)) (px_ran t j)" "px_done t j \<le> pg_epochBase c + pg_nPhases c"
    using assms(2-6) by (cases "j = i"; simp)+
qed

lemma near_same:
  assumes "near_ok c s" "px_hooks t = px_hooks s" "px_ran t = px_ran s" "px_done t = px_done s"
  shows "near_ok c t"
  using assms by (simp add: near_ok_def)

lemma near_upt [simp]: "near h [0..<q] \<longleftrightarrow> q \<le> h \<and> h \<le> q + 1"
  by (simp add: near_def)

lemma done_at_le: "done_at base (q - 1) d \<Longrightarrow> d \<le> base + q"
  by (auto simp: done_at_def split: if_splits)

lemma plex_inv_stop: "plex_inv c s \<Longrightarrow> plex_inv c (s\<lparr> px_stop := True \<rparr>)"
proof -
  assume inv: "plex_inv c s"
  have "producer_ok c (s\<lparr> px_stop := True \<rparr>) (px_prod s)"
    using plex_invD(4) [OF inv] by (cases "px_prod s") (auto simp: joined_def all_spin_def)
  then show ?thesis using inv by (simp add: plex_inv_def workers_ok_def near_ok_def)
qed

text \<open>A worker's step away from the hook.\<close>

lemma worker_keepI:
  assumes inv: "plex_inv c s" and idle: "\<And>p. px_prod s \<noteq> Hook p" "\<And>p. px_prod s \<noteq> Publish p"
    and i: "0 < i"
    and upd: "px_w t = (px_w s)(i := w)" "px_ran t = (px_ran s)(i := rs)" "px_done t = (px_done s)(i := d)"
    "px_prod t = px_prod s" "px_currentPhase t = px_currentPhase s" "px_hooks t = px_hooks s" "px_stop t = px_stop s"
    and x: "px_cancelled s \<Longrightarrow> px_cancelled t" "px_exc s \<noteq> None \<Longrightarrow> px_exc t \<noteq> None"
    "px_exc t \<noteq> None \<Longrightarrow> px_cancelled t" "px_cancelled t \<Longrightarrow> px_cancelled s \<or> px_exc t \<noteq> None"
    and w: "worker_ok (pg_nPhases c) (pg_epochBase c) (px_currentPhase s) (length (px_hooks s)) (px_cancelled t) w rs d"
    and near: "near (length (px_hooks s)) (px_ran s i) \<Longrightarrow> near (length (px_hooks s)) rs"
    and d: "px_done s i \<le> d" "d \<le> pg_epochBase c + pg_nPhases c"
  shows "plex_inv c t"
  unfolding plex_inv_def
proof (intro conjI)
  show "0 < pg_participants c" "0 < pg_nPhases c" using plex_invD(1,7) [OF inv] .
  show "workers_ok c t" by (rule workers_upd [OF plex_invD(2) [OF inv] upd(1)]) (use upd w x in simp_all)
  show "near_ok c t" by (rule near_upd [OF plex_invD(3) [OF inv], of t i]) (use upd d near in simp_all)
  show "producer_ok c t (px_prod t)"
    by (rule producer_frame [OF plex_invD(4) [OF inv] idle]) (use upd i d(1) x(1) in auto)
  show "px_exc t \<noteq> None \<longrightarrow> px_cancelled t" using x(3) by blast
  show "px_cancelled t \<longrightarrow> px_exc t \<noteq> None \<or> px_stop t" using plex_invD(6) [OF inv] x upd(7) by auto
qed

lemma worker_keep:
  assumes inv: "plex_inv c s" and step: "plex_step c s a = Some t" and a: "a \<notin> {Go 0, Ret 0, Throw 0}"
    and idle: "\<And>p. px_prod s \<noteq> Hook p" "\<And>p. px_prod s \<noteq> Publish p"
  shows "plex_inv c t"
proof -
  note w = worker_okD [OF plex_invD(2) [OF inv]] and x = plex_invD(5) [OF inv]
  note keep = worker_keepI [OF inv idle]
  have bound: "px_done s i \<le> pg_epochBase c + pg_nPhases c" if "i < pg_participants c" for i
    using plex_invD(3) [OF inv] that by (simp add: near_ok_def)
  from step a show ?thesis
  proof (cases rule: worker_cases)
    case stop
    then show ?thesis using plex_inv_stop [OF inv] by simp
  next
    case (spinEnd i q)
    then have "q = pg_nPhases c + 1" using w [of i] by simp
    then show ?thesis
      by (intro keep [where i = i and w = WRetired and rs = "px_ran s i" and d = "px_done s i"])
        (use w [of i] x bound [of i] spinEnd plex_invD(7) [OF inv] in \<open>auto simp: plex_upd done_at_def\<close>)
  next
    case (see i q)
    have "px_cancelled s \<or> q \<le> length (px_hooks s)" using published_hook [OF inv] see by auto
    then show ?thesis
      by (intro keep [where i = i and w = "Saw q" and rs = "px_ran s i" and d = "px_done s i"])
        (use w [of i] x bound [of i] see in \<open>auto simp: plex_upd\<close>)
  next
    case (quit i q)
    show ?thesis
      by (rule keep [where i = i and w = DrainFinal and rs = "px_ran s i" and d = "px_done s i"])
        (use w [of i] x bound [of i] quit in \<open>auto simp: plex_upd\<close>)
  next
    case (drain i q)
    show ?thesis
      by (rule keep [where i = i and w = "DrainStamp q" and rs = "px_ran s i" and d = "px_done s i"])
        (use w [of i] x bound [of i] drain in \<open>auto simp: plex_upd\<close>)
  next
    case (enter i q)
    show ?thesis
      by (rule keep [where i = i and w = "WBody q" and rs = "px_ran s i" and d = "px_done s i"])
        (use w [of i] x bound [of i] enter in \<open>auto simp: plex_upd\<close>)
  next
    case (wRet i q)
    then have "[0..<q - 1] @ [q - 1] = [0..<q]" using w [of i] by (cases q) auto
    then show ?thesis
      by (intro keep [where i = i and w = "WStamp q" and rs = "px_ran s i @ [q - 1]" and d = "px_done s i"])
        (use w [of i] x bound [of i] wRet in \<open>auto simp: plex_upd\<close>)
  next
    case (wThrow i q)
    show ?thesis
      by (rule keep [where i = i and w = DrainFinal and rs = "px_ran s i" and d = "px_done s i"])
        (use w [of i] x bound [of i] wThrow in \<open>auto simp: plex_upd split: option.splits\<close>)
  next
    case (wStamp i q)
    show ?thesis
      by (rule keep [where i = i and w = "Spin (Suc q)" and rs = "px_ran s i" and d = "pg_epochBase c + q"])
        (use w [of i] x bound [of i] done_at_le wStamp in \<open>auto simp: plex_upd done_at_def split: if_splits\<close>)
  next
    case (drainStamp i q)
    show ?thesis
      by (rule keep [where i = i and w = "if q < pg_nPhases c then DrainFinal else WRetired" and rs = "px_ran s i"
            and d = "pg_epochBase c + q"])
        (use w [of i] x bound [of i] done_at_le drainStamp in \<open>auto simp: plex_upd\<close>)
  next
    case (final i)
    show ?thesis
      by (rule keep [where i = i and w = WRetired and rs = "px_ran s i" and d = "pg_epochBase c + pg_nPhases c"])
        (use w [of i] x bound [of i] final in \<open>auto simp: plex_upd\<close>)
  qed
qed

text \<open>A step of the producer, and any step while it is between a check and the publication.\<close>

lemma producer_keepI:
  assumes inv: "plex_inv c s"
    and upd: "px_w t = px_w s" "\<And>i. 0 < i \<Longrightarrow> px_ran t i = px_ran s i" "\<And>i. 0 < i \<Longrightarrow> px_done t i = px_done s i"
    and mono: "px_currentPhase s \<le> px_currentPhase t" "length (px_hooks s) \<le> length (px_hooks t)"
    and x: "px_cancelled s \<Longrightarrow> px_cancelled t" "px_exc t \<noteq> None \<Longrightarrow> px_cancelled t"
      "px_cancelled t \<Longrightarrow> px_exc t \<noteq> None \<or> px_stop t"
    and near: "near_ok c t" and prod: "producer_ok c t (px_prod t)"
  shows "plex_inv c t"
  unfolding plex_inv_def
  using plex_invD(1,7) [OF inv] workers_frame [OF plex_invD(2) [OF inv] upd mono x(1)] near prod x(2,3)
  by blast

lemma done_upd0: "d \<le> d' \<Longrightarrow> px_done s 0 = d \<Longrightarrow> px_done s i \<le> ((px_done s)(0 := d')) i"
  by simp

lemma producer_keep:
  assumes inv: "plex_inv c s" and step: "plex_step c s a = Some t" and a: "a \<in> {Go 0, Ret 0, Throw 0}"
  shows "plex_inv c t"
proof -
  note p = plex_invD(4) [OF inv] and x = plex_invD(5,6) [OF inv] and near = plex_invD(3) [OF inv]
    and P = plex_invD(1) [OF inv]
  note keep = producer_keepI [OF inv]
  have same: "near_ok c t" if "px_hooks t = px_hooks s" "px_ran t = px_ran s" "px_done t = px_done s"
    using near_same [OF near that] .
  have stamp: "near_ok c t" if "px_hooks t = px_hooks s" "px_ran t = px_ran s"
    "px_done t = (px_done s)(0 := pg_epochBase c + q)" "q \<le> pg_nPhases c" for q
    by (rule near_upd [OF near that(1), of 0]) (use that in simp_all)
  from step a show ?thesis
  proof (cases rule: producer_cases)
    case (check q)
    then have "all_spin c s q" using joined_all_spin [OF plex_invD(2) [OF inv]] p by simp
    then show ?thesis using check p x same
      by (intro keep) (auto simp: plex_upd all_spin_def)
  next
    case (cancel q)
    then show ?thesis using p x same by (intro keep) (auto simp: plex_upd)
  next
    case (finish q)
    then have "q = pg_nPhases c + 1" using p by simp
    then show ?thesis using finish p x same by (intro keep) (auto simp: plex_upd)
  next
    case (cancelPub q)
    then show ?thesis using p x same by (intro keep) (auto simp: plex_upd joined_def)
  next
    case (failPub q)
    then show ?thesis using p x same by (intro keep) (auto simp: plex_upd)
  next
    case (publish q)
    then show ?thesis using p x same by (intro keep) (auto simp: plex_upd)
  next
    case (stampOwn q)
    then show ?thesis using p x stamp [of q] by (intro keep) (auto simp: plex_upd joined_def)
  next
    case (failStamp q)
    then show ?thesis using p x stamp [of q] by (intro keep) (auto simp: plex_upd joined_def)
  next
    case (joinEnd q k leave)
    then show ?thesis using p x same
      by (intro keep) (auto simp: plex_upd joined_def min_def split: if_splits)
  next
    case (join q k leave)
    have "joined c t q (Suc k)" using p join by (auto simp: plex_upd joined_def less_Suc_eq)
    then show ?thesis using join p x same
      by (intro keep) (auto simp: plex_upd split: if_splits)
  next
    case (hookRet q)
    have "near_ok c t" unfolding near_ok_def
    proof (intro conjI allI impI)
      show "px_hooks t = [0..<length (px_hooks t)]"
        using near p hookRet by (cases q) (auto simp: plex_upd near_ok_def)
      fix i assume i: "i < pg_participants c"
      show "px_done t i \<le> pg_epochBase c + pg_nPhases c" using near i hookRet by (simp add: plex_upd near_ok_def)
      have "px_ran s i = [0..<q - 1]"
      proof (cases "i = 0")
        case False
        then have "px_w s i = Spin q" using p hookRet i by (simp add: all_spin_def)
        then show ?thesis using worker_okD [OF plex_invD(2) [OF inv] _ i] False by simp
      qed (use p hookRet in simp)
      then show "near (length (px_hooks t)) (px_ran t i)"
        using p hookRet by (simp add: plex_upd near_def)
    qed
    then show ?thesis using hookRet p x by (intro keep) (auto simp: plex_upd all_spin_def)
  next
    case (bodyRet q)
    have h: "length (px_hooks s) = q" "px_ran s 0 = [0..<q - 1]" "1 \<le> q"
      using p unfolding bodyRet(1) by simp_all
    then have "px_ran s 0 @ [q - 1] = [0..<q]" by (cases q) simp_all
    with h(1) have q: "px_ran s 0 @ [q - 1] = [0..<q]" "near (length (px_hooks s)) [0..<q]" by simp_all
    have "near_ok c t"
      by (rule near_upd [OF near, of t 0]) (use bodyRet q in \<open>simp_all add: plex_upd\<close>)
    moreover have "producer_ok c t (px_prod t)" using bodyRet q(1) p by (simp add: plex_upd)
    ultimately show ?thesis using bodyRet x by (intro keep) (simp_all add: plex_upd)
  next
    case (hookThrow q)
    then show ?thesis using p x same by (intro keep) (auto simp: plex_upd split: option.splits)
  next
    case (bodyThrow q)
    then show ?thesis using p x same by (intro keep) (auto simp: plex_upd split: option.splits)
  qed
qed

lemma plex_keep:
  assumes inv: "plex_inv c s" and step: "plex_step c s a = Some t"
  shows "plex_inv c t"
proof (cases "a \<in> {Go 0, Ret 0, Throw 0}")
  case True
  then show ?thesis by (rule producer_keep [OF inv step])
next
  case False
  show ?thesis
  proof (cases "\<exists>p. px_prod s = Hook p \<or> px_prod s = Publish p")
    case True
    then obtain p where "px_prod s = Hook p \<or> px_prod s = Publish p" by blast
    then have "all_spin c s p" "px_currentPhase s = p - 1" "1 \<le> p" "p \<le> pg_nPhases c" "\<not> px_cancelled s"
      using plex_invD(4) [OF inv] by auto
    from spin_still [OF step False this] show ?thesis using plex_inv_stop [OF inv] by simp
  next
    case False
    then show ?thesis using worker_keep [OF inv step \<open>a \<notin> _\<close>] by blast
  qed
qed

text \<open>A stop request alone leaves the slots even: no phase is run by some of them only.\<close>

definition even_ok :: "plex_cfg \<Rightarrow> plex \<Rightarrow> bool" where
  "even_ok c s \<longleftrightarrow> length (px_hooks s) \<le> pg_nPhases c \<and>
     (px_cancelled s \<and> px_exc s = None \<longrightarrow>
       (\<forall>i < pg_participants c. px_ran s i = [0..<length (px_hooks s)]))"

lemma even_worker:
  assumes inv: "plex_inv c s" and ev: "even_ok c s" and step: "plex_step c s a = Some t"
    and a: "a \<notin> {Go 0, Ret 0, Throw 0}"
  shows "even_ok c t"
  using step a
proof (cases rule: worker_cases)
  case (wRet i q)
  have "px_ran s i = [0..<q - 1]" "1 \<le> q" "q \<le> length (px_hooks s)"
    using worker_okD [OF plex_invD(2) [OF inv] wRet(1,2)] wRet(3) by simp_all
  then have "px_ran s i \<noteq> [0..<length (px_hooks s)]" by (auto dest: arg_cong [of _ _ length])
  then show ?thesis using ev wRet by (auto simp: plex_upd even_ok_def)
qed (use ev in \<open>auto simp: plex_upd even_ok_def split: option.splits\<close>)

lemma even_producer:
  assumes inv: "plex_inv c s" and ev: "even_ok c s" and step: "plex_step c s a = Some t"
    and a: "a \<in> {Go 0, Ret 0, Throw 0}"
  shows "even_ok c t"
proof -
  note p = plex_invD(4) [OF inv]
  from step a show ?thesis
  proof (cases rule: producer_cases)
    case (cancel q)
    show ?thesis
    proof (cases "px_cancelled s")
      case False
      have pq: "px_currentPhase s = q - 1" "1 \<le> q" "q \<le> pg_nPhases c"
        "joined c s (q - 1) (pg_participants c)" "length (px_hooks s) = q - 1" "px_ran s 0 = [0..<q - 1]"
        using p cancel(2) unfolding cancel(1) by simp_all
      from joined_all_spin [OF plex_invD(2) [OF inv] pq(1-3) False pq(4)]
      have spin: "px_w s i = Spin q" if "0 < i" "i < pg_participants c" for i using that by (simp add: all_spin_def)
      have "px_ran s i = [0..<q - 1]" if i: "i < pg_participants c" for i
      proof (cases "i = 0")
        case False
        with spin [OF _ i] worker_okD [OF plex_invD(2) [OF inv] _ i] show ?thesis by simp
      qed (use pq(6) in simp)
      then show ?thesis using cancel(4) pq(3,5) by (simp add: even_ok_def plex_upd)
    qed (use ev cancel in \<open>simp add: plex_upd even_ok_def\<close>)
  next
    case (hookRet q)
    then have "length (px_hooks t) \<le> pg_nPhases c" "\<not> px_cancelled t" using p by (auto simp: plex_upd)
    then show ?thesis by (simp add: even_ok_def)
  next
    case (bodyRet q)
    have "length (px_hooks s) = q" "px_ran s 0 = [0..<q - 1]" "1 \<le> q"
      using p unfolding bodyRet(1) by simp_all
    then have "px_ran s 0 \<noteq> [0..<length (px_hooks s)]" by (auto dest: arg_cong [of _ _ length])
    then show ?thesis using ev bodyRet plex_invD(1) [OF inv] by (auto simp: plex_upd even_ok_def)
  qed (use ev in \<open>auto simp: plex_upd even_ok_def split: option.splits\<close>)
qed

section \<open>Every step makes progress\<close>

fun producer_rank :: "nat \<Rightarrow> nat \<Rightarrow> plex_pc \<Rightarrow> nat" where
  "producer_rank N P (Check p) = (N + 2 - p) * (P + 6)"
| "producer_rank N P (CancelPub p) = (N + 1 - p) * (P + 6) + P + 2"
| "producer_rank N P (Hook p) = (N + 1 - p) * (P + 6) + P + 5"
| "producer_rank N P (FailPub p) = (N + 1 - p) * (P + 6) + P + 3"
| "producer_rank N P (Publish p) = (N + 1 - p) * (P + 6) + P + 4"
| "producer_rank N P (Body p) = (N + 1 - p) * (P + 6) + P + 3"
| "producer_rank N P (StampOwn p) = (N + 1 - p) * (P + 6) + P + 2"
| "producer_rank N P (FailStamp p) = (N + 1 - p) * (P + 6) + P + 2"
| "producer_rank N P (Join p k leave) = (N + 1 - p) * (P + 6) + 1 + (P + 1 - k)"
| "producer_rank N P Retired = 0"

fun worker_rank :: "nat \<Rightarrow> worker_pc \<Rightarrow> nat" where
  "worker_rank N (Spin q) = (N + 2 - q) * 5"
| "worker_rank N (Saw q) = (N + 1 - q) * 5 + 4"
| "worker_rank N (WBody q) = (N + 1 - q) * 5 + 3"
| "worker_rank N (WStamp q) = (N + 1 - q) * 5 + 2"
| "worker_rank N (DrainStamp q) = (N + 1 - q) * 5 + 3"
| "worker_rank N DrainFinal = 1"
| "worker_rank N WRetired = 0"

definition plex_fuel :: "plex_cfg \<Rightarrow> plex \<Rightarrow> nat" where
  "plex_fuel c s = producer_rank (pg_nPhases c) (pg_participants c) (px_prod s) +
     (\<Sum>i < pg_participants c. worker_rank (pg_nPhases c) (px_w s i)) + (if px_stop s then 0 else 1)"

lemma worker_fuelI:
  assumes "i < pg_participants c" "px_w t = (px_w s)(i := w)" "px_prod t = px_prod s" "px_stop t = px_stop s"
    "worker_rank (pg_nPhases c) w < worker_rank (pg_nPhases c) (px_w s i)"
  shows "plex_fuel c t < plex_fuel c s"
proof -
  let ?r = "worker_rank (pg_nPhases c)"
  have "(\<lambda>j. ?r (px_w t j)) = (\<lambda>j. ?r (px_w s j))(i := ?r w)" using assms(2) by auto
  then have "(\<Sum>j < pg_participants c. ?r (px_w t j)) + ?r (px_w s i) = (\<Sum>j < pg_participants c. ?r (px_w s j)) + ?r w"
    using sum_fun_upd_nat [OF assms(1), of "\<lambda>j. ?r (px_w s j)" "?r w"] by (simp only:)
  then show ?thesis using assms(3-5) by (simp add: plex_fuel_def)
qed

lemma rank_next: "p \<le> N \<Longrightarrow> (Suc (Suc N) - p) * k = (Suc N - p) * k + (k::nat)"
  by (simp add: Suc_diff_le)

lemma producer_fuelI:
  assumes "px_w t = px_w s" "px_stop t = px_stop s"
    "producer_rank (pg_nPhases c) (pg_participants c) (px_prod t)
      < producer_rank (pg_nPhases c) (pg_participants c) (px_prod s)"
  shows "plex_fuel c t < plex_fuel c s"
  using assms by (simp add: plex_fuel_def)

lemma plex_step_fuel:
  assumes inv: "plex_inv c s" and step: "plex_step c s a = Some t"
  shows "plex_fuel c t < plex_fuel c s"
proof (cases "a \<in> {Go 0, Ret 0, Throw 0}")
  case True
  note p = plex_invD(4) [OF inv] and P = plex_invD(1) [OF inv]
  from step True show ?thesis
  proof (cases rule: producer_cases)
    case (check q)
    then show ?thesis by (intro producer_fuelI) (simp_all add: plex_upd rank_next)
  next
    case (cancel q)
    then show ?thesis by (intro producer_fuelI) (simp_all add: plex_upd rank_next)
  next
    case (finish q)
    then have "q = pg_nPhases c + 1" using p by simp
    with finish show ?thesis by (intro producer_fuelI) (simp_all add: plex_upd)
  next
    case (joinEnd q k leave)
    then show ?thesis by (intro producer_fuelI) (simp_all add: plex_upd)
  next
    case (join q k leave)
    then show ?thesis by (intro producer_fuelI) (simp_all add: plex_upd)
  qed (use P in \<open>auto intro!: producer_fuelI simp: plex_upd\<close>)
next
  case False
  note w = worker_okD [OF plex_invD(2) [OF inv]]
  from step False show ?thesis
  proof (cases rule: worker_cases)
    case stop
    then show ?thesis by (simp add: plex_fuel_def)
  next
    case (spinEnd i q)
    then have "q = pg_nPhases c + 1" using w [of i] by simp
    with spinEnd show ?thesis by (intro worker_fuelI [where i = i and w = "WRetired"]) (simp_all add: plex_upd)
  next
    case (see i q)
    then show ?thesis by (intro worker_fuelI [where i = i and w = "Saw q"]) (simp_all add: plex_upd rank_next)
  next
    case (quit i q)
    then show ?thesis by (intro worker_fuelI [where i = i and w = "DrainFinal"]) (simp_all add: plex_upd rank_next)
  next
    case (drain i q)
    then show ?thesis by (intro worker_fuelI [where i = i and w = "DrainStamp q"]) (simp_all add: plex_upd)
  next
    case (enter i q)
    then show ?thesis by (intro worker_fuelI [where i = i and w = "WBody q"]) (simp_all add: plex_upd)
  next
    case (wRet i q)
    then show ?thesis by (intro worker_fuelI [where i = i and w = "WStamp q"]) (simp_all add: plex_upd)
  next
    case (wThrow i q)
    then show ?thesis by (intro worker_fuelI [where i = i and w = "DrainFinal"]) (simp_all add: plex_upd)
  next
    case (wStamp i q)
    then show ?thesis by (intro worker_fuelI [where i = i and w = "Spin (Suc q)"]) (simp_all add: plex_upd)
  next
    case (drainStamp i q)
    then show ?thesis by (intro worker_fuelI [where i = i and w = "if q < pg_nPhases c then DrainFinal else WRetired"]) (simp_all add: plex_upd)
  next
    case (final i)
    then show ?thesis by (intro worker_fuelI [where i = i and w = "WRetired"]) (simp_all add: plex_upd)
  qed
qed

lemma worker_moves:
  assumes "0 < i" "i < pg_participants c" "px_w s i \<noteq> WRetired"
    "\<And>q. px_w s i = Spin q \<Longrightarrow> q > pg_nPhases c \<or> q \<le> px_currentPhase s \<or> px_cancelled s"
  shows "\<exists>a t. plex_step c s a = Some t"
proof -
  have "worker_go c i s \<noteq> None \<or> worker_ret i s \<noteq> None \<or> worker_cancelled c i s \<noteq> None"
    using assms(3,4) by (cases "px_w s i") (auto simp: worker_go_def worker_ret_def worker_cancelled_def linorder_not_le)
  then show ?thesis
  proof (elim disjE)
    assume "worker_go c i s \<noteq> None"
    then show ?thesis using assms(1,2) by (intro exI [of _ "Go i"]) (simp add: plex_step_def Let_def)
  next
    assume "worker_ret i s \<noteq> None"
    then show ?thesis using assms(1,2) by (intro exI [of _ "Ret i"]) (simp add: plex_step_def Let_def)
  next
    assume "worker_cancelled c i s \<noteq> None"
    then show ?thesis using assms(1,2) by (intro exI [of _ "GoCancelled i"]) (simp add: plex_step_def Let_def)
  qed
qed

lemma plex_producer_moves:
  assumes "px_prod s \<noteq> Retired"
    "\<And>p k leave. px_prod s = Join p k leave \<Longrightarrow> k < pg_participants c \<Longrightarrow> pg_epochBase c + p \<le> px_done s k"
  shows "\<exists>a t. plex_step c s a = Some t"
proof -
  have "producer_go c s \<noteq> None \<or> producer_ret s \<noteq> None"
    using assms by (cases "px_prod s") (auto simp: producer_go_def producer_ret_def)
  then show ?thesis
  proof
    assume "producer_go c s \<noteq> None"
    then show ?thesis by (intro exI [of _ "Go 0"]) (simp add: plex_step_def)
  next
    assume "producer_ret s \<noteq> None"
    then show ?thesis by (intro exI [of _ "Ret 0"]) (simp add: plex_step_def)
  qed
qed

lemma plex_progress:
  assumes inv: "plex_inv c s" and "\<not> plex_retired c s"
  shows "\<exists>a t. plex_step c s a = Some t"
proof -
  note p = plex_invD(4) [OF inv] and w = worker_okD [OF plex_invD(2) [OF inv]]
  consider (a) "px_prod s = Retired"
    | (b) q k leave where "px_prod s = Join q k leave" "k < pg_participants c" "px_done s k < pg_epochBase c + q"
    | (c) "px_prod s \<noteq> Retired" "\<And>p k leave. px_prod s = Join p k leave \<Longrightarrow> k < pg_participants c \<Longrightarrow>
        pg_epochBase c + p \<le> px_done s k"
    by (metis linorder_not_le)
  then show ?thesis
  proof cases
    case a
    then obtain i where "0 < i" "i < pg_participants c" "px_w s i \<noteq> WRetired"
      using assms(2) by (auto simp: plex_retired_def)
    then show ?thesis by (rule worker_moves) (use a p in auto)
  next
    case (b q k leave)
    have k: "0 < k" and q: "q \<le> pg_nPhases c" "px_currentPhase s = q" "1 \<le> q" using b(1) p by auto
    show ?thesis
    proof (rule worker_moves [OF k b(2)])
      show "px_w s k \<noteq> WRetired" using w [OF k b(2)] b(3) q by auto
      show "r > pg_nPhases c \<or> r \<le> px_currentPhase s \<or> px_cancelled s" if "px_w s k = Spin r" for r
        using w [OF k b(2)] b(3) q that by (auto simp: done_at_def split: if_splits)
    qed
  next
    case c
    then show ?thesis by (rule plex_producer_moves)
  qed
qed

section \<open>The properties\<close>

definition plex_start :: "plex_cfg \<Rightarrow> plex \<Rightarrow> bool" where
  "plex_start c s \<longleftrightarrow> 0 < pg_participants c \<and> 0 < pg_nPhases c \<and>
     (\<exists>stale stopped. s = plex_init stale stopped \<and> (\<forall>i < pg_participants c. stale i \<le> pg_epochBase c))"

lemma plex_start_inv: "plex_start c s \<Longrightarrow> plex_inv c s \<and> even_ok c s"
  by (auto simp: plex_start_def plex_init_def plex_inv_def workers_ok_def near_ok_def near_def
      joined_def done_at_def even_ok_def trans_le_add1)

interpretation plex: terminating_system "plex_step c" "plex_start c" "\<lambda>s. plex_inv c s \<and> even_ok c s"
  "plex_retired c" "plex_fuel c" for c
proof unfold_locales
  show "plex_start c s \<Longrightarrow> plex_inv c s \<and> even_ok c s" for s by (rule plex_start_inv)
  show "plex_inv c s \<and> even_ok c s \<Longrightarrow> plex_step c s a = Some t \<Longrightarrow> plex_inv c t \<and> even_ok c t" for s a t
    using plex_keep even_worker even_producer by blast
qed (use plex_step_fuel plex_progress in blast)+

lemma plex_start_fuel:
  assumes "plex_start c s"
  shows "plex_fuel c s \<le> (pg_nPhases c + 1) * (6 * pg_participants c + 6) + 1"
  using assms by (auto simp: plex_start_def plex_init_def plex_fuel_def algebra_simps)

text \<open>The epochs of one call are above the stamps of the earlier ones and do not wrap.\<close>

lemma plex_epochs_fresh:
  assumes "plex_epochs P N base stamps = (eb, base', stale)" "\<forall>i < P. stamps i \<le> base" "N < 1024" "base \<le> SIZE_MAX"
  shows "(\<forall>i < P. stale i \<le> eb) \<and> base' = eb + N + 1 \<and> base' \<le> SIZE_MAX"
proof (cases "base > SIZE_MAX - 1024")
  case True
  then have "eb = 0" "base' = N + 1" "\<forall>i < P. stale i = 0"
    using assms(1,3) by (auto simp: plex_epochs_def)
  then show ?thesis using assms(3) by (simp add: SIZE_MAX_def)
next
  case False
  then have "base + N + 1 < 2 ^ 64" using assms(3) by (simp add: SIZE_MAX_def)
  then show ?thesis using assms False by (auto simp: plex_epochs_def SIZE_MAX_def)
qed

lemma plex_inv_retired:
  assumes "plex_inv c t" "even_ok c t" "plex_retired c t" "px_exc t = None"
  shows "\<exists>k \<le> pg_nPhases c. px_hooks t = [0..<k] \<and> (\<forall>i < pg_participants c. px_ran t i = [0..<k]) \<and>
      (k = pg_nPhases c \<or> px_stop t)"
proof (cases "px_cancelled t")
  case True
  then have "px_stop t" using plex_invD(6) [OF assms(1)] assms(4) by simp
  then show ?thesis using True assms(2,4) plex_invD(3) [OF assms(1)]
    by (intro exI [of _ "length (px_hooks t)"]) (simp add: even_ok_def near_ok_def)
next
  case False
  have r: "px_prod t = Retired" "\<And>i. 0 < i \<Longrightarrow> i < pg_participants c \<Longrightarrow> px_w t i = WRetired"
    using assms(3) by (simp_all add: plex_retired_def)
  have "px_ran t i = [0..<pg_nPhases c]" if i: "i < pg_participants c" for i
  proof (cases "i = 0")
    case False
    then show ?thesis using worker_okD [OF plex_invD(2) [OF assms(1)] _ i] r(2) [OF _ i] \<open>\<not> px_cancelled t\<close> by simp
  qed (use plex_invD(4) [OF assms(1)] r(1) False in simp)
  moreover have "px_hooks t = [0..<pg_nPhases c]"
    using plex_invD(3,4) [OF assms(1)] r(1) False by (simp add: near_ok_def)
  ultimately show ?thesis by blast
qed

lemma near_le: "near h rs \<Longrightarrow> \<exists>k. rs = [0..<k] \<and> k \<le> h \<and> h \<le> k + 1"
  by (auto simp: near_def)

text \<open>The rows whose body ran in phase \<open>p\<close>, slot by slot.\<close>

definition plex_rows :: "plex_cfg \<Rightarrow> nat \<Rightarrow> plex \<Rightarrow> nat \<Rightarrow> nat list" where
  "plex_rows c n s p = concat (map (\<lambda>i. case slotRange n (pg_participants c) i of (lo, hi) \<Rightarrow>
     concat (map (\<lambda>q. if q = p then [lo..<hi] else []) (px_ran s i))) [0..<pg_participants c])"

lemma concat_pick: "concat (map (\<lambda>q. if q = p then xs else []) [0..<k]) = (if p < k then xs else [])"
  by (induction k) auto

lemma plex_rows_even:
  assumes "\<forall>i < pg_participants c. px_ran s i = [0..<k]" "0 < pg_participants c"
    "n < 2 ^ 64" "pg_participants c < 2 ^ 64"
  shows "plex_rows c n s p = (if p < k then [0..<n] else [])"
proof -
  let ?P = "pg_participants c"
  have "map (\<lambda>i. case slotRange n ?P i of (lo, hi) \<Rightarrow>
      concat (map (\<lambda>q. if q = p then [lo..<hi] else []) (px_ran s i))) [0..<?P]
    = map (\<lambda>i. if p < k then [fst (slotRange n ?P i)..<snd (slotRange n ?P i)] else []) [0..<?P]"
    by (rule map_cong) (use assms(1) in \<open>auto simp: concat_pick split: prod.split\<close>)
  moreover have "concat (map (\<lambda>i. if p < k then [fst (slotRange n ?P i)..<snd (slotRange n ?P i)] else []) [0..<?P])
    = (if p < k then [0..<n] else [])"
    using slotRange_tile [OF assms(3,2,4)] by simp
  ultimately show ?thesis unfolding plex_rows_def by (rule trans [OF arg_cong])
qed

text \<open>
  C33. The phases are a barrier, for fewer than 1024 of them, which is the slack of the guard against
  epochs that wrap. Whatever the interleaving, the exceptions and the stop requests: the hooks run in order, each slot runs its phases in order, a slot runs a phase only after the
  hook of that phase, and the hook only after every slot has run the phase before. When all slots
  have returned and nothing threw, every hook and every slot ran the same phases, all of them
  unless a stop was requested, and each of them ran every row of \<open>[0, n)\<close> once. The stamps left behind never reach the epochs of the next call.
\<close>

theorem plex_barrier:
  assumes "0 < pg_participants c" and "0 < pg_nPhases c" and "pg_nPhases c < 1024" and "base \<le> SIZE_MAX"
    and "pg_participants c < 2 ^ 32" and "n < 2 ^ 64"
    and "\<forall>i < pg_participants c. stamps i \<le> base"
    and "plex_epochs (pg_participants c) (pg_nPhases c) base stamps = (pg_epochBase c, base', stale)"
    and "run (plex_step c) (plex_init stale stopped) acts = Some t"
  shows "(\<exists>h. px_hooks t = [0..<h] \<and>
      (\<forall>i < pg_participants c. \<exists>k. px_ran t i = [0..<k] \<and> k \<le> h \<and> h \<le> k + 1)) \<and>
    (plex_retired c t \<and> px_exc t = None \<longrightarrow>
      (\<exists>k \<le> pg_nPhases c. px_hooks t = [0..<k] \<and> (\<forall>i < pg_participants c. px_ran t i = [0..<k]) \<and>
        (\<forall>p. plex_rows c n t p = (if p < k then [0..<n] else [])) \<and> (k = pg_nPhases c \<or> px_stop t))) \<and>
    base' \<le> SIZE_MAX \<and> (\<forall>i < pg_participants c. px_done t i \<le> base')"
proof -
  note e = plex_epochs_fresh [OF assms(8,7,3,4)]
  have "plex_start c (plex_init stale stopped)" using assms(1,2) e by (auto simp: plex_start_def)
  from plex.run_inv [OF this assms(9)] have inv: "plex_inv c t" "even_ok c t" by simp_all
  show ?thesis
  proof (intro conjI impI)
    show "\<exists>h. px_hooks t = [0..<h] \<and>
      (\<forall>i < pg_participants c. \<exists>k. px_ran t i = [0..<k] \<and> k \<le> h \<and> h \<le> k + 1)"
      using plex_invD(3) [OF inv(1)] near_le unfolding near_ok_def by blast
    show "\<forall>i < pg_participants c. px_done t i \<le> base'"
      using plex_invD(3) [OF inv(1)] e by (auto simp: near_ok_def trans_le_add1 le_SucI)
    assume "plex_retired c t \<and> px_exc t = None"
    then obtain k where k: "k \<le> pg_nPhases c" "px_hooks t = [0..<k]"
      "\<forall>i < pg_participants c. px_ran t i = [0..<k]" "k = pg_nPhases c \<or> px_stop t"
      using plex_inv_retired [OF inv] by blast
    moreover have "plex_rows c n t p = (if p < k then [0..<n] else [])" for p
      by (rule plex_rows_even [OF k(3) assms(1,6)]) (use assms(5) in simp)
    ultimately show "\<exists>k \<le> pg_nPhases c. px_hooks t = [0..<k] \<and> (\<forall>i < pg_participants c. px_ran t i = [0..<k]) \<and>
        (\<forall>p. plex_rows c n t p = (if p < k then [0..<n] else [])) \<and> (k = pg_nPhases c \<or> px_stop t)"
      by blast
  qed (use e in simp_all)
qed

text \<open>Two slots, two phases; slot 1's first slice ends before slot 0's.\<close>

definition two_by_two :: plex_cfg where
  "two_by_two = \<lparr> pg_nPhases = 2, pg_participants = 2, pg_epochBase = 9 \<rparr>"

definition two_by_two_run :: "plex_act list" where
  "two_by_two_run = [Go 0, Ret 0, Go 0, Go 1, Go 1, Ret 1, Go 1, Ret 0, Go 0, Go 0, Go 0, Go 0, Ret 0, Go 0,
     Ret 0, Go 0, Go 1, Go 1, Ret 1, Go 1, Go 1, Go 0, Go 0, Go 0]"

lemma two_by_two_result:
  "case run (plex_step two_by_two) (plex_init (\<lambda>_. 8) False) two_by_two_run of None \<Rightarrow> False
   | Some t \<Rightarrow> px_prod t = Retired \<and> px_w t 1 = WRetired \<and> px_exc t = None \<and> \<not> px_stop t"
  by (simp add: two_by_two_run_def two_by_two_def plex_init_def plex_step_def producer_go_def producer_ret_def
      worker_go_def worker_ret_def plex_upd Let_def)

theorem plex_barrier_witness:
  "\<exists>t. run (plex_step two_by_two) (plex_init (\<lambda>_. 8) False) two_by_two_run = Some t \<and>
    px_hooks t = [0..<2] \<and> px_ran t 1 = [0..<2] \<and> plex_rows two_by_two 5 t 1 = [0..<5] \<and> px_done t 1 \<le> 12"
proof -
  obtain t where t: "run (plex_step two_by_two) (plex_init (\<lambda>_. 8) False) two_by_two_run = Some t"
    "px_prod t = Retired" "px_w t 1 = WRetired" "px_exc t = None" "\<not> px_stop t"
    using two_by_two_result by (auto split: option.splits)
  have r: "plex_retired two_by_two t" using t(2,3) by (simp add: plex_retired_def two_by_two_def less_2_cases_iff)
  have "plex_epochs (pg_participants two_by_two) (pg_nPhases two_by_two) 9 (\<lambda>_. 8) = (pg_epochBase two_by_two, 12, \<lambda>_. 8)"
    by (simp add: plex_epochs_def two_by_two_def SIZE_MAX_def)
  from plex_barrier [OF _ _ _ _ _ _ _ this t(1), of 5] r t(4,5)
  show ?thesis using t(1) by (auto simp: two_by_two_def SIZE_MAX_def)
qed

text \<open>
  C34. The plex always returns: every schedule is bounded by \<open>(N + 1) * (6 * P + 6) + 1\<close> steps for
  \<open>N\<close> phases and \<open>P\<close> slots, and every partial run, whatever threw or was stopped in it, extends to
  one in which all slots have returned.
\<close>

theorem plex_terminates:
  assumes "0 < pg_participants c" and "0 < pg_nPhases c" and "\<forall>i < pg_participants c. stale i \<le> pg_epochBase c"
    and "run (plex_step c) (plex_init stale stopped) acts = Some t"
  shows "length acts \<le> (pg_nPhases c + 1) * (6 * pg_participants c + 6) + 1 \<and>
    (\<exists>bs u. run (plex_step c) (plex_init stale stopped) (acts @ bs) = Some u \<and> plex_retired c u)"
proof -
  have s: "plex_start c (plex_init stale stopped)" using assms(1-3) by (auto simp: plex_start_def)
  from plex.run_bounded [OF s assms(4)] plex_start_fuel [OF s] plex.run_completes [OF s assms(4)]
  show ?thesis by simp
qed

theorem plex_terminates_witness:
  "\<exists>bs u. run (plex_step two_by_two) (plex_init (\<lambda>_. 9) False) ([Go 0, Ret 0, Go 0, Go 1, Go 1, Throw 1] @ bs) = Some u \<and>
    plex_retired two_by_two u"
proof -
  have "run (plex_step two_by_two) (plex_init (\<lambda>_. 9) False) [Go 0, Ret 0, Go 0, Go 1, Go 1, Throw 1] \<noteq> None"
    by (simp add: two_by_two_def plex_init_def plex_step_def producer_go_def producer_ret_def
      worker_go_def worker_throw_def plex_upd Let_def)
  then obtain t where
    "run (plex_step two_by_two) (plex_init (\<lambda>_. 9) False) [Go 0, Ret 0, Go 0, Go 1, Go 1, Throw 1] = Some t"
    by blast
  from plex_terminates [OF _ _ _ this] show ?thesis by (simp add: two_by_two_def)
qed

end
