(* ===== verification/Chain.thy ===== *)
theory Chain
  imports Job
begin

text \<open>
  The stage chain (\<open>parallelChain\<close>, \<open>runChainStageForSlot\<close> and \<open>runChainInline\<close> of
  \<open>thread_pool.h\<close>, \<open>chain_state.h\<close>): every slot runs its share of every stage; the barrier declared
  after a stage says whom a slot waits for before the next one.

  A step is one atomic operation of one slot or one call of a stage body. A throw stores the
  exception and the cancellation flag in one step, and the check at a stage boundary reads the flag
  and the token, and stores the flag, in one. \<open>cn_ran\<close> records the stages each slot's body returned
  from. The two ways a slot returns, after all stages or on cancellation, are kept apart.
\<close>

section \<open>Entry, inline form and block shapes\<close>

fun runChainInlineRec :: "nat \<Rightarrow> nat \<Rightarrow> (nat \<Rightarrow> bool) \<Rightarrow> (nat \<Rightarrow> nat \<Rightarrow> nat \<Rightarrow> nat \<Rightarrow> 'e option) \<Rightarrow> nat \<Rightarrow>
    'e option \<times> nat list" where
  "runChainInlineRec 0 I stop fn n = (None, [])"
| "runChainInlineRec (Suc k) I stop fn n =
     (if stop I then (None, [])
      else (case fn I 0 0 n of Some e \<Rightarrow> (Some e, [])
        | None \<Rightarrow> (case runChainInlineRec k (Suc I) stop fn n of (r, stages) \<Rightarrow> (r, I # stages))))"

definition runChainInline :: "nat \<Rightarrow> (nat \<Rightarrow> bool) \<Rightarrow> (nat \<Rightarrow> nat \<Rightarrow> nat \<Rightarrow> nat \<Rightarrow> 'e option) \<Rightarrow> nat \<Rightarrow>
    'e option \<times> nat list" where
  "runChainInline nStages stop fn n = runChainInlineRec nStages 0 stop fn n"

fun allowsDynamicRebalance :: "BarrierKind \<Rightarrow> bool" where
  "allowsDynamicRebalance BarrierGlobal = True"
| "allowsDynamicRebalance DeterministicReduce = True"
| "allowsDynamicRebalance _ = False"

datatype chain_route = ChainNothing | ChainInline | ChainDynamic | ChainSameChunk

definition parallelChain :: "BarrierKind list \<Rightarrow> nat \<Rightarrow> nat \<Rightarrow> bool \<Rightarrow> bool \<Rightarrow> chain_route" where
  "parallelChain barriers n participants fallThrough dynamicRequested =
     (if barriers = [] then ChainNothing
      else if participants \<le> 1 \<or> fallThrough then ChainInline
      else if dynamicRequested \<and> list_all allowsDynamicRebalance barriers \<and> n > 0 then ChainDynamic
      else ChainSameChunk)"

definition chainDynamicChunkSize :: "nat \<Rightarrow> nat \<Rightarrow> nat \<Rightarrow> nat" where
  "chainDynamicChunkSize n participants hintChunk =
     (if hintChunk \<noteq> 0 then hintChunk else ceilDiv n (participants * 2))"

definition dynamicBlockRange :: "nat \<Rightarrow> nat \<Rightarrow> nat \<Rightarrow> nat \<times> nat" where
  "dynamicBlockRange n dynamicChunk block =
     (let lo = block * dynamicChunk in (lo, if dynamicChunk < n - lo then lo + dynamicChunk else n))"

text \<open>The blocks of a dynamic stage cover \<open>[0, n)\<close> once, in order.\<close>

lemma dynamicBlocks_tile:
  assumes "0 < chunk"
  shows "concat (map (\<lambda>b. case dynamicBlockRange n chunk b of (lo, hi) \<Rightarrow> [lo..<hi]) [0..<ceilDiv n chunk]) = [0..<n]"
proof -
  let ?e = "\<lambda>b. min (b * chunk) n"
  have "map (\<lambda>b. case dynamicBlockRange n chunk b of (lo, hi) \<Rightarrow> [lo..<hi]) [0..<ceilDiv n chunk]
    = map (\<lambda>b. [?e b..<?e (Suc b)]) [0..<ceilDiv n chunk]"
  proof (rule map_cong)
    fix b assume "b \<in> set [0..<ceilDiv n chunk]"
    then have "b * chunk < n" using ceilDiv_lower [OF assms, of b n] by simp
    then show "(case dynamicBlockRange n chunk b of (lo, hi) \<Rightarrow> [lo..<hi]) = [?e b..<?e (Suc b)]"
    proof -
      have "(if chunk < n - b * chunk then b * chunk + chunk else n) = ?e (Suc b)"
        using \<open>b * chunk < n\<close> by (auto simp: min_def)
      then show ?thesis using \<open>b * chunk < n\<close> by (simp add: dynamicBlockRange_def Let_def)
    qed
  qed simp
  then have "concat (map (\<lambda>b. case dynamicBlockRange n chunk b of (lo, hi) \<Rightarrow> [lo..<hi]) [0..<ceilDiv n chunk])
    = concat (map (\<lambda>b. [?e b..<?e (Suc b)]) [0..<ceilDiv n chunk])" by (rule arg_cong)
  also have "\<dots> = [?e 0..<?e (ceilDiv n chunk)]"
    by (rule concat_intervals) (simp add: min_def)
  also have "\<dots> = [0..<n]" using ceilDiv_upper [OF assms, of n] by (simp add: min_def)
  finally show ?thesis .
qed

definition chain_epochs :: "nat \<Rightarrow> nat \<Rightarrow> nat \<Rightarrow> (nat \<Rightarrow> nat) \<Rightarrow> nat \<times> nat \<times> (nat \<Rightarrow> nat)" where
  "chain_epochs participants nStages chainEpochBase stamps =
     (if chainEpochBase > SIZE_MAX - 1024
      then (0, w64 (nStages + 1), \<lambda>i. if i < participants then 0 else stamps i)
      else (chainEpochBase, w64 (chainEpochBase + w64 (nStages + 1)), stamps))"

section \<open>State\<close>

record chain_cfg =
  cg_barriers :: "BarrierKind list"
  cg_participants :: nat
  cg_epochBase :: nat

definition nStages :: "chain_cfg \<Rightarrow> nat" where
  "nStages c = length (cg_barriers c)"

datatype chain_pc =
    WaitAllSlots nat nat   \<comment> \<open>stage and step of \<open>waitAllSlotsDone\<close>\<close>
  | WaitSerial nat
  | Boundary nat bool      \<comment> \<open>the check before a stage; does this slot run its body?\<close>
  | StageBody nat
  | StampStage nat
  | FinalStamp
  | Bailed
  | ChainEnd

record chain =
  cn_pc :: "nat \<Rightarrow> chain_pc"
  cn_cancelled :: bool
  cn_exc :: "nat option"
  cn_stop :: bool
  cn_done :: "nat \<Rightarrow> nat"
  cn_ran :: "nat \<Rightarrow> nat list"

datatype chain_act = Go nat | Ret nat | Throw nat | RequestStop

section \<open>The steps\<close>

definition set_chain_pc :: "nat \<Rightarrow> chain_pc \<Rightarrow> chain \<Rightarrow> chain" where
  "set_chain_pc i p s = s\<lparr> cn_pc := (cn_pc s)(i := p) \<rparr>"

definition chain_stamp :: "nat \<Rightarrow> nat \<Rightarrow> chain \<Rightarrow> chain" where
  "chain_stamp i e s = s\<lparr> cn_done := (cn_done s)(i := e) \<rparr>"

text \<open>Where slot \<open>i\<close> starts stage \<open>I\<close>.\<close>

definition enter_stage :: "chain_cfg \<Rightarrow> nat \<Rightarrow> nat \<Rightarrow> chain_pc" where
  "enter_stage c i I =
     (if I \<ge> nStages c then ChainEnd
      else if I = 0 then Boundary 0 True
      else (case cg_barriers c ! (I - 1) of
          ProducerSerial \<Rightarrow> if i \<noteq> 0 then WaitSerial I else Boundary I True
        | BarrierNone \<Rightarrow> Boundary I True
        | _ \<Rightarrow> WaitAllSlots I 1))"

definition stamp_needed :: "chain_cfg \<Rightarrow> nat \<Rightarrow> nat \<Rightarrow> bool" where
  "stamp_needed c i I \<longleftrightarrow> cg_barriers c ! I \<noteq> BarrierNone \<or>
     (I > 0 \<and> cg_barriers c ! (I - 1) = ProducerSerial \<and> i = 0)"

definition chain_peer :: "chain_cfg \<Rightarrow> nat \<Rightarrow> nat \<Rightarrow> nat" where
  "chain_peer c self step =
     (if self + step < cg_participants c then self + step else self + step - cg_participants c)"

definition chain_go :: "chain_cfg \<Rightarrow> nat \<Rightarrow> chain \<Rightarrow> chain option" where
  "chain_go c i s = (case cn_pc s i of
     WaitAllSlots I k \<Rightarrow> (if k \<ge> cg_participants c then Some (set_chain_pc i (Boundary I True) s)
       else if cn_done s (chain_peer c i k) < cg_epochBase c + I then None
       else Some (set_chain_pc i (WaitAllSlots I (Suc k)) s))
   | WaitSerial I \<Rightarrow> (if cn_done s 0 < cg_epochBase c + (I + 1) then None
       else Some (set_chain_pc i (Boundary I False) s))
   | Boundary I slotRunsBody \<Rightarrow> Some (
       if cn_cancelled s \<or> cn_stop s then set_chain_pc i FinalStamp (s\<lparr> cn_cancelled := True \<rparr>)
       else set_chain_pc i (if slotRunsBody then StageBody I else StampStage I) s)
   | StampStage I \<Rightarrow> Some (set_chain_pc i (enter_stage c i (Suc I))
       (if stamp_needed c i I then chain_stamp i (cg_epochBase c + (I + 1)) s else s))
   | FinalStamp \<Rightarrow> Some (set_chain_pc i Bailed (chain_stamp i (cg_epochBase c + nStages c) s))
   | _ \<Rightarrow> None)"

definition chain_ret :: "nat \<Rightarrow> chain \<Rightarrow> chain option" where
  "chain_ret i s = (case cn_pc s i of
     StageBody I \<Rightarrow> Some (set_chain_pc i (StampStage I) (s\<lparr> cn_ran := (cn_ran s)(i := cn_ran s i @ [I]) \<rparr>))
   | _ \<Rightarrow> None)"

definition chain_throw :: "nat \<Rightarrow> chain \<Rightarrow> chain option" where
  "chain_throw i s = (case cn_pc s i of
     StageBody I \<Rightarrow> Some (set_chain_pc i FinalStamp
       (s\<lparr> cn_exc := (case cn_exc s of None \<Rightarrow> Some i | Some j \<Rightarrow> Some j), cn_cancelled := True \<rparr>))
   | _ \<Rightarrow> None)"

definition chain_step :: "chain_cfg \<Rightarrow> chain \<Rightarrow> chain_act \<Rightarrow> chain option" where
  "chain_step c s a = (case a of
     Go i \<Rightarrow> if i < cg_participants c then chain_go c i s else None
   | Ret i \<Rightarrow> if i < cg_participants c then chain_ret i s else None
   | Throw i \<Rightarrow> if i < cg_participants c then chain_throw i s else None
   | RequestStop \<Rightarrow> if cn_stop s then None else Some (s\<lparr> cn_stop := True \<rparr>))"

definition chain_init :: "chain_cfg \<Rightarrow> (nat \<Rightarrow> nat) \<Rightarrow> bool \<Rightarrow> chain" where
  "chain_init c stale stopped = \<lparr> cn_pc = (\<lambda>i. enter_stage c i 0), cn_cancelled = False, cn_exc = None,
     cn_stop = stopped, cn_done = stale, cn_ran = (\<lambda>_. []) \<rparr>"

definition chain_retired :: "chain_cfg \<Rightarrow> chain \<Rightarrow> bool" where
  "chain_retired c s \<longleftrightarrow> (\<forall>i < cg_participants c. cn_pc s i = ChainEnd \<or> cn_pc s i = Bailed)"

section \<open>The invariant\<close>

text \<open>Does slot \<open>i\<close> run the body of stage \<open>I\<close>?\<close>

definition runs :: "chain_cfg \<Rightarrow> nat \<Rightarrow> nat \<Rightarrow> bool" where
  "runs c i I \<longleftrightarrow> i = 0 \<or> I = 0 \<or> cg_barriers c ! (I - 1) \<noteq> ProducerSerial"

definition stages_upto :: "chain_cfg \<Rightarrow> nat \<Rightarrow> nat \<Rightarrow> nat list" where
  "stages_upto c i I = filter (runs c i) [0..<I]"

definition globally :: "chain_cfg \<Rightarrow> nat \<Rightarrow> bool" where
  "globally c I \<longleftrightarrow> 0 < I \<and> allowsDynamicRebalance (cg_barriers c ! (I - 1))"

definition serially :: "chain_cfg \<Rightarrow> nat \<Rightarrow> bool" where
  "serially c I \<longleftrightarrow> 0 < I \<and> cg_barriers c ! (I - 1) = ProducerSerial"

text \<open>The stages a slot that was not cancelled has left behind.\<close>

fun stage_level :: "chain_cfg \<Rightarrow> chain_pc \<Rightarrow> nat" where
  "stage_level c (WaitAllSlots I k) = I"
| "stage_level c (WaitSerial I) = I"
| "stage_level c (Boundary I r) = I"
| "stage_level c (StageBody I) = I"
| "stage_level c (StampStage I) = I"
| "stage_level c _ = nStages c"

definition cancelled_pc :: "chain_pc \<Rightarrow> bool" where
  "cancelled_pc p \<longleftrightarrow> p = FinalStamp \<or> p = Bailed"

fun pc_ok :: "chain_cfg \<Rightarrow> nat \<Rightarrow> chain_pc \<Rightarrow> bool" where
  "pc_ok c i (WaitAllSlots I k) = (I < nStages c \<and> globally c I \<and> 1 \<le> k)"
| "pc_ok c i (WaitSerial I) = (I < nStages c \<and> serially c I \<and> i \<noteq> 0)"
| "pc_ok c i (Boundary I r) = (I < nStages c \<and> r = runs c i I)"
| "pc_ok c i (StageBody I) = (I < nStages c \<and> runs c i I)"
| "pc_ok c i (StampStage I) = (I < nStages c)"
| "pc_ok c i _ = True"

text \<open>The stamp of a slot: bounded by its level, and at least the last stamp it owes.\<close>

definition stamp_ok :: "chain_cfg \<Rightarrow> nat \<Rightarrow> chain_pc \<Rightarrow> nat \<Rightarrow> bool" where
  "stamp_ok c i p d \<longleftrightarrow> d \<le> cg_epochBase c + stage_level c p \<and>
     (p = Bailed \<longrightarrow> d = cg_epochBase c + nStages c) \<and>
     (\<not> cancelled_pc p \<longrightarrow> (\<forall>J < stage_level c p. stamp_needed c i J \<longrightarrow> cg_epochBase c + (J + 1) \<le> d))"

fun ran_ok :: "chain_cfg \<Rightarrow> nat \<Rightarrow> chain_pc \<Rightarrow> nat list \<Rightarrow> bool" where
  "ran_ok c i (StampStage I) rs = (rs = stages_upto c i (Suc I))"
| "ran_ok c i FinalStamp rs = (\<exists>I \<le> nStages c. rs = stages_upto c i I)"
| "ran_ok c i Bailed rs = (\<exists>I \<le> nStages c. rs = stages_upto c i I)"
| "ran_ok c i p rs = (rs = stages_upto c i (stage_level c p))"

text \<open>The barriers a slot has passed.\<close>

fun passed :: "chain_cfg \<Rightarrow> chain_pc \<Rightarrow> nat \<Rightarrow> bool" where
  "passed c (StageBody I) J = (J \<le> I)"
| "passed c (StampStage I) J = (J \<le> I)"
| "passed c FinalStamp J = False"
| "passed c Bailed J = False"
| "passed c p J = (J < stage_level c p)"

definition synced :: "chain_cfg \<Rightarrow> chain \<Rightarrow> nat \<Rightarrow> nat \<Rightarrow> bool" where
  "synced c s i I \<longleftrightarrow>
     (globally c I \<longrightarrow> (\<forall>j < cg_participants c. set (stages_upto c j I) \<subseteq> set (cn_ran s j))) \<and>
     (serially c I \<and> i \<noteq> 0 \<longrightarrow> I \<in> set (cn_ran s 0))"

text \<open>What a slot has seen of its peers at the barrier it waits at.\<close>

fun seen :: "chain_cfg \<Rightarrow> nat \<Rightarrow> chain_pc \<Rightarrow> (nat \<Rightarrow> nat) \<Rightarrow> bool" where
  "seen c i (WaitAllSlots I k) d = (\<forall>j. 1 \<le> j \<and> j < k \<and> j < cg_participants c \<longrightarrow>
     cg_epochBase c + I \<le> d (chain_peer c i j))"
| "seen c i (Boundary I r) d = ((globally c I \<longrightarrow> (\<forall>j. 1 \<le> j \<and> j < cg_participants c \<longrightarrow>
       cg_epochBase c + I \<le> d (chain_peer c i j))) \<and>
     (serially c I \<and> i \<noteq> 0 \<longrightarrow> cg_epochBase c + (I + 1) \<le> d 0))"
| "seen c i _ d = True"

definition chain_slot_inv :: "chain_cfg \<Rightarrow> chain \<Rightarrow> nat \<Rightarrow> bool" where
  "chain_slot_inv c s i \<longleftrightarrow> pc_ok c i (cn_pc s i) \<and> stamp_ok c i (cn_pc s i) (cn_done s i) \<and>
     ran_ok c i (cn_pc s i) (cn_ran s i) \<and> seen c i (cn_pc s i) (cn_done s) \<and>
     (cancelled_pc (cn_pc s i) \<longrightarrow> cn_cancelled s) \<and>
     (\<forall>I. passed c (cn_pc s i) I \<longrightarrow> synced c s i I)"

definition chain_inv :: "chain_cfg \<Rightarrow> chain \<Rightarrow> bool" where
  "chain_inv c s \<longleftrightarrow> 0 < cg_participants c \<and> (\<forall>i < cg_participants c. chain_slot_inv c s i) \<and>
     (cn_cancelled s \<longrightarrow> cn_exc s \<noteq> None \<or> cn_stop s) \<and> (cn_exc s \<noteq> None \<longrightarrow> cn_cancelled s)"

section \<open>Every step keeps the invariant\<close>

lemma chain_invD:
  assumes "chain_inv c s"
  shows "0 < cg_participants c" "i < cg_participants c \<Longrightarrow> chain_slot_inv c s i"
    "cn_cancelled s \<Longrightarrow> cn_exc s \<noteq> None \<or> cn_stop s" "cn_exc s \<noteq> None \<Longrightarrow> cn_cancelled s"
  using assms by (simp_all add: chain_inv_def)

lemma chain_slot_invD:
  assumes "chain_slot_inv c s i"
  shows "pc_ok c i (cn_pc s i)" "stamp_ok c i (cn_pc s i) (cn_done s i)" "ran_ok c i (cn_pc s i) (cn_ran s i)"
    "seen c i (cn_pc s i) (cn_done s)" "cancelled_pc (cn_pc s i) \<Longrightarrow> cn_cancelled s"
    "passed c (cn_pc s i) I \<Longrightarrow> synced c s i I"
  using assms by (simp_all add: chain_slot_inv_def)

lemma stages_upto_Suc:
  "stages_upto c i (Suc I) = (if runs c i I then stages_upto c i I @ [I] else stages_upto c i I)"
  by (simp add: stages_upto_def)

lemma stages_upto_mono: "I \<le> J \<Longrightarrow> set (stages_upto c i I) \<subseteq> set (stages_upto c i J)"
  by (auto simp: stages_upto_def)

lemma seen_mono: "seen c i p d \<Longrightarrow> (\<And>j. d j \<le> d' j) \<Longrightarrow> seen c i p d'"
  by (cases p) (auto intro: le_trans)

lemma synced_mono: "synced c s i I \<Longrightarrow> (\<And>j. set (cn_ran s j) \<subseteq> set (cn_ran t j)) \<Longrightarrow> synced c t i I"
  unfolding synced_def by blast

lemma slot_frame:
  assumes "chain_slot_inv c s j" "cn_pc t j = cn_pc s j" "cn_done t j = cn_done s j" "cn_ran t j = cn_ran s j"
    "\<And>k. cn_done s k \<le> cn_done t k" "\<And>k. set (cn_ran s k) \<subseteq> set (cn_ran t k)" "cn_cancelled s \<Longrightarrow> cn_cancelled t"
  shows "chain_slot_inv c t j"
  using chain_slot_invD [OF assms(1)] seen_mono [of c j "cn_pc s j" "cn_done s" "cn_done t", OF _ assms(5)]
    synced_mono [of c s j _ t, OF _ assms(6)] assms(7)
  unfolding chain_slot_inv_def assms(2-4) by blast

lemma ran_ok_final: "rs = stages_upto c i I \<Longrightarrow> I \<le> nStages c \<Longrightarrow> ran_ok c i FinalStamp rs"
  by auto

lemma chain_moveI:
  assumes inv: "chain_inv c s" and i: "i < cg_participants c"
    and upd: "cn_pc t = (cn_pc s)(i := p)" "cn_done t = (cn_done s)(i := d)" "cn_ran t = (cn_ran s)(i := rs)"
    and mono: "cn_done s i \<le> d" "set (cn_ran s i) \<subseteq> set rs" "cn_cancelled s \<Longrightarrow> cn_cancelled t"
    and flags: "cn_cancelled t \<Longrightarrow> cn_exc t \<noteq> None \<or> cn_stop t" "cn_exc t \<noteq> None \<Longrightarrow> cn_cancelled t"
    and own: "chain_slot_inv c t i"
  shows "chain_inv c t"
  unfolding chain_inv_def
proof (intro conjI allI impI)
  show "0 < cg_participants c" by (rule chain_invD(1) [OF inv])
  fix j assume j: "j < cg_participants c"
  show "chain_slot_inv c t j"
  proof (cases "j = i")
    case False
    show ?thesis by (rule slot_frame [OF chain_invD(2) [OF inv j]]) (use False upd mono in auto)
  qed (use own in simp)
qed (use flags in auto)

lemma enter_stage_facts:
  assumes "I \<le> nStages c"
  shows "stage_level c (enter_stage c i I) = I" "pc_ok c i (enter_stage c i I)" "seen c i (enter_stage c i I) d"
    "ran_ok c i (enter_stage c i I) rs \<longleftrightarrow> rs = stages_upto c i I" "passed c (enter_stage c i I) J \<longleftrightarrow> J < I"
    "\<not> cancelled_pc (enter_stage c i I)"
  using assms by (auto simp: enter_stage_def globally_def serially_def runs_def cancelled_pc_def split: BarrierKind.splits)

text \<open>Before anything was cancelled a stamp tells which stages its slot has run.\<close>

lemma stamp_tells:
  assumes "chain_slot_inv c s j" "\<not> cn_cancelled s" "cg_epochBase c + I \<le> cn_done s j"
  shows "set (stages_upto c j I) \<subseteq> set (cn_ran s j)"
proof -
  have nc: "\<not> cancelled_pc (cn_pc s j)" using chain_slot_invD(5) [OF assms(1)] assms(2) by blast
  have "I \<le> stage_level c (cn_pc s j)" using chain_slot_invD(2) [OF assms(1)] assms(3) by (simp add: stamp_ok_def)
  then have "set (stages_upto c j I) \<subseteq> set (stages_upto c j (stage_level c (cn_pc s j)))" by (rule stages_upto_mono)
  moreover have "set (stages_upto c j (stage_level c (cn_pc s j))) \<subseteq> set (cn_ran s j)"
    using chain_slot_invD(3) [OF assms(1)] nc stages_upto_mono [of "stage_level c (cn_pc s j)" "Suc (stage_level c (cn_pc s j))" c j]
    by (cases "cn_pc s j") (simp_all add: cancelled_pc_def)
  ultimately show ?thesis by blast
qed

lemma peer_of:
  assumes "i < cg_participants c" "j < cg_participants c" "j \<noteq> i"
  shows "\<exists>k. 1 \<le> k \<and> k < cg_participants c \<and> chain_peer c i k = j"
proof (cases "i < j")
  case True
  then show ?thesis using assms by (intro exI [of _ "j - i"]) (auto simp: chain_peer_def)
next
  case False
  then show ?thesis using assms by (intro exI [of _ "cg_participants c + j - i"]) (auto simp: chain_peer_def)
qed

lemma boundary_synced:
  assumes inv: "chain_inv c s" and i: "i < cg_participants c" "cn_pc s i = Boundary I r" and nc: "\<not> cn_cancelled s"
  shows "synced c s i I"
  unfolding synced_def
proof (intro conjI impI allI)
  have seen: "seen c i (Boundary I r) (cn_done s)" using chain_slot_invD(4) [OF chain_invD(2) [OF inv i(1)]] i(2) by simp
  {
    fix j assume g: "globally c I" and j: "j < cg_participants c"
    show "set (stages_upto c j I) \<subseteq> set (cn_ran s j)"
    proof (cases "j = i")
      case True
      then show ?thesis using chain_slot_invD(3) [OF chain_invD(2) [OF inv i(1)]] i(2) by simp
    next
      case False
      then obtain k where "1 \<le> k" "k < cg_participants c" "chain_peer c i k = j" using peer_of [OF i(1) j] by blast
      then have "cg_epochBase c + I \<le> cn_done s j" using seen g by auto
      then show ?thesis by (rule stamp_tells [OF chain_invD(2) [OF inv j] nc])
    qed
  next
    assume "serially c I \<and> i \<noteq> 0"
    then have "cg_epochBase c + (I + 1) \<le> cn_done s 0" using seen by simp
    from stamp_tells [OF chain_invD(2) [OF inv chain_invD(1) [OF inv]] nc this]
    show "I \<in> set (cn_ran s 0)" by (auto simp: stages_upto_def runs_def)
  }
qed

lemma chain_go_keep:
  assumes inv: "chain_inv c s" and i: "i < cg_participants c" and step: "chain_go c i s = Some t"
  shows "chain_inv c t"
proof -
  note own = chain_invD(2) [OF inv i] and flags = chain_invD(3,4) [OF inv]
  note d = chain_slot_invD [OF own]
  note move = chain_moveI [OF inv i]
  show ?thesis
  proof (cases "cn_pc s i")
    case (WaitAllSlots I k)
    show ?thesis
    proof (cases "k \<ge> cg_participants c")
      case True
      then have t: "t = set_chain_pc i (Boundary I True) s" using step WaitAllSlots by (simp add: chain_go_def)
      have "runs c i I" "\<not> serially c I" using d(1) WaitAllSlots
        by (auto simp: runs_def globally_def serially_def)
      then have "chain_slot_inv c t i" using own WaitAllSlots True d(6)
        by (auto simp: t set_chain_pc_def chain_slot_inv_def stamp_ok_def cancelled_pc_def synced_def)
      then show ?thesis by (intro move [of t "Boundary I True" "cn_done s i" "cn_ran s i"])
          (use flags in \<open>auto simp: t set_chain_pc_def\<close>)
    next
      case False
      then have t: "t = set_chain_pc i (WaitAllSlots I (Suc k)) s" and dk: "cg_epochBase c + I \<le> cn_done s (chain_peer c i k)"
        using step WaitAllSlots by (auto simp: chain_go_def split: if_splits)
      have "chain_slot_inv c t i" using own WaitAllSlots dk
        by (auto simp: t set_chain_pc_def chain_slot_inv_def stamp_ok_def cancelled_pc_def synced_def less_Suc_eq)
      then show ?thesis by (intro move [of t "WaitAllSlots I (Suc k)" "cn_done s i" "cn_ran s i"])
          (use flags in \<open>auto simp: t set_chain_pc_def\<close>)
    qed
  next
    case (WaitSerial I)
    then have t: "t = set_chain_pc i (Boundary I False) s" and d0: "cg_epochBase c + (I + 1) \<le> cn_done s 0"
      using step by (auto simp: chain_go_def split: if_splits)
    have "\<not> runs c i I" "\<not> globally c I" using d(1) WaitSerial
      by (auto simp: runs_def globally_def serially_def)
    then have "chain_slot_inv c t i" using own WaitSerial d0
      by (auto simp: t set_chain_pc_def chain_slot_inv_def stamp_ok_def cancelled_pc_def synced_def)
    then show ?thesis by (intro move [of t "Boundary I False" "cn_done s i" "cn_ran s i"])
        (use flags in \<open>auto simp: t set_chain_pc_def\<close>)
  next
    case (Boundary I r)
    show ?thesis
    proof (cases "cn_cancelled s \<or> cn_stop s")
      case True
      then have t: "t = set_chain_pc i FinalStamp (s\<lparr> cn_cancelled := True \<rparr>)"
        using step Boundary by (auto simp: chain_go_def)
      have "I \<le> nStages c" "ran_ok c i FinalStamp (cn_ran s i)"
        using d(1,3) Boundary by (simp, intro ran_ok_final) auto
      then have "chain_slot_inv c t i" using d Boundary
        by (auto simp: t set_chain_pc_def chain_slot_inv_def stamp_ok_def cancelled_pc_def)
      then show ?thesis by (intro move [of t FinalStamp "cn_done s i" "cn_ran s i"])
          (use flags True in \<open>auto simp: t set_chain_pc_def\<close>)
    next
      case False
      then have t: "t = set_chain_pc i (if r then StageBody I else StampStage I) s"
        using step Boundary by (auto simp: chain_go_def)
      have "synced c s i J" if "J \<le> I" for J
        using boundary_synced [OF inv i Boundary] False d(6) [of J] Boundary that by (cases "J = I") auto
      then have "chain_slot_inv c t i" using d Boundary
        by (auto simp: t set_chain_pc_def chain_slot_inv_def stamp_ok_def cancelled_pc_def synced_def stages_upto_Suc)
      then show ?thesis by (intro move [of t "if r then StageBody I else StampStage I" "cn_done s i" "cn_ran s i"])
          (use flags in \<open>auto simp: t set_chain_pc_def\<close>)
    qed
  next
    case (StampStage I)
    let ?d = "if stamp_needed c i I then cg_epochBase c + (I + 1) else cn_done s i"
    have I: "Suc I \<le> nStages c" using d(1) StampStage by simp
    have t: "t = set_chain_pc i (enter_stage c i (Suc I)) (s\<lparr> cn_done := (cn_done s)(i := ?d) \<rparr>)"
      using step StampStage by (auto simp: chain_go_def chain_stamp_def)
    have le: "cn_done s i \<le> cg_epochBase c + I"
      "\<And>J. J < I \<Longrightarrow> stamp_needed c i J \<Longrightarrow> cg_epochBase c + (J + 1) \<le> cn_done s i"
      using d(2) StampStage by (simp_all add: stamp_ok_def cancelled_pc_def)
    note enter = enter_stage_facts [OF I, of i]
    have "stamp_ok c i (enter_stage c i (Suc I)) ?d"
      unfolding stamp_ok_def enter(1)
    proof (intro conjI allI impI)
      show "?d \<le> cg_epochBase c + Suc I" using le(1) by simp
      show "?d = cg_epochBase c + nStages c" if "enter_stage c i (Suc I) = Bailed"
        using that enter(6) by (simp add: cancelled_pc_def)
      fix J assume J: "J < Suc I" "stamp_needed c i J"
      show "cg_epochBase c + (J + 1) \<le> ?d"
        using le(1) le(2) [of J] J by (cases "J = I") (auto intro: le_trans)
    qed
    moreover have "synced c t i J" if "J < Suc I" for J
      using d(6) [of J] StampStage that by (auto simp: synced_def t set_chain_pc_def)
    ultimately have "chain_slot_inv c t i" using d(3) StampStage enter
      by (simp add: chain_slot_inv_def t set_chain_pc_def)
    then show ?thesis by (intro move [of t "enter_stage c i (Suc I)" ?d "cn_ran s i"])
        (use flags le(1) in \<open>auto simp: t set_chain_pc_def\<close>)
  next
    case FinalStamp
    then have t: "t = set_chain_pc i Bailed (chain_stamp i (cg_epochBase c + nStages c) s)"
      using step by (simp add: chain_go_def)
    have "chain_slot_inv c t i" using d FinalStamp
      by (auto simp: t set_chain_pc_def chain_stamp_def chain_slot_inv_def stamp_ok_def cancelled_pc_def)
    moreover have "cn_done s i \<le> cg_epochBase c + nStages c" using d(2) FinalStamp by (simp add: stamp_ok_def)
    ultimately show ?thesis by (intro move [of t Bailed "cg_epochBase c + nStages c" "cn_ran s i"])
        (use flags in \<open>auto simp: t set_chain_pc_def chain_stamp_def\<close>)
  qed (use step in \<open>simp_all add: chain_go_def\<close>)
qed

lemma chain_keep:
  assumes inv: "chain_inv c s" and step: "chain_step c s a = Some t"
  shows "chain_inv c t"
proof (cases a)
  case (Go i)
  then show ?thesis using step chain_go_keep [OF inv] by (auto simp: chain_step_def split: if_splits)
next
  case (Ret i)
  then have i: "i < cg_participants c" and r: "chain_ret i s = Some t"
    using step by (auto simp: chain_step_def split: if_splits)
  note d = chain_slot_invD [OF chain_invD(2) [OF inv i]]
  from r obtain I where I: "cn_pc s i = StageBody I"
    "t = set_chain_pc i (StampStage I) (s\<lparr> cn_ran := (cn_ran s)(i := cn_ran s i @ [I]) \<rparr>)"
    by (auto simp: chain_ret_def split: chain_pc.splits)
  have "set (cn_ran s j) \<subseteq> set (cn_ran t j)" for j using I by (auto simp: set_chain_pc_def)
  then have "synced c t i J" if "J \<le> I" for J
    using synced_mono [OF d(6) [of J]] I(1) that by simp
  then have "chain_slot_inv c t i" using d I
    by (auto simp: set_chain_pc_def chain_slot_inv_def stamp_ok_def cancelled_pc_def stages_upto_Suc)
  then show ?thesis by (intro chain_moveI [OF inv i, of t "StampStage I" "cn_done s i" "cn_ran s i @ [I]"])
      (use chain_invD(3,4) [OF inv] I in \<open>auto simp: set_chain_pc_def\<close>)
next
  case (Throw i)
  then have i: "i < cg_participants c" and r: "chain_throw i s = Some t"
    using step by (auto simp: chain_step_def split: if_splits)
  note d = chain_slot_invD [OF chain_invD(2) [OF inv i]]
  from r obtain I where I: "cn_pc s i = StageBody I" "t = set_chain_pc i FinalStamp
       (s\<lparr> cn_exc := (case cn_exc s of None \<Rightarrow> Some i | Some j \<Rightarrow> Some j), cn_cancelled := True \<rparr>)"
    by (auto simp: chain_throw_def split: chain_pc.splits)
  have "ran_ok c i FinalStamp (cn_ran s i)" using d(1,3) I(1) by (intro ran_ok_final) auto
  then have "chain_slot_inv c t i" using d I
    by (auto simp: set_chain_pc_def chain_slot_inv_def stamp_ok_def cancelled_pc_def)
  then show ?thesis by (intro chain_moveI [OF inv i, of t FinalStamp "cn_done s i" "cn_ran s i"])
      (use I in \<open>auto simp: set_chain_pc_def split: option.splits\<close>)
next
  case RequestStop
  then have t: "t = s\<lparr> cn_stop := True \<rparr>" using step by (auto simp: chain_step_def split: if_splits)
  have "chain_slot_inv c t j" if "j < cg_participants c" for j
    by (rule slot_frame [OF chain_invD(2) [OF inv that]]) (simp_all add: t)
  then show ?thesis using inv by (auto simp: chain_inv_def t)
qed

section \<open>Every step makes progress\<close>

fun chain_rank :: "chain_cfg \<Rightarrow> chain_pc \<Rightarrow> nat" where
  "chain_rank c (WaitAllSlots I k) = (nStages c - I) * (cg_participants c + 6) + 5 + (cg_participants c - k)"
| "chain_rank c (WaitSerial I) = (nStages c - I) * (cg_participants c + 6) + 5"
| "chain_rank c (Boundary I r) = (nStages c - I) * (cg_participants c + 6) + 4"
| "chain_rank c (StageBody I) = (nStages c - I) * (cg_participants c + 6) + 3"
| "chain_rank c (StampStage I) = (nStages c - I) * (cg_participants c + 6) + 2"
| "chain_rank c FinalStamp = 1"
| "chain_rank c _ = 0"

definition chain_fuel :: "chain_cfg \<Rightarrow> chain \<Rightarrow> nat" where
  "chain_fuel c s = (\<Sum>i < cg_participants c. chain_rank c (cn_pc s i)) + (if cn_stop s then 0 else 1)"

lemma chain_fuelI:
  assumes "i < cg_participants c" "cn_pc t = (cn_pc s)(i := p)" "cn_stop t = cn_stop s"
    "chain_rank c p < chain_rank c (cn_pc s i)"
  shows "chain_fuel c t < chain_fuel c s"
proof -
  have "(\<lambda>j. chain_rank c (cn_pc t j)) = (\<lambda>j. chain_rank c (cn_pc s j))(i := chain_rank c p)"
    using assms(2) by auto
  then have "(\<Sum>j < cg_participants c. chain_rank c (cn_pc t j)) + chain_rank c (cn_pc s i)
    = (\<Sum>j < cg_participants c. chain_rank c (cn_pc s j)) + chain_rank c p"
    using sum_fun_upd_nat [OF assms(1), of "\<lambda>j. chain_rank c (cn_pc s j)" "chain_rank c p"] by (simp only:)
  then show ?thesis using assms(3,4) by (simp add: chain_fuel_def)
qed

lemma enter_rank:
  "0 < cg_participants c \<Longrightarrow> chain_rank c (enter_stage c i I) \<le> (nStages c - I) * (cg_participants c + 6) + cg_participants c + 4"
  by (auto simp: enter_stage_def split: BarrierKind.splits)

lemma chain_go_fuel:
  assumes inv: "chain_inv c s" and i: "i < cg_participants c" and step: "chain_go c i s = Some t"
  shows "chain_fuel c t < chain_fuel c s"
proof -
  note d = chain_slot_invD [OF chain_invD(2) [OF inv i]]
  show ?thesis
  proof (cases "cn_pc s i")
    case (WaitAllSlots I k)
    then show ?thesis using step
      by (intro chain_fuelI [OF i, where p = "if k \<ge> cg_participants c then Boundary I True else WaitAllSlots I (Suc k)"])
        (auto simp: chain_go_def set_chain_pc_def split: if_splits)
  next
    case (WaitSerial I)
    then show ?thesis using step
      by (intro chain_fuelI [OF i, where p = "Boundary I False"]) (auto simp: chain_go_def set_chain_pc_def split: if_splits)
  next
    case (Boundary I r)
    then show ?thesis using step
      by (intro chain_fuelI [OF i, where p = "if cn_cancelled s \<or> cn_stop s then FinalStamp
            else if r then StageBody I else StampStage I"])
        (auto simp: chain_go_def set_chain_pc_def split: if_splits)
  next
    case (StampStage I)
    have "nStages c - I = Suc (nStages c - Suc I)" using d(1) StampStage by simp
    then have "chain_rank c (enter_stage c i (Suc I)) < chain_rank c (StampStage I)"
      using enter_rank [OF chain_invD(1) [OF inv], of i "Suc I"] by simp
    moreover have "cn_pc t = (cn_pc s)(i := enter_stage c i (Suc I))" "cn_stop t = cn_stop s"
      using step StampStage by (auto simp: chain_go_def set_chain_pc_def chain_stamp_def split: if_splits)
    ultimately show ?thesis using chain_fuelI [OF i, of t s "enter_stage c i (Suc I)"] StampStage by simp
  next
    case FinalStamp
    then show ?thesis using step
      by (intro chain_fuelI [OF i, where p = Bailed]) (auto simp: chain_go_def set_chain_pc_def chain_stamp_def)
  qed (use step in \<open>simp_all add: chain_go_def\<close>)
qed

lemma chain_step_fuel:
  assumes inv: "chain_inv c s" and step: "chain_step c s a = Some t"
  shows "chain_fuel c t < chain_fuel c s"
proof (cases a)
  case (Go i)
  then show ?thesis using step chain_go_fuel [OF inv] by (auto simp: chain_step_def split: if_splits)
next
  case (Ret i)
  then have i: "i < cg_participants c" and "chain_ret i s = Some t"
    using step by (auto simp: chain_step_def split: if_splits)
  then obtain I where "cn_pc s i = StageBody I" "cn_pc t = (cn_pc s)(i := StampStage I)" "cn_stop t = cn_stop s"
    by (auto simp: chain_ret_def set_chain_pc_def split: chain_pc.splits)
  then show ?thesis using chain_fuelI [OF i, of t s "StampStage I"] by simp
next
  case (Throw i)
  then have i: "i < cg_participants c" and "chain_throw i s = Some t"
    using step by (auto simp: chain_step_def split: if_splits)
  then obtain I where "cn_pc s i = StageBody I" "cn_pc t = (cn_pc s)(i := FinalStamp)" "cn_stop t = cn_stop s"
    by (auto simp: chain_throw_def set_chain_pc_def split: chain_pc.splits)
  then show ?thesis using chain_fuelI [OF i, of t s FinalStamp] by simp
next
  case RequestStop
  then show ?thesis using step by (auto simp: chain_step_def chain_fuel_def split: if_splits)
qed

text \<open>A slot can move, has returned, or waits for a stamp.\<close>

lemma chain_slot_moves:
  assumes "i < cg_participants c"
  obtains (moves) a t where "chain_step c s a = Some t"
  | (returned) "cn_pc s i = ChainEnd \<or> cn_pc s i = Bailed"
  | (all) I k where "cn_pc s i = WaitAllSlots I k" "k < cg_participants c"
      "cn_done s (chain_peer c i k) < cg_epochBase c + I"
  | (serial) I where "cn_pc s i = WaitSerial I" "cn_done s 0 < cg_epochBase c + (I + 1)"
proof (cases "chain_go c i s")
  case None
  show ?thesis
  proof (cases "cn_pc s i")
    case (StageBody I)
    then have "chain_step c s (Ret i) \<noteq> None" using assms by (simp add: chain_step_def chain_ret_def)
    then show ?thesis using moves by blast
  qed (use None returned all serial in \<open>auto simp: chain_go_def split: if_splits\<close>)
next
  case (Some t)
  then have "chain_step c s (Go i) = Some t" using assms by (simp add: chain_step_def)
  then show ?thesis by (rule moves)
qed

lemma behind:
  assumes "chain_slot_inv c s j" "cn_done s j < cg_epochBase c + (J + 1)" "stamp_needed c j J" "J < nStages c"
  shows "cn_pc s j \<noteq> ChainEnd" "cn_pc s j \<noteq> Bailed" "cn_pc s j = FinalStamp \<or> stage_level c (cn_pc s j) \<le> J"
proof -
  have st: "stamp_ok c j (cn_pc s j) (cn_done s j)" by (rule chain_slot_invD(2) [OF assms(1)])
  show "cn_pc s j \<noteq> Bailed" using st assms(2,4) by (auto simp: stamp_ok_def)
  then show lv: "cn_pc s j = FinalStamp \<or> stage_level c (cn_pc s j) \<le> J"
    using st assms(2,3) by (auto simp: stamp_ok_def cancelled_pc_def linorder_not_le [symmetric])
  then show "cn_pc s j \<noteq> ChainEnd" using assms(4) by auto
qed

lemma chain_progress:
  assumes inv: "chain_inv c s" and "\<not> chain_retired c s"
  shows "\<exists>a t. chain_step c s a = Some t"
proof (rule ccontr)
  assume stuck: "\<not> ?thesis"
  note slot = chain_invD(2) [OF inv]
  define W where "W I \<longleftrightarrow> (\<exists>i < cg_participants c. stage_level c (cn_pc s i) = I \<and>
    ((\<exists>k. cn_pc s i = WaitAllSlots I k \<and> k < cg_participants c \<and> cn_done s (chain_peer c i k) < cg_epochBase c + I) \<or>
     cn_pc s i = WaitSerial I \<and> cn_done s 0 < cg_epochBase c + (I + 1)))" for I
  have waits: "cn_pc s i = ChainEnd \<or> cn_pc s i = Bailed \<or>
      (cn_pc s i \<noteq> FinalStamp \<and> W (stage_level c (cn_pc s i)))" if "i < cg_participants c" for i
  proof (rule chain_slot_moves [OF that, of s])
    fix I k assume "cn_pc s i = WaitAllSlots I k" "k < cg_participants c"
      "cn_done s (chain_peer c i k) < cg_epochBase c + I"
    then show ?thesis using that unfolding W_def by auto
  next
    fix I assume "cn_pc s i = WaitSerial I" "cn_done s 0 < cg_epochBase c + (I + 1)"
    then show ?thesis using that unfolding W_def by auto
  qed (use stuck in auto)
  obtain i0 where "i0 < cg_participants c" "cn_pc s i0 \<noteq> ChainEnd" "cn_pc s i0 \<noteq> Bailed"
    using assms(2) by (auto simp: chain_retired_def)
  then have "\<exists>I. W I" using waits by blast
  then obtain I where "W I" and least: "\<And>J. J < I \<Longrightarrow> \<not> W J" using exists_least_iff [of W] by blast
  then obtain i where i: "i < cg_participants c" and
    alts: "(\<exists>k. cn_pc s i = WaitAllSlots I k \<and> k < cg_participants c \<and> cn_done s (chain_peer c i k) < cg_epochBase c + I) \<or>
     (cn_pc s i = WaitSerial I \<and> cn_done s 0 < cg_epochBase c + (I + 1))" unfolding W_def by blast
  from alts show False
  proof
    assume "\<exists>k. cn_pc s i = WaitAllSlots I k \<and> k < cg_participants c \<and> cn_done s (chain_peer c i k) < cg_epochBase c + I"
    then obtain k where k: "cn_pc s i = WaitAllSlots I k" "k < cg_participants c"
      "cn_done s (chain_peer c i k) < cg_epochBase c + I" by blast
    have ok: "I < nStages c" "globally c I" using chain_slot_invD(1) [OF slot [OF i]] k(1) by simp_all
    let ?j = "chain_peer c i k"
    have j: "?j < cg_participants c" using i k(2) by (auto simp: chain_peer_def)
    have "stamp_needed c ?j (I - 1)" using ok(2) by (auto simp: stamp_needed_def globally_def)
    from behind [OF slot [OF j] _ this] have b: "cn_pc s ?j \<noteq> ChainEnd" "cn_pc s ?j \<noteq> Bailed"
      "cn_pc s ?j = FinalStamp \<or> stage_level c (cn_pc s ?j) \<le> I - 1"
      using k(3) ok by (simp_all add: globally_def)
    then have "W (stage_level c (cn_pc s ?j))" "stage_level c (cn_pc s ?j) < I"
      using waits [OF j] ok(2) by (auto simp: globally_def)
    then show False using least by blast
  next
    assume w: "cn_pc s i = WaitSerial I \<and> cn_done s 0 < cg_epochBase c + (I + 1)"
    have ok: "I < nStages c" "serially c I" using chain_slot_invD(1) [OF slot [OF i]] w by simp_all
    have P: "0 < cg_participants c" by (rule chain_invD(1) [OF inv])
    have "stamp_needed c 0 I" using ok(2) by (auto simp: stamp_needed_def serially_def)
    from behind [OF slot [OF P] _ this ok(1)] w have b: "cn_pc s 0 \<noteq> ChainEnd" "cn_pc s 0 \<noteq> Bailed"
      "cn_pc s 0 = FinalStamp \<or> stage_level c (cn_pc s 0) \<le> I" by simp_all
    then have W0: "W (stage_level c (cn_pc s 0))" "stage_level c (cn_pc s 0) \<le> I" using waits [OF P] by auto
    then have eq: "stage_level c (cn_pc s 0) = I" using least by (metis le_neq_implies_less)
    have ok0: "pc_ok c 0 (cn_pc s 0)" by (rule chain_slot_invD(1) [OF slot [OF P]])
    obtain a where "chain_go c 0 s = Some a \<or> chain_ret 0 s = Some a \<or> cn_pc s 0 = ChainEnd \<or> cn_pc s 0 = Bailed"
    proof (cases "cn_pc s 0")
      case (WaitAllSlots J k)
      then show ?thesis using ok0 eq ok(2) by (auto simp: globally_def serially_def)
    next
      case (WaitSerial J)
      then show ?thesis using ok0 by simp
    qed (use that in \<open>auto simp: chain_go_def chain_ret_def\<close>)
    then have "chain_step c s (Go 0) = Some a \<or> chain_step c s (Ret 0) = Some a"
      using P b by (auto simp: chain_step_def)
    then show False using stuck by blast
  qed
qed

section \<open>The properties\<close>

definition chain_start :: "chain_cfg \<Rightarrow> chain \<Rightarrow> bool" where
  "chain_start c s \<longleftrightarrow> 0 < cg_participants c \<and>
     (\<exists>stale stopped. s = chain_init c stale stopped \<and> (\<forall>i < cg_participants c. stale i \<le> cg_epochBase c))"

lemma chain_start_inv: "chain_start c s \<Longrightarrow> chain_inv c s"
proof -
  assume "chain_start c s"
  then obtain stale stopped where s: "0 < cg_participants c" "s = chain_init c stale stopped"
    "\<forall>i < cg_participants c. stale i \<le> cg_epochBase c" by (auto simp: chain_start_def)
  note enter = enter_stage_facts [of 0 c, OF le0]
  have "stamp_ok c i (enter_stage c i 0) (stale i)" if "i < cg_participants c" for i
    using s(3) that enter(1,6) [of i] by (auto simp: stamp_ok_def cancelled_pc_def)
  then have "chain_slot_inv c s i" if "i < cg_participants c" for i
    using that enter [of i] by (simp add: s(2) chain_slot_inv_def chain_init_def stages_upto_def)
  then show ?thesis using s(1) by (simp add: chain_inv_def s(2) chain_init_def)
qed

interpretation chain: terminating_system "chain_step c" "chain_start c" "chain_inv c" "chain_retired c" "chain_fuel c" for c
  by unfold_locales (use chain_start_inv chain_keep chain_step_fuel chain_progress in blast)+

lemma chain_start_fuel:
  assumes "chain_start c s"
  shows "chain_fuel c s \<le> cg_participants c * (nStages c * (cg_participants c + 6) + cg_participants c + 4) + 1"
proof -
  obtain stale stopped where s: "0 < cg_participants c" "s = chain_init c stale stopped"
    using assms by (auto simp: chain_start_def)
  have "(\<Sum>i < cg_participants c. chain_rank c (cn_pc s i))
      \<le> (\<Sum>i < cg_participants c. nStages c * (cg_participants c + 6) + cg_participants c + 4)"
    by (rule sum_mono) (use enter_rank [OF s(1), of _ 0] in \<open>simp add: s(2) chain_init_def\<close>)
  then show ?thesis by (simp add: chain_fuel_def)
qed

lemma chain_epochs_fresh:
  assumes "chain_epochs P N base stamps = (eb, base', stale)" "\<forall>i < P. stamps i \<le> base" "N < 1024" "base \<le> SIZE_MAX"
  shows "(\<forall>i < P. stale i \<le> eb) \<and> base' = eb + N + 1 \<and> base' \<le> SIZE_MAX"
proof (cases "base > SIZE_MAX - 1024")
  case True
  then have "eb = 0" "base' = N + 1" "\<forall>i < P. stale i = 0"
    using assms(1,3) by (auto simp: chain_epochs_def)
  then show ?thesis using assms(3) by (simp add: SIZE_MAX_def)
next
  case False
  then have "base + N + 1 < 2 ^ 64" using assms(3) by (simp add: SIZE_MAX_def)
  then show ?thesis using assms False by (auto simp: chain_epochs_def SIZE_MAX_def)
qed

lemma ran_prefix:
  assumes "chain_slot_inv c s i"
  shows "\<exists>I \<le> nStages c. cn_ran s i = stages_upto c i I"
proof -
  have "pc_ok c i (cn_pc s i)" "ran_ok c i (cn_pc s i) (cn_ran s i)" using chain_slot_invD(1,3) [OF assms] by simp_all
  then show ?thesis by (cases "cn_pc s i") (auto intro: less_imp_le Suc_leI)
qed

text \<open>
  C37. The barriers of the chain hold. Whatever the interleaving, the exceptions and the stop
  requests: each slot runs its stages in order, without the stages that follow a serial barrier
  unless it is slot 0; a slot in the body of a stage behind a global barrier finds every slot's
  earlier stages run, and one behind a serial barrier finds slot 0's stage run. When all slots have
  returned, without a stop, either every slot has run all its stages or an exception is rethrown.
  The stamps left behind stay below the epochs of the next dispatch.
\<close>

theorem chain_barriers:
  assumes "0 < cg_participants c" and "nStages c < 1024" and "base \<le> SIZE_MAX"
    and "\<forall>i < cg_participants c. stamps i \<le> base"
    and "chain_epochs (cg_participants c) (nStages c) base stamps = (cg_epochBase c, base', stale)"
    and "run (chain_step c) (chain_init c stale stopped) acts = Some t"
  shows "(\<forall>i < cg_participants c. \<exists>I \<le> nStages c. cn_ran t i = stages_upto c i I) \<and>
    (\<forall>i < cg_participants c. \<forall>I J. cn_pc t i = StageBody I \<and> J \<le> I \<longrightarrow>
      (globally c J \<longrightarrow> (\<forall>j < cg_participants c. set (stages_upto c j J) \<subseteq> set (cn_ran t j))) \<and>
      (serially c J \<and> i \<noteq> 0 \<longrightarrow> J \<in> set (cn_ran t 0))) \<and>
    (chain_retired c t \<and> \<not> cn_stop t \<longrightarrow> cn_exc t \<noteq> None \<or>
      (\<forall>i < cg_participants c. cn_ran t i = stages_upto c i (nStages c))) \<and>
    base' \<le> SIZE_MAX \<and> (\<forall>i < cg_participants c. cn_done t i \<le> base')"
proof -
  note e = chain_epochs_fresh [OF assms(5,4,2,3)]
  have "chain_start c (chain_init c stale stopped)" using assms(1) e by (auto simp: chain_start_def)
  from chain.run_inv [OF this assms(6)] have inv: "chain_inv c t" .
  note slot = chain_invD(2) [OF inv]
  have lvl: "stage_level c (cn_pc t i) \<le> nStages c" if "i < cg_participants c" for i
    using chain_slot_invD(1) [OF slot [OF that]] by (cases "cn_pc t i") auto
  show ?thesis
  proof (intro conjI allI impI)
    fix i assume i: "i < cg_participants c"
    show "\<exists>I \<le> nStages c. cn_ran t i = stages_upto c i I" by (rule ran_prefix [OF slot [OF i]])
    have "cn_done t i \<le> cg_epochBase c + stage_level c (cn_pc t i)"
      using chain_slot_invD(2) [OF slot [OF i]] by (simp add: stamp_ok_def)
    then show "cn_done t i \<le> base'" using e lvl [OF i] by linarith
    fix I J assume "cn_pc t i = StageBody I \<and> J \<le> I"
    then have sy: "synced c t i J" using chain_slot_invD(6) [OF slot [OF i], of J] by simp
    show "J \<in> set (cn_ran t 0)" if "serially c J \<and> i \<noteq> 0" using sy that by (simp add: synced_def)
    fix j assume "globally c J" "j < cg_participants c"
    then show "set (stages_upto c j J) \<subseteq> set (cn_ran t j)" using sy by (simp add: synced_def)
  next
    assume r: "chain_retired c t \<and> \<not> cn_stop t"
    show "cn_exc t \<noteq> None \<or> (\<forall>i < cg_participants c. cn_ran t i = stages_upto c i (nStages c))"
    proof (cases "cn_exc t = None")
      case True
      then have nc: "\<not> cn_cancelled t" using chain_invD(3) [OF inv] r by blast
      have "cn_ran t i = stages_upto c i (nStages c)" if i: "i < cg_participants c" for i
      proof -
        have "cn_pc t i \<noteq> Bailed" using chain_slot_invD(5) [OF slot [OF i]] nc by (auto simp: cancelled_pc_def)
        then have "cn_pc t i = ChainEnd" using r i by (auto simp: chain_retired_def)
        then show ?thesis using chain_slot_invD(3) [OF slot [OF i]] by simp
      qed
      then show ?thesis by blast
    qed simp
  qed (use e in simp)
qed

text \<open>A global barrier, then a serial one, then a last stage, on two slots.\<close>

definition three_stages :: chain_cfg where
  "three_stages = \<lparr> cg_barriers = [BarrierGlobal, ProducerSerial, BarrierNone], cg_participants = 2, cg_epochBase = 7 \<rparr>"

definition three_stages_run :: "chain_act list" where
  "three_stages_run = [Go 0, Go 1, Ret 1, Ret 0, Go 1, Go 0, Go 0, Go 0, Go 0, Ret 0, Go 1, Go 1, Go 1, Ret 1,
     Go 1, Go 0, Go 0]"

lemma three_stages_result:
  "case run (chain_step three_stages) (chain_init three_stages (\<lambda>_. 6) False) three_stages_run of None \<Rightarrow> False
   | Some t \<Rightarrow> cn_pc t 0 = StageBody 2 \<and> cn_pc t 1 = WaitSerial 2"
  by (simp add: three_stages_run_def three_stages_def chain_init_def chain_step_def chain_go_def chain_ret_def
      set_chain_pc_def chain_stamp_def enter_stage_def stamp_needed_def chain_peer_def nStages_def)

theorem chain_barriers_witness:
  "\<exists>t. run (chain_step three_stages) (chain_init three_stages (\<lambda>_. 6) False) three_stages_run = Some t \<and>
    cn_pc t 0 = StageBody 2 \<and> 0 \<in> set (cn_ran t 1) \<and> cn_done t 1 \<le> 11"
proof -
  obtain t where t: "run (chain_step three_stages) (chain_init three_stages (\<lambda>_. 6) False) three_stages_run = Some t"
    "cn_pc t 0 = StageBody 2" using three_stages_result by (auto split: option.splits)
  have e: "chain_epochs (cg_participants three_stages) (nStages three_stages) 7 (\<lambda>_. 6) = (cg_epochBase three_stages, 11, \<lambda>_. 6)"
    by (simp add: chain_epochs_def three_stages_def nStages_def SIZE_MAX_def)
  have p: "0 < cg_participants three_stages" "nStages three_stages < 1024" "7 \<le> SIZE_MAX"
    "\<forall>i < cg_participants three_stages. (\<lambda>_. 6) i \<le> (7 :: nat)" "1 < cg_participants three_stages"
    "globally three_stages 1"
    by (simp_all add: three_stages_def nStages_def globally_def SIZE_MAX_def)
  note facts = chain_barriers [OF p(1-4) e t(1), THEN conjunct2]
  have "set (stages_upto three_stages 1 1) \<subseteq> set (cn_ran t 1)"
    using facts [THEN conjunct1, rule_format, OF p(1), of 2 1] t(2) p(5,6) by simp
  then have "0 \<in> set (cn_ran t 1)" by (simp add: stages_upto_def runs_def)
  moreover have "cn_done t 1 \<le> 11" using facts p(5) by blast
  ultimately show ?thesis using t by simp
qed

text \<open>
  C38. The chain always returns: every schedule is bounded by \<open>P * (N * (P + 6) + P + 4) + 1\<close> steps
  for \<open>N\<close> stages and \<open>P\<close> slots, whatever their barriers, and every partial run, after any throws
  and stops, extends to one in which all slots have returned.
\<close>

theorem chain_terminates:
  assumes "0 < cg_participants c" and "\<forall>i < cg_participants c. stale i \<le> cg_epochBase c"
    and "run (chain_step c) (chain_init c stale stopped) acts = Some t"
  shows "length acts \<le> cg_participants c * (nStages c * (cg_participants c + 6) + cg_participants c + 4) + 1 \<and>
    (\<exists>bs u. run (chain_step c) (chain_init c stale stopped) (acts @ bs) = Some u \<and> chain_retired c u)"
proof -
  have s: "chain_start c (chain_init c stale stopped)" using assms(1,2) by (auto simp: chain_start_def)
  from chain.run_bounded [OF s assms(3)] chain_start_fuel [OF s] chain.run_completes [OF s assms(3)]
  show ?thesis by simp
qed

theorem chain_terminates_witness:
  "\<exists>bs u. run (chain_step three_stages) (chain_init three_stages (\<lambda>_. 7) False) ([Go 0, Go 1, Throw 1] @ bs) = Some u \<and>
    chain_retired three_stages u"
proof -
  have "run (chain_step three_stages) (chain_init three_stages (\<lambda>_. 7) False) [Go 0, Go 1, Throw 1] \<noteq> None"
    by (simp add: three_stages_def chain_init_def chain_step_def chain_go_def chain_throw_def
      set_chain_pc_def enter_stage_def nStages_def)
  then obtain t where t: "run (chain_step three_stages) (chain_init three_stages (\<lambda>_. 7) False) [Go 0, Go 1, Throw 1] = Some t"
    by blast
  from chain_terminates [OF _ _ t] show ?thesis by (simp add: three_stages_def)
qed

end
