(* ===== verification/ForkJoin.thy ===== *)
theory ForkJoin
  imports Topology
begin

unbundle bit_operations_syntax

text \<open>
  Fork-join (\<open>forkJoinImpl\<close>, \<open>runForkJoinOuter\<close>, \<open>runForkJoinTypedTailNested\<close>,
  \<open>runForkJoinDrain\<close>, \<open>trySteal\<close> and the task runners of \<open>thread_pool.h\<close>, \<open>forkjoin_state.h\<close>).
  The root tasks of a call go on slot 0's deque and every slot drains: it pops its own deque, else
  steals, and runs the task. A task that calls \<open>forkJoin\<close> again opens a scope of its own: it
  pushes all children but the last, runs the last in place, and drains until they have retired,
  while it runs whatever task it finds.

  A body is the list of the \<open>forkJoin\<close> calls it makes and how it ends, so that the whole tree of
  nested scopes is part of the model: a body that decides at run time what to call is covered as the
  tree it unfolds to, but a body that catches the exception of a nested call and goes on is not. A
  slot's call stack is a list of frames, the innermost
  first; a step is one atomic operation of the frame on top. The deques are lists with atomic
  push, pop and steal, which is what \<open>Deque.deque_refines\<close> gives for the Chase-Lev deque. A
  failed probe is not a step; the victim a probe picks is the schedule's choice. A scope record
  outlives its scope here (\<open>fs_alive\<close>), and \<open>fs_size\<close> and \<open>fj_log\<close> are ghosts: the number of
  tasks and, for each task whose turn came, whether its body was run or skipped.
\<close>

section \<open>The victim of a steal\<close>

text \<open>The three steal rings of a slot: same CCD, other CCDs, all.\<close>

definition trySteal_victim :: "nat \<Rightarrow> bool \<Rightarrow> nat list \<times> nat list \<times> nat list \<Rightarrow> u64 \<Rightarrow> nat option \<times> u64" where
  "trySteal_victim participants preferSameCcd rings rng =
     (case rings of (same, cross, alls) \<Rightarrow>
      (let draw = (\<lambda>r g. r ! unat (fastRange32 g (word_of_nat (length r)))) in
       if participants \<le> 1 then (None, rng)
       else if preferSameCcd then
         let g1 = xorshiftNext rng; g2 = xorshiftNext g1; tryCross = (g1 AND 7 = 0) in
         if \<not> tryCross \<and> same \<noteq> [] then (Some (draw same g2), g2)
         else if cross \<noteq> [] then (Some (draw cross g2), g2)
         else (None, g1)
       else let g1 = xorshiftNext rng in (Some (draw alls g1), g1)))"

text \<open>A draw is one of the ring's slots, so a probe never leaves the pool nor hits its own deque.\<close>

lemma fastRange32_nth:
  assumes "r \<noteq> []" and "length r < 2 ^ 32"
  shows "r ! unat (fastRange32 g (word_of_nat (length r))) \<in> set r"
proof -
  let ?n = "word_of_nat (length r) :: u32"
  have u: "unat ?n = length r" using assms(2) by (simp add: unsigned_of_nat take_bit_nat_eq_self)
  then have "?n \<noteq> 0" using assms(1) by auto
  from fastRange32_less [OF this, of g] u show ?thesis by simp
qed

lemma trySteal_victim_ok:
  assumes rings: "victim_rings ccds self = rings" and self: "self < length ccds" and P: "length ccds < 2 ^ 32"
    and v: "trySteal_victim (length ccds) prefer rings rng = (Some v, rng')"
  shows "v < length ccds \<and> v \<noteq> self"
proof -
  obtain same cross alls where r: "rings = (same, cross, alls)" by (cases rings)
  note s = victim_rings_split [OF rings [unfolded r]]
  have sub: "set same \<subseteq> set alls" "set cross \<subseteq> set alls"
    using s(1) by (metis mset_subset_eq_add_left mset_subset_eq_add_right set_mset_mono set_mset_mset)+
  have len: "length same \<le> length alls" "length cross \<le> length alls"
    using arg_cong [OF s(1), of size] by simp_all
  have "length alls = card ({..<length ccds} - {self})" using s(2,5) by (metis distinct_card)
  then have l: "length alls < 2 ^ 32" using P self by simp
  have ne: "alls \<noteq> []" if "1 < length ccds"
  proof -
    have "(if self = 0 then 1 else 0) \<in> set alls" unfolding s(5) using that by (cases "self = 0"; cases ccds) simp_all
    then show ?thesis by (metis empty_iff list.set(1))
  qed
  have d: "q ! unat (fastRange32 g (word_of_nat (length q))) \<in> set alls"
    if "q \<in> {same, cross, alls}" "q \<noteq> []" for q g
  proof -
    have "length q < 2 ^ 32" "set q \<subseteq> set alls" using that(1) len l sub by auto
    with fastRange32_nth [OF that(2), of g] show ?thesis by blast
  qed
  have "\<exists>q g. q \<in> {same, cross, alls} \<and> q \<noteq> [] \<and> v = q ! unat (fastRange32 g (word_of_nat (length q)))"
    using v ne unfolding r trySteal_victim_def Let_def prod.case by (auto split: if_splits)
  then have "v \<in> set alls" using d by blast
  then show ?thesis using s(5) by auto
qed

text \<open>
  One round of probes in \<open>runForkJoinDrain\<close>: the victim of the last steal first (\<open>participants\<close> when
  there is none), then a drawn one. \<open>full v\<close> tells whether a steal at \<open>v\<close> would succeed.
\<close>

definition drain_probe :: "nat \<Rightarrow> nat \<Rightarrow> nat \<Rightarrow> bool \<Rightarrow> nat list \<times> nat list \<times> nat list \<Rightarrow> (nat \<Rightarrow> bool) \<Rightarrow> u64 \<Rightarrow>
    nat option \<times> nat \<times> u64" where
  "drain_probe participants slot lastVictim preferSameCcd rings full rng =
     (let hinted = (lastVictim < participants \<and> lastVictim \<noteq> slot) in
      if hinted \<and> full lastVictim then (Some lastVictim, lastVictim, rng)
      else let keep = (if hinted then participants else lastVictim) in
        (case trySteal_victim participants preferSameCcd rings rng of
           (Some v, g) \<Rightarrow> (if full v then (Some v, v, g) else (None, keep, g))
         | (None, g) \<Rightarrow> (None, keep, g)))"

lemma drain_probe_ok:
  assumes "victim_rings ccds slot = rings" "slot < length ccds" "length ccds < 2 ^ 32"
    and "drain_probe (length ccds) slot lastVictim prefer rings full rng = (Some v, lastVictim', rng')"
  shows "v < length ccds \<and> v \<noteq> slot \<and> full v \<and> lastVictim' = v"
  using assms(4) trySteal_victim_ok [OF assms(1-3)]
  unfolding drain_probe_def Let_def by (auto split: if_splits prod.splits option.splits)

section \<open>Bodies, tasks and scopes\<close>

datatype fj_body = Body "fj_call list" "nat option"
  and fj_call = Call "nat option" "fj_body list"

text \<open>\<open>Call tok bodies\<close> is \<open>forkJoin(tok, bodies...)\<close>; \<open>None\<close> is the overload without a token.\<close>

datatype fj_task = Task (ft_scope: nat) (ft_idx: nat) (ft_body: fj_body)

record fj_scope =
  fs_pending :: int
  fs_cancelled :: bool
  fs_first :: "nat option"
  fs_token :: "nat option"
  fs_size :: nat
  fs_alive :: bool

text \<open>
  How a body was entered, which decides how it retires: \<open>Impl\<close> decrements the scope's counter, \<open>Own\<close>
  the drain's local counter, \<open>Tail\<close> is the child run in place, \<open>Direct\<close> a call with a single task.
\<close>

datatype fj_kind = Impl nat | Own nat | Tail nat | Direct

datatype fj_fin = Return | Raise nat | Captured

datatype fj_frame =
    Gate fj_kind nat fj_body                \<comment> \<open>a task before its cancellation check\<close>
  | Exec fj_kind "fj_call list" fj_fin      \<comment> \<open>a running body: what it still does\<close>
  | Spawn nat "fj_task list" nat fj_body    \<comment> \<open>pushing the deferred children; the tail\<close>
  | Drain nat "nat option" bool             \<comment> \<open>scope, \<open>ownPending\<close>, the counter was seen positive\<close>

record fj =
  fj_dq :: "nat \<Rightarrow> fj_task list"
  fj_stack :: "nat \<Rightarrow> fj_frame list"
  fj_scopes :: "nat \<Rightarrow> fj_scope"
  fj_next :: nat
  fj_toks :: "bool list"
  fj_log :: "(nat \<times> nat \<times> bool) list"

definition fin_of :: "nat option \<Rightarrow> fj_fin" where
  "fin_of r = (case r of None \<Rightarrow> Return | Some e \<Rightarrow> Raise e)"

fun tok_stopped :: "bool list \<Rightarrow> nat option \<Rightarrow> bool" where
  "tok_stopped toks None = False"
| "tok_stopped toks (Some k) = (k < length toks \<and> toks ! k)"

definition fj_stopped :: "fj \<Rightarrow> nat \<Rightarrow> bool" where
  "fj_stopped s sc = (fs_cancelled (fj_scopes s sc) \<or> tok_stopped (fj_toks s) (fs_token (fj_scopes s sc)))"

definition new_scope :: "nat \<Rightarrow> nat \<Rightarrow> nat option \<Rightarrow> fj_scope" where
  "new_scope pending n tok = \<lparr> fs_pending = int pending, fs_cancelled = False, fs_first = None,
     fs_token = tok, fs_size = n, fs_alive = True \<rparr>"

definition set_stack :: "fj \<Rightarrow> nat \<Rightarrow> fj_frame list \<Rightarrow> fj" where
  "set_stack s i fs = s\<lparr> fj_stack := (fj_stack s)(i := fs) \<rparr>"

definition set_scope :: "fj \<Rightarrow> nat \<Rightarrow> fj_scope \<Rightarrow> fj" where
  "set_scope s sc x = s\<lparr> fj_scopes := (fj_scopes s)(sc := x) \<rparr>"

definition set_dq :: "fj \<Rightarrow> nat \<Rightarrow> fj_task list \<Rightarrow> fj" where
  "set_dq s i q = s\<lparr> fj_dq := (fj_dq s)(i := q) \<rparr>"

section \<open>The steps of a slot\<close>

text \<open>A task's turn: its body is entered, or skipped when its scope is cancelled or stopped.\<close>

fun kind_scope :: "fj_kind \<Rightarrow> nat option" where
  "kind_scope (Impl sc) = Some sc"
| "kind_scope (Own sc) = Some sc"
| "kind_scope (Tail sc) = Some sc"
| "kind_scope Direct = None"

fun enter_body :: "fj_kind \<Rightarrow> fj_body \<Rightarrow> fj_frame" where
  "enter_body k (Body cs r) = Exec k cs (fin_of r)"

definition fj_gate_step :: "fj \<Rightarrow> nat \<Rightarrow> fj_kind \<Rightarrow> nat \<Rightarrow> fj_body \<Rightarrow> fj_frame list \<Rightarrow> fj option" where
  "fj_gate_step s i k j b fs =
     (case kind_scope k of None \<Rightarrow> None
      | Some sc \<Rightarrow>
          (if fj_stopped s sc
           then Some (set_stack (s\<lparr> fj_log := (sc, j, False) # fj_log s \<rparr>) i (Exec k [] Return # fs))
           else Some (set_stack (s\<lparr> fj_log := (sc, j, True) # fj_log s \<rparr>) i (enter_body k b # fs))))"

text \<open>After a task the drain below takes another turn of its loop.\<close>

fun drain_again :: "fj_frame list \<Rightarrow> fj_frame list" where
  "drain_again (Drain d own seen # fs) = Drain d own False # fs"
| "drain_again fs = fs"

fun drain_again_own :: "fj_frame list \<Rightarrow> fj_frame list" where
  "drain_again_own (Drain d (Some n) seen # fs) = Drain d (Some (Suc n)) False # fs"
| "drain_again_own fs = fs"

definition retire :: "fj \<Rightarrow> nat \<Rightarrow> fj_kind \<Rightarrow> fj_frame list \<Rightarrow> fj" where
  "retire s i k fs =
     (case k of
        Impl sc \<Rightarrow> set_stack (set_scope s sc ((fj_scopes s sc)\<lparr> fs_pending := fs_pending (fj_scopes s sc) - 1 \<rparr>)) i (drain_again fs)
      | Own sc \<Rightarrow> set_stack s i (drain_again_own fs)
      | _ \<Rightarrow> set_stack s i fs)"

text \<open>An exception that reaches the calling body ends it.\<close>

fun raise_in :: "nat \<Rightarrow> fj_frame list \<Rightarrow> fj_frame list" where
  "raise_in e (Exec k cs r # fs) = Exec k [] (Raise e) # fs"
| "raise_in e fs = fs"

definition captureFirst :: "fj_scope \<Rightarrow> nat \<Rightarrow> fj_scope" where
  "captureFirst x e = (case fs_first x of None \<Rightarrow> x\<lparr> fs_first := Some e \<rparr> | Some _ \<Rightarrow> x)"

definition finish_step :: "fj \<Rightarrow> nat \<Rightarrow> fj_kind \<Rightarrow> fj_fin \<Rightarrow> fj_frame list \<Rightarrow> fj option" where
  "finish_step s i k r fs =
     (case r of
        Return \<Rightarrow> Some (retire s i k fs)
      | Raise e \<Rightarrow>
          (case kind_scope k of
             None \<Rightarrow> Some (set_stack s i (raise_in e fs))
           | Some sc \<Rightarrow> Some (set_stack (set_scope s sc (captureFirst (fj_scopes s sc) e)) i (Exec k [] Captured # fs)))
      | Captured \<Rightarrow>
          (case kind_scope k of
             None \<Rightarrow> None
           | Some sc \<Rightarrow> Some (set_stack (set_scope s sc ((fj_scopes s sc)\<lparr> fs_cancelled := True \<rparr>)) i (Exec k [] Return # fs))))"

text \<open>
  A nested call: nothing for no task, the task itself for one, otherwise a scope whose counter
  holds the deferred children.
\<close>

definition tasks_of :: "nat \<Rightarrow> fj_body list \<Rightarrow> fj_task list" where
  "tasks_of sc bs = map (\<lambda>j. Task sc j (bs ! j)) [0..<length bs]"

definition call_step :: "fj \<Rightarrow> nat \<Rightarrow> fj_kind \<Rightarrow> fj_call \<Rightarrow> fj_call list \<Rightarrow> fj_fin \<Rightarrow> fj_frame list \<Rightarrow> fj" where
  "call_step s i k c cs r fs =
     (case c of Call tok bs \<Rightarrow>
        (case bs of
           [] \<Rightarrow> set_stack s i (Exec k cs r # fs)
         | [b] \<Rightarrow> (if tok_stopped (fj_toks s) tok then set_stack s i (Exec k cs r # fs)
                   else set_stack s i (enter_body Direct b # Exec k cs r # fs))
         | _ \<Rightarrow> (let sc = fj_next s; deferred = length bs - 1 in
                 set_stack (set_scope (s\<lparr> fj_next := Suc sc \<rparr>) sc (new_scope deferred (length bs) tok)) i
                   (Spawn sc (tasks_of sc (butlast bs)) deferred (last bs) # Exec k cs r # fs))))"

definition spawn_step :: "fj \<Rightarrow> nat \<Rightarrow> nat \<Rightarrow> fj_task list \<Rightarrow> nat \<Rightarrow> fj_body \<Rightarrow> fj_frame list \<Rightarrow> fj" where
  "spawn_step s i sc todo j tb fs =
     (case todo of
        t # ts \<Rightarrow> set_stack (set_dq s i (fj_dq s i @ [t])) i (Spawn sc ts j tb # fs)
      | [] \<Rightarrow> set_stack s i (Gate (Tail sc) j tb # Drain sc (Some 0) False # fs))"

text \<open>The end of a drain. Leaving a nested scope destroys it and rethrows what it captured.\<close>

definition effective_pending :: "fj_scope \<Rightarrow> nat option \<Rightarrow> int" where
  "effective_pending x own = (case own of None \<Rightarrow> fs_pending x | Some n \<Rightarrow> fs_pending x - int n)"

definition drain_return :: "fj \<Rightarrow> nat \<Rightarrow> nat \<Rightarrow> nat option \<Rightarrow> fj_frame list \<Rightarrow> fj" where
  "drain_return s i d own fs =
     (case own of
        None \<Rightarrow> set_stack s i fs
      | Some n \<Rightarrow> set_stack (set_scope s d ((fj_scopes s d)\<lparr> fs_alive := False \<rparr>)) i
                   (case fs_first (fj_scopes s d) of None \<Rightarrow> fs | Some e \<Rightarrow> raise_in e fs))"

definition popped_kind :: "nat \<Rightarrow> nat option \<Rightarrow> nat \<Rightarrow> fj_kind" where
  "popped_kind d own sc = (if own \<noteq> None \<and> sc = d then Own sc else Impl sc)"

fun gate_of :: "fj_kind \<Rightarrow> fj_task \<Rightarrow> fj_frame" where
  "gate_of k (Task sc j b) = Gate k j b"

definition drain_step :: "fj \<Rightarrow> nat \<Rightarrow> nat \<Rightarrow> nat \<Rightarrow> nat option \<Rightarrow> bool \<Rightarrow> fj_frame list \<Rightarrow> fj option" where
  "drain_step s i v d own seen fs =
     (let joined = (effective_pending (fj_scopes s d) own \<le> 0); q = fj_dq s i in
      if \<not> seen then
        (if joined then Some (drain_return s i d own fs) else Some (set_stack s i (Drain d own True # fs)))
      else if q \<noteq> [] then
        Some (set_stack (set_dq s i (butlast q)) i
          (gate_of (popped_kind d own (ft_scope (last q))) (last q) # Drain d own True # fs))
      else if v \<noteq> i \<and> fj_dq s v \<noteq> [] then
        Some (set_stack (set_dq s v (tl (fj_dq s v))) i
          (gate_of (Impl (ft_scope (hd (fj_dq s v)))) (hd (fj_dq s v)) # Drain d own True # fs))
      else if joined then Some (drain_return s i d own fs)
      else None)"

datatype fj_act = Step nat nat | Stop nat

fun frame_step :: "fj \<Rightarrow> nat \<Rightarrow> nat \<Rightarrow> fj_frame list \<Rightarrow> fj option" where
  "frame_step s i v [] = None"
| "frame_step s i v (Gate k j b # fs) = fj_gate_step s i k j b fs"
| "frame_step s i v (Exec k [] r # fs) = finish_step s i k r fs"
| "frame_step s i v (Exec k (c # cs) r # fs) = Some (call_step s i k c cs r fs)"
| "frame_step s i v (Spawn sc todo j tb # fs) = Some (spawn_step s i sc todo j tb fs)"
| "frame_step s i v (Drain d own seen # fs) = drain_step s i v d own seen fs"

fun fj_step :: "nat \<Rightarrow> fj \<Rightarrow> fj_act \<Rightarrow> fj option" where
  "fj_step P s (Step i v) = (if i < P \<and> v < P then frame_step s i v (fj_stack s i) else None)"
| "fj_step P s (Stop k) = (if k < length (fj_toks s) \<and> \<not> fj_toks s ! k
     then Some (s\<lparr> fj_toks := (fj_toks s)[k := True] \<rparr>) else None)"

text \<open>\<open>runForkJoinOuter\<close>: the root tasks on slot 0's deque, then every slot drains the root scope.\<close>

definition fj_init :: "nat option \<Rightarrow> fj_body list \<Rightarrow> bool list \<Rightarrow> fj" where
  "fj_init tok bs toks = \<lparr> fj_dq = (\<lambda>i. if i = 0 then tasks_of 0 bs else []),
     fj_stack = (\<lambda>_. [Drain 0 None False]), fj_scopes = (\<lambda>_. new_scope (length bs) (length bs) tok),
     fj_next = 1, fj_toks = toks, fj_log = [] \<rparr>"

definition fj_joined :: "nat \<Rightarrow> fj \<Rightarrow> bool" where
  "fj_joined P s = (\<forall>i < P. fj_stack s i = [])"

definition fj_result :: "fj \<Rightarrow> nat option" where
  "fj_result s = fs_first (fj_scopes s 0)"

section \<open>The entry and the inline executor\<close>

text \<open>
  Where a call goes: nothing to do; one task, run directly unless the token is stopped; from
  inside a worker of the pool the nested form; otherwise the outer form, which runs inline with a
  single participant or from a worker of another pool.
\<close>

datatype fj_path = FjNone | FjSkip | FjDirect | FjNested | FjInline | FjOuter

definition forkJoinImpl_path :: "nat \<Rightarrow> bool \<Rightarrow> bool \<Rightarrow> nat \<Rightarrow> bool \<Rightarrow> fj_path" where
  "forkJoinImpl_path nTasks stopped insideWorker participants crossArena =
     (if nTasks = 0 then FjNone
      else if nTasks = 1 then (if stopped then FjSkip else FjDirect)
      else if insideWorker then (if participants \<le> 1 then FjInline else FjNested)
      else if participants \<le> 1 \<or> crossArena then FjInline else FjOuter)"

text \<open>
  \<open>runForkJoinInline\<close>: the tasks in order, each through the gate of \<open>runOneTaskImpl\<close>. \<open>stop i\<close> is
  the token when task \<open>i\<close> is reached; a task returns or throws (\<open>Some e\<close>). The tasks run are listed.
\<close>

fun runForkJoinInline :: "(nat \<Rightarrow> bool) \<Rightarrow> nat \<Rightarrow> nat option list \<Rightarrow> fj_scope \<Rightarrow> fj_scope \<times> nat list" where
  "runForkJoinInline stop i [] x = (x, [])"
| "runForkJoinInline stop i (r # rs) x =
     (let retired = (\<lambda>y. y\<lparr> fs_pending := fs_pending y - 1 \<rparr>) in
      if fs_cancelled x \<or> stop i then runForkJoinInline stop (Suc i) rs (retired x)
      else case r of
        None \<Rightarrow> apsnd ((#) i) (runForkJoinInline stop (Suc i) rs (retired x))
      | Some e \<Rightarrow> apsnd ((#) i) (runForkJoinInline stop (Suc i) rs (retired ((captureFirst x e)\<lparr> fs_cancelled := True \<rparr>))))"

text \<open>
  The inline form joins too: its counter ends at zero, and without a stop it runs the tasks up to
  and including the first that throws, whose exception it captures.
\<close>

lemma runForkJoinInline_cancelled:
  "fs_cancelled x \<Longrightarrow> runForkJoinInline stop i rs x = (x\<lparr> fs_pending := fs_pending x - int (length rs) \<rparr>, [])"
  by (induction rs arbitrary: i x) (simp_all add: Let_def algebra_simps)

lemma runForkJoinInline_pending:
  "fs_pending (fst (runForkJoinInline stop i rs x)) = fs_pending x - int (length rs)"
  by (induction rs arbitrary: i x) (auto simp: Let_def captureFirst_def split: option.splits)

lemma runForkJoinInline_runs:
  assumes "\<not> fs_cancelled x" "fs_first x = None"
  shows "snd (runForkJoinInline (\<lambda>_. False) i rs x) =
      [i..<i + min (length rs) (Suc (length (takeWhile (\<lambda>r. r = None) rs)))]"
    "fs_first (fst (runForkJoinInline (\<lambda>_. False) i rs x)) =
      (case dropWhile (\<lambda>r. r = None) rs of [] \<Rightarrow> None | r # _ \<Rightarrow> r)"
  using assms
proof (induction rs arbitrary: i x)
  case (Cons r rs)
  {
    case 1
    show ?case
    proof (cases r)
      case None
      then have "min (length (r # rs)) (Suc (length (takeWhile (\<lambda>r. r = None) (r # rs))))
        = Suc (min (length rs) (Suc (length (takeWhile (\<lambda>r. r = None) rs))))" by simp
      with None 1 Cons.IH(1) [of "x\<lparr> fs_pending := fs_pending x - 1 \<rparr>" "Suc i"] show ?thesis
        by (simp add: upt_conv_Cons [of i] del: upt_Suc)
    qed (use 1 in \<open>simp add: runForkJoinInline_cancelled\<close>)
  next
    case 2
    with Cons.IH(2) [of "x\<lparr> fs_pending := fs_pending x - 1 \<rparr>" "Suc i"] show ?case
      by (cases r) (auto simp: runForkJoinInline_cancelled captureFirst_def)
  }
qed simp_all

end
