(* ===== verification/ForkJoinInv.thy ===== *)
theory ForkJoinInv
  imports ForkJoin
begin

text \<open>
  The invariant of a fork-join run: the shape of the call stacks, the join counters and the owners
  of scopes, the log of tasks, cancellation flags and exceptions. \<open>frame_step_cases\<close> lists the
  effects of a step once; the counters are sums of weights over deques and stacks (\<open>fj_tot\<close>), so a
  step's effect on them is computed by the simplifier.
\<close>

lemma fj_upd [simp]:
  "fj_stack (set_scope s sc x) = fj_stack s" "fj_stack (set_dq s i q) = fj_stack s"
  "fj_stack (set_stack s i fs) = (fj_stack s)(i := fs)"
  "fj_dq (set_scope s sc x) = fj_dq s" "fj_dq (set_stack s i fs) = fj_dq s"
  "fj_dq (set_dq s i q) = (fj_dq s)(i := q)"
  "fj_scopes (set_stack s i fs) = fj_scopes s" "fj_scopes (set_dq s i q) = fj_scopes s"
  "fj_scopes (set_scope s sc x) = (fj_scopes s)(sc := x)"
  "fj_next (set_stack s i fs) = fj_next s" "fj_next (set_dq s i q) = fj_next s" "fj_next (set_scope s sc x) = fj_next s"
  "fj_toks (set_stack s i fs) = fj_toks s" "fj_toks (set_dq s i q) = fj_toks s" "fj_toks (set_scope s sc x) = fj_toks s"
  "fj_log (set_stack s i fs) = fj_log s" "fj_log (set_dq s i q) = fj_log s" "fj_log (set_scope s sc x) = fj_log s"
  by (simp_all add: set_stack_def set_scope_def set_dq_def)

section \<open>The effects of a step\<close>

lemma frame_step_cases:
  assumes "frame_step s i v fs0 = Some t" and "fj_stack s i = fs0"
  obtains
    (gate) k j b fs sc x where "fs0 = Gate k j b # fs" "kind_scope k = Some sc"
      "if fj_stopped s sc then \<not> x else x"
      "t = set_stack (s\<lparr> fj_log := (sc, j, x) # fj_log s \<rparr>) i ((if x then enter_body k b else Exec k [] Return) # fs)"
  | (retire_impl) sc fs where "fs0 = Exec (Impl sc) [] Return # fs"
      "t = set_stack (set_scope s sc ((fj_scopes s sc)\<lparr> fs_pending := fs_pending (fj_scopes s sc) - 1 \<rparr>)) i (drain_again fs)"
  | (retire_own) sc fs where "fs0 = Exec (Own sc) [] Return # fs" "t = set_stack s i (drain_again_own fs)"
  | (retire_tail) k fs where "fs0 = Exec k [] Return # fs" "k = Direct \<or> (\<exists>sc. k = Tail sc)" "t = set_stack s i fs"
  | (raise) e fs where "fs0 = Exec Direct [] (Raise e) # fs" "t = set_stack s i (raise_in e fs)"
  | (capture) k e fs sc where "fs0 = Exec k [] (Raise e) # fs" "kind_scope k = Some sc"
      "t = set_stack (set_scope s sc (captureFirst (fj_scopes s sc) e)) i (Exec k [] Captured # fs)"
  | (flag) k fs sc where "fs0 = Exec k [] Captured # fs" "kind_scope k = Some sc"
      "t = set_stack (set_scope s sc ((fj_scopes s sc)\<lparr> fs_cancelled := True \<rparr>)) i (Exec k [] Return # fs)"
  | (skip_call) k tok bs cs r fs where "fs0 = Exec k (Call tok bs # cs) r # fs" "t = set_stack s i (Exec k cs r # fs)"
  | (direct_call) k tok b cs r fs where "fs0 = Exec k (Call tok [b] # cs) r # fs"
      "t = set_stack s i (enter_body Direct b # Exec k cs r # fs)"
  | (open_scope) k tok bs cs r fs where "fs0 = Exec k (Call tok bs # cs) r # fs" "2 \<le> length bs"
      "t = set_stack (set_scope (s\<lparr> fj_next := Suc (fj_next s) \<rparr>) (fj_next s) (new_scope (length bs - 1) (length bs) tok)) i
         (Spawn (fj_next s) (tasks_of (fj_next s) (butlast bs)) (length bs - 1) (last bs) # Exec k cs r # fs)"
  | (push) sc tk ts j tb fs where "fs0 = Spawn sc (tk # ts) j tb # fs"
      "t = set_stack (set_dq s i (fj_dq s i @ [tk])) i (Spawn sc ts j tb # fs)"
  | (tail) sc j tb fs where "fs0 = Spawn sc [] j tb # fs"
      "t = set_stack s i (Gate (Tail sc) j tb # Drain sc (Some 0) False # fs)"
  | (seen) d own fs where "fs0 = Drain d own False # fs" "t = set_stack s i (Drain d own True # fs)"
  | (take) d own fs x pre tk post k where "fs0 = Drain d own True # fs" "x = i \<or> x = v"
      "fj_dq s x = pre @ tk # post"
      "k = Impl (ft_scope tk) \<or> (own \<noteq> None \<and> ft_scope tk = d \<and> k = Own d)"
      "t = set_stack (set_dq s x (pre @ post)) i (gate_of k tk # Drain d own True # fs)"
  | (leave_root) d b fs where "fs0 = Drain d None b # fs" "fs_pending (fj_scopes s d) \<le> 0" "t = set_stack s i fs"
  | (leave) d n b fs where "fs0 = Drain d (Some n) b # fs" "fs_pending (fj_scopes s d) \<le> int n"
      "t = set_stack (set_scope s d ((fj_scopes s d)\<lparr> fs_alive := False \<rparr>)) i
         (case fs_first (fj_scopes s d) of None \<Rightarrow> fs | Some e \<Rightarrow> raise_in e fs)"
proof (cases "(s, i, v, fs0)" rule: frame_step.cases)
  case 1
  with assms show ?thesis by simp
next
  case (2 _ _ _ k j b fs)
  then obtain sc where sc: "kind_scope k = Some sc" using assms(1) by (auto simp: fj_gate_step_def split: option.splits)
  show ?thesis
    using 2 assms(1) sc gate [of k j b fs sc False] gate [of k j b fs sc True]
    by (cases "fj_stopped s sc") (auto simp: fj_gate_step_def)
next
  case (3 _ _ _ k r fs)
  with assms(1) retire_impl [of _ fs] retire_own [of _ fs] retire_tail [of k fs] raise [of _ fs] capture [of k _ fs] flag [of k fs]
  show ?thesis
    by (cases k; cases r) (auto simp: finish_step_def retire_def)
next
  case (4 _ _ _ k c cs r fs)
  obtain tok bs where c: "c = Call tok bs" by (cases c)
  consider "bs = []" | b where "bs = [b]" | "2 \<le> length bs" by (cases bs; cases "tl bs") auto
  then show ?thesis
  proof cases
    case 1
    with 4 assms(1) c show ?thesis by (intro skip_call [of k tok bs cs r fs]) (auto simp: call_step_def)
  next
    case 2
    with 4 assms(1) c skip_call [of k tok bs cs r fs] direct_call [of k tok b cs r fs] show ?thesis
      by (auto simp: call_step_def split: if_splits)
  next
    case 3
    with 4 assms(1) c show ?thesis
      by (intro open_scope [of k tok bs cs r fs]) (auto simp: call_step_def Let_def split: list.splits)
  qed
next
  case (5 _ _ _ sc todo j tb fs)
  with assms(1) push [of sc _ _ j tb fs] tail [of sc j tb fs] show ?thesis
    by (cases todo) (auto simp: spawn_step_def)
next
  case (6 _ _ _ d own b fs)
  let ?q = "fj_dq s i" and ?w = "fj_dq s v"
  consider "effective_pending (fj_scopes s d) own \<le> 0" "t = drain_return s i d own fs"
    | "\<not> b" "t = set_stack s i (Drain d own True # fs)"
    | "b" "?q \<noteq> []" "t = set_stack (set_dq s i (butlast ?q)) i (gate_of (popped_kind d own (ft_scope (last ?q))) (last ?q) # Drain d own True # fs)"
    | "b" "?w \<noteq> []" "t = set_stack (set_dq s v (tl ?w)) i (gate_of (Impl (ft_scope (hd ?w))) (hd ?w) # Drain d own True # fs)"
    using 6 assms(1) by (auto simp: drain_step_def Let_def split: if_splits)
  then show ?thesis
  proof cases
    case 1
    with 6 leave_root [of d b fs] leave [of d _ b fs] show ?thesis
      by (cases own) (auto simp: drain_return_def effective_pending_def)
  next
    case 2
    with 6 show ?thesis by (intro seen [of d own fs]) auto
  next
    case 3
    with 6 show ?thesis
      by (intro take [of d own fs i "butlast ?q" "last ?q" "[]" "popped_kind d own (ft_scope (last ?q))"])
        (auto simp: popped_kind_def)
  next
    case 4
    with 6 show ?thesis
      by (intro take [of d own fs v "[]" "hd ?w" "tl ?w" "Impl (ft_scope (hd ?w))"]) auto
  qed
qed

section \<open>Totals over the deques and the stacks\<close>

definition fj_tot :: "nat \<Rightarrow> (fj_task \<Rightarrow> int) \<Rightarrow> (fj_frame \<Rightarrow> int) \<Rightarrow> fj \<Rightarrow> int" where
  "fj_tot P qw fw s = (\<Sum>i<P. sum_list (map qw (fj_dq s i)) + sum_list (map fw (fj_stack s i)))"

lemma sum_upd_int:
  fixes f :: "nat \<Rightarrow> int"
  assumes "r < n"
  shows "(\<Sum>i<n. (f(r := x)) i) = (\<Sum>i<n. f i) - f r + x"
  using assms by (simp add: sum.remove [of _ r])

lemma fj_tot_set_stack [simp]:
  assumes "i < P"
  shows "fj_tot P qw fw (set_stack s i fs) = fj_tot P qw fw s - sum_list (map fw (fj_stack s i)) + sum_list (map fw fs)"
proof -
  let ?f = "\<lambda>i. sum_list (map qw (fj_dq s i)) + sum_list (map fw (fj_stack s i))"
  have "fj_tot P qw fw (set_stack s i fs) = (\<Sum>k<P. (?f(i := sum_list (map qw (fj_dq s i)) + sum_list (map fw fs))) k)"
    unfolding fj_tot_def by (rule sum.cong) auto
  then show ?thesis using assms by (simp add: sum_upd_int fj_tot_def del: fun_upd_apply)
qed

lemma fj_tot_set_dq [simp]:
  assumes "i < P"
  shows "fj_tot P qw fw (set_dq s i q) = fj_tot P qw fw s - sum_list (map qw (fj_dq s i)) + sum_list (map qw q)"
proof -
  let ?f = "\<lambda>i. sum_list (map qw (fj_dq s i)) + sum_list (map fw (fj_stack s i))"
  have "fj_tot P qw fw (set_dq s i q) = (\<Sum>k<P. (?f(i := sum_list (map qw q) + sum_list (map fw (fj_stack s i)))) k)"
    unfolding fj_tot_def by (rule sum.cong) auto
  then show ?thesis using assms by (simp add: sum_upd_int fj_tot_def del: fun_upd_apply)
qed

lemma fj_tot_upd [simp]:
  "fj_tot P qw fw (set_scope s sc x) = fj_tot P qw fw s"
  "fj_tot P qw fw (s\<lparr> fj_log := l \<rparr>) = fj_tot P qw fw s"
  "fj_tot P qw fw (s\<lparr> fj_next := n \<rparr>) = fj_tot P qw fw s"
  "fj_tot P qw fw (s\<lparr> fj_toks := b \<rparr>) = fj_tot P qw fw s"
  by (simp_all add: fj_tot_def)

lemma sum_list_nn: "(\<And>x. 0 \<le> w x) \<Longrightarrow> 0 \<le> sum_list (map w xs)" for w :: "'a \<Rightarrow> int"
  by (induction xs) auto

lemma sum_list_mem: "(\<And>x. 0 \<le> w x) \<Longrightarrow> x \<in> set xs \<Longrightarrow> w x \<le> sum_list (map w xs)" for w :: "'a \<Rightarrow> int"
  using sum_list_nn [of w] by (induction xs) (auto intro: add_increasing add_increasing2)

lemma sum_list_zero: "(\<And>x. x \<in> set xs \<Longrightarrow> w x = 0) \<Longrightarrow> sum_list (map w xs) = 0" for w :: "'a \<Rightarrow> int"
  by (induction xs) auto

lemma slot_le_fj_tot:
  assumes "\<And>x. 0 \<le> qw x" "\<And>x. 0 \<le> fw x" "i < P"
  shows "sum_list (map qw (fj_dq s i)) + sum_list (map fw (fj_stack s i)) \<le> fj_tot P qw fw s"
  unfolding fj_tot_def
  by (rule member_le_sum) (use assms in \<open>auto intro: add_nonneg_nonneg sum_list_nn\<close>)

lemma fj_tot_frame:
  assumes nn: "\<And>x. 0 \<le> qw x" "\<And>x. 0 \<le> fw x" and "i < P" "f \<in> set (fj_stack s i)"
  shows "fw f \<le> fj_tot P qw fw s"
proof -
  have "fw f \<le> sum_list (map fw (fj_stack s i))" "0 \<le> sum_list (map qw (fj_dq s i))"
    by (intro sum_list_mem sum_list_nn nn assms(4))+
  moreover have "sum_list (map qw (fj_dq s i)) + sum_list (map fw (fj_stack s i)) \<le> fj_tot P qw fw s"
    by (intro slot_le_fj_tot nn assms(3))
  ultimately show ?thesis by linarith
qed

lemma fj_tot_task:
  assumes nn: "\<And>x. 0 \<le> qw x" "\<And>x. 0 \<le> fw x" and "i < P" "x \<in> set (fj_dq s i)"
  shows "qw x \<le> fj_tot P qw fw s"
proof -
  have "qw x \<le> sum_list (map qw (fj_dq s i))" "0 \<le> sum_list (map fw (fj_stack s i))"
    by (intro sum_list_mem sum_list_nn nn assms(4))+
  moreover have "sum_list (map qw (fj_dq s i)) + sum_list (map fw (fj_stack s i)) \<le> fj_tot P qw fw s"
    by (intro slot_le_fj_tot nn assms(3))
  ultimately show ?thesis by linarith
qed

lemma fj_tot_nn: "(\<And>x. 0 \<le> qw x) \<Longrightarrow> (\<And>x. 0 \<le> fw x) \<Longrightarrow> 0 \<le> fj_tot P qw fw s"
  unfolding fj_tot_def by (intro sum_nonneg add_nonneg_nonneg sum_list_nn) auto

section \<open>The shape of a call stack\<close>

text \<open>
  What each frame stands on, and the order of scopes: the frame that owns a scope is above frames
  of older scopes only.
\<close>

fun is_exec :: "fj_frame list \<Rightarrow> bool" where
  "is_exec (Exec k cs r # fs) = True"
| "is_exec fs = False"

fun is_drain :: "fj_frame list \<Rightarrow> bool" where
  "is_drain (Drain d own b # fs) = True"
| "is_drain fs = False"

fun owns_drain :: "nat \<Rightarrow> fj_frame list \<Rightarrow> bool" where
  "owns_drain sc (Drain d (Some n) b # fs) = (d = sc)"
| "owns_drain sc fs = False"

fun kind_on :: "fj_kind \<Rightarrow> fj_frame list \<Rightarrow> bool" where
  "kind_on (Impl sc) fs = is_drain fs"
| "kind_on (Own sc) fs = owns_drain sc fs"
| "kind_on (Tail sc) fs = owns_drain sc fs"
| "kind_on Direct fs = is_exec fs"

lemma is_execE: "is_exec fs \<Longrightarrow> (\<And>k cs r gs. fs = Exec k cs r # gs \<Longrightarrow> thesis) \<Longrightarrow> thesis"
  by (cases fs rule: is_exec.cases) auto

lemma is_drainE: "is_drain fs \<Longrightarrow> (\<And>d own b gs. fs = Drain d own b # gs \<Longrightarrow> thesis) \<Longrightarrow> thesis"
  by (cases fs rule: is_drain.cases) auto

lemma owns_drainE: "owns_drain sc fs \<Longrightarrow> (\<And>n b gs. fs = Drain sc (Some n) b # gs \<Longrightarrow> thesis) \<Longrightarrow> thesis"
  by (cases "(sc, fs)" rule: owns_drain.cases) auto

fun sits :: "fj_frame \<Rightarrow> fj_frame list \<Rightarrow> bool" where
  "sits (Gate k j b) fs = (kind_on k fs \<and> k \<noteq> Direct)"
| "sits (Exec k cs r) fs = (kind_on k fs \<and> (r = Captured \<longrightarrow> k \<noteq> Direct))"
| "sits (Spawn sc todo j b) fs = is_exec fs"
| "sits (Drain d (Some n) b) fs = is_exec fs"
| "sits (Drain d None b) fs = (fs = [] \<and> d = 0)"

fun frame_scope :: "fj_frame \<Rightarrow> nat option" where
  "frame_scope (Gate k j b) = kind_scope k"
| "frame_scope (Exec k cs r) = kind_scope k"
| "frame_scope (Spawn sc todo j b) = Some sc"
| "frame_scope (Drain d own b) = Some d"

fun owner :: "fj_frame \<Rightarrow> nat option" where
  "owner (Spawn sc todo j b) = Some sc"
| "owner (Drain d (Some n) b) = Some d"
| "owner f = None"

definition below :: "nat \<Rightarrow> fj_frame list \<Rightarrow> bool" where
  "below n fs = (\<forall>g \<in> set fs. \<forall>x. frame_scope g = Some x \<longrightarrow> x < n)"

fun stack_ok :: "fj_frame list \<Rightarrow> bool" where
  "stack_ok [] = True"
| "stack_ok (f # fs) = (sits f fs \<and> (\<forall>sc. owner f = Some sc \<longrightarrow> below sc fs) \<and> stack_ok fs)"

lemma below_simps [simp]:
  "below n []" "below n (f # fs) \<longleftrightarrow> (\<forall>x. frame_scope f = Some x \<longrightarrow> x < n) \<and> below n fs"
  by (auto simp: below_def)

lemma below_mono: "below n fs \<Longrightarrow> n \<le> m \<Longrightarrow> below m fs"
  by (auto simp: below_def)

lemma enter_body_simps [simp]:
  "frame_scope (enter_body k b) = kind_scope k" "owner (enter_body k b) = None"
  "sits (enter_body k b) fs = kind_on k fs"
  by (cases b; auto simp: fin_of_def split: option.splits)+

lemma gate_of_simps [simp]:
  "frame_scope (gate_of k tk) = kind_scope k" "owner (gate_of k tk) = None"
  "sits (gate_of k tk) fs = (kind_on k fs \<and> k \<noteq> Direct)"
  by (cases tk; simp)+

lemma stack_ok_again [simp]:
  "is_drain fs \<Longrightarrow> stack_ok (drain_again fs) = stack_ok fs" "below n (drain_again fs) = below n fs"
  "owns_drain sc fs \<Longrightarrow> stack_ok (drain_again_own fs) = stack_ok fs"
  "below n (drain_again_own fs) = below n fs"
proof -
  show "is_drain fs \<Longrightarrow> stack_ok (drain_again fs) = stack_ok fs"
  proof (erule is_drainE)
    fix d own b gs
    assume "fs = Drain d own b # gs"
    then show "stack_ok (drain_again fs) = stack_ok fs" by (cases own) simp_all
  qed
  show "owns_drain sc fs \<Longrightarrow> stack_ok (drain_again_own fs) = stack_ok fs"
    by (erule owns_drainE) simp
  show "below n (drain_again fs) = below n fs" by (cases fs rule: drain_again.cases) auto
  show "below n (drain_again_own fs) = below n fs" by (cases fs rule: drain_again_own.cases) auto
qed

lemma raise_in_ok: "is_exec fs \<Longrightarrow> stack_ok fs \<Longrightarrow> stack_ok (raise_in e fs)"
  by (erule is_execE) auto

lemma below_raise_in [simp]: "below n (raise_in e fs) = below n fs"
  by (cases "(e, fs)" rule: raise_in.cases) auto

definition stacks_ok :: "nat \<Rightarrow> fj \<Rightarrow> bool" where
  "stacks_ok P s = (\<forall>i < P. stack_ok (fj_stack s i) \<and> below (fj_next s) (fj_stack s i))"

lemma stacks_ok_set:
  assumes "stacks_ok P s" "stack_ok fs" "below n fs" "fj_next s \<le> n"
    "fj_stack t = (fj_stack s)(i := fs)" "fj_next t = n"
  shows "stacks_ok P t"
  using assms unfolding stacks_ok_def by (auto intro: below_mono)

lemma stacks_ok_step:
  assumes ok: "stacks_ok P s" and tasks: "\<forall>i < P. \<forall>tk \<in> set (fj_dq s i). ft_scope tk < fj_next s"
    and step: "frame_step s i v (fj_stack s i) = Some t" "i < P" "v < P"
  shows "stacks_ok P t"
proof -
  have st: "stack_ok (fj_stack s i)" "below (fj_next s) (fj_stack s i)"
    using ok step(2) unfolding stacks_ok_def by auto
  from step(1) refl show ?thesis
  proof (cases rule: frame_step_cases)
    case (gate k j b fs sc x)
    with st show ?thesis by (intro stacks_ok_set [OF ok _ _ _ _ refl]) auto
  next
    case (retire_impl sc fs)
    with st show ?thesis by (intro stacks_ok_set [OF ok _ _ _ _ refl]) auto
  next
    case (retire_own sc fs)
    with st show ?thesis by (intro stacks_ok_set [OF ok _ _ _ _ refl]) auto
  next
    case (retire_tail k fs)
    with st show ?thesis by (intro stacks_ok_set [OF ok _ _ _ _ refl]) auto
  next
    case (raise e fs)
    with st show ?thesis by (intro stacks_ok_set [OF ok _ _ _ _ refl]) (auto intro: raise_in_ok)
  next
    case (capture k e fs sc)
    with st show ?thesis by (intro stacks_ok_set [OF ok _ _ _ _ refl]) auto
  next
    case (flag k fs sc)
    with st show ?thesis by (intro stacks_ok_set [OF ok _ _ _ _ refl]) auto
  next
    case (skip_call k tok bs cs r fs)
    with st show ?thesis by (intro stacks_ok_set [OF ok _ _ _ _ refl]) auto
  next
    case (direct_call k tok b cs r fs)
    with st show ?thesis by (intro stacks_ok_set [OF ok _ _ _ _ refl]) auto
  next
    case (open_scope k tok bs cs r fs)
    with st show ?thesis by (intro stacks_ok_set [OF ok _ _ _ _ refl]) (auto intro: below_mono)
  next
    case (push sc tk ts j tb fs)
    with st show ?thesis by (intro stacks_ok_set [OF ok _ _ _ _ refl]) auto
  next
    case (tail sc j tb fs)
    with st show ?thesis by (intro stacks_ok_set [OF ok _ _ _ _ refl]) auto
  next
    case (seen d own fs)
    with st show ?thesis by (cases own) (intro stacks_ok_set [OF ok _ _ _ _ refl]; simp)+
  next
    case (take d own fs x pre tk post k)
    have "x < P" using take(2) step(2,3) by auto
    then have "ft_scope tk < fj_next s" using tasks take(3) by auto
    with take st show ?thesis by (intro stacks_ok_set [OF ok _ _ _ _ refl]) auto
  next
    case (leave_root d b fs)
    with st show ?thesis by (intro stacks_ok_set [OF ok _ _ _ _ refl]) auto
  next
    case (leave d n b fs)
    with st show ?thesis by (intro stacks_ok_set [OF ok _ _ _ _ refl]) (auto intro: raise_in_ok split: option.splits)
  qed
qed

section \<open>The join counters\<close>

text \<open>
  What a scope's counter stands for: its tasks that are queued, still to be pushed, popped but not
  retired, and those its own drain has counted locally. And the frame that owns it.
\<close>

fun pend_q :: "nat \<Rightarrow> fj_task \<Rightarrow> int" where
  "pend_q sc (Task s j b) = of_bool (s = sc)"

definition pend_k :: "nat \<Rightarrow> fj_kind \<Rightarrow> int" where
  "pend_k sc k = of_bool (k = Impl sc \<or> k = Own sc)"

fun pend_f :: "nat \<Rightarrow> fj_frame \<Rightarrow> int" where
  "pend_f sc (Gate k j b) = pend_k sc k"
| "pend_f sc (Exec k cs r) = pend_k sc k"
| "pend_f sc (Spawn s todo j b) = sum_list (map (pend_q sc) todo)"
| "pend_f sc (Drain d (Some n) b) = of_bool (d = sc) * int n"
| "pend_f sc (Drain d None b) = 0"

definition own_f :: "nat \<Rightarrow> fj_frame \<Rightarrow> int" where
  "own_f sc f = of_bool (owner f = Some sc)"

abbreviation pend_tot :: "nat \<Rightarrow> nat \<Rightarrow> fj \<Rightarrow> int" where
  "pend_tot P sc \<equiv> fj_tot P (pend_q sc) (pend_f sc)"

abbreviation own_tot :: "nat \<Rightarrow> nat \<Rightarrow> fj \<Rightarrow> int" where
  "own_tot P sc \<equiv> fj_tot P (\<lambda>_. 0) (own_f sc)"

definition scope_ok :: "nat \<Rightarrow> fj \<Rightarrow> nat \<Rightarrow> bool" where
  "scope_ok P s sc =
     (if sc < fj_next s \<and> fs_alive (fj_scopes s sc)
      then fs_pending (fj_scopes s sc) = pend_tot P sc s \<and> own_tot P sc s = of_bool (sc \<noteq> 0)
      else pend_tot P sc s = 0 \<and> own_tot P sc s = 0)"

definition scopes_ok :: "nat \<Rightarrow> fj \<Rightarrow> bool" where
  "scopes_ok P s = ((\<forall>sc. scope_ok P s sc) \<and> 0 < fj_next s \<and> fs_alive (fj_scopes s 0))"

lemma pend_nn [simp]: "0 \<le> pend_q sc tk" "0 \<le> pend_k sc k" "0 \<le> pend_f sc f" "0 \<le> own_f sc f"
proof -
  show q: "0 \<le> pend_q sc tk" for tk by (cases tk) simp
  show k: "0 \<le> pend_k sc k" for k by (simp add: pend_k_def)
  show "0 \<le> pend_f sc f" by (cases "(sc, f)" rule: pend_f.cases) (auto intro: q k sum_list_nn)
qed (simp add: own_f_def)

lemma weight_simps [simp]:
  "pend_f sc (enter_body k b) = pend_k sc k" "own_f sc (enter_body k b) = 0"
  "pend_f sc (gate_of k tk) = pend_k sc k" "own_f sc (gate_of k tk) = 0"
  "own_f sc (Gate k j b) = 0" "own_f sc (Exec k cs r) = 0"
  "own_f sc (Spawn x todo j b) = of_bool (x = sc)" "own_f sc (Drain d (Some n) z) = of_bool (d = sc)"
  "own_f sc (Drain d None z) = 0"
  "pend_k sc (Impl x) = of_bool (x = sc)" "pend_k sc (Own x) = of_bool (x = sc)"
  "pend_k sc (Tail x) = 0" "pend_k sc Direct = 0"
  "pend_q sc tk = of_bool (ft_scope tk = sc)"
  by (cases b; simp add: own_f_def pend_k_def; fail | cases tk; simp add: own_f_def pend_k_def; fail |
      simp add: own_f_def pend_k_def; fail)+

lemma drain_own_flag:
  "pend_f sc (Drain d own z) = pend_f sc (Drain d own False)" "own_f sc (Drain d own z) = own_f sc (Drain d own False)"
  by (cases own; simp)+

lemma again_weights [simp]:
  "sum_list (map (pend_f sc) (drain_again fs)) = sum_list (map (pend_f sc) fs)"
  "sum_list (map (own_f sc) (drain_again fs)) = sum_list (map (own_f sc) fs)"
  "owns_drain x fs \<Longrightarrow> sum_list (map (pend_f sc) (drain_again_own fs)) = sum_list (map (pend_f sc) fs) + of_bool (x = sc)"
  "sum_list (map (own_f sc) (drain_again_own fs)) = sum_list (map (own_f sc) fs)"
  "sum_list (map (pend_f sc) (raise_in e fs)) = sum_list (map (pend_f sc) fs)"
  "sum_list (map (own_f sc) (raise_in e fs)) = sum_list (map (own_f sc) fs)"
proof -
  show "sum_list (map (pend_f sc) (drain_again fs)) = sum_list (map (pend_f sc) fs)"
    "sum_list (map (own_f sc) (drain_again fs)) = sum_list (map (own_f sc) fs)"
    by (cases fs rule: drain_again.cases; simp; metis drain_own_flag)+
  show "owns_drain x fs \<Longrightarrow> sum_list (map (pend_f sc) (drain_again_own fs)) = sum_list (map (pend_f sc) fs) + of_bool (x = sc)"
    by (erule owns_drainE) simp
  show "sum_list (map (own_f sc) (drain_again_own fs)) = sum_list (map (own_f sc) fs)"
    by (cases fs rule: drain_again_own.cases) simp_all
  show "sum_list (map (pend_f sc) (raise_in e fs)) = sum_list (map (pend_f sc) fs)"
    "sum_list (map (own_f sc) (raise_in e fs)) = sum_list (map (own_f sc) fs)"
    by (cases "(e, fs)" rule: raise_in.cases; simp)+
qed

lemma tasks_of_weights [simp]:
  "sum_list (map (pend_q x) (tasks_of sc bs)) = of_bool (x = sc) * int (length bs)"
  by (simp add: tasks_of_def o_def sum_list_triv)

text \<open>No frame and no queued task refers to a scope that was left.\<close>

lemma kind_on_scope: "kind_on k fs \<Longrightarrow> kind_scope k = Some sc \<Longrightarrow> 1 \<le> pend_k sc k \<or> (\<exists>g \<in> set fs. owner g = Some sc)"
  by (cases k) (auto elim!: owns_drainE)

lemma stack_ok_scope:
  assumes "stack_ok fs" "f \<in> set fs" "frame_scope f = Some sc"
  shows "sc = 0 \<or> 1 \<le> pend_f sc f \<or> (\<exists>g \<in> set fs. owner g = Some sc)"
  using assms
proof (induction fs)
  case (Cons a fs)
  show ?case
  proof (cases "f \<in> set fs")
    case False
    with Cons.prems have a: "a = f" by auto
    from Cons.prems a show ?thesis
      by (cases f rule: owner.cases) (auto dest: kind_on_scope)
  qed (use Cons in auto)
qed simp

lemma frame_alive:
  assumes ok: "scopes_ok P s" "stacks_ok P s" and f: "i < P" "f \<in> set (fj_stack s i)" "frame_scope f = Some sc"
  shows "sc < fj_next s" "fs_alive (fj_scopes s sc)"
proof -
  have st: "stack_ok (fj_stack s i)" using ok(2) f(1) by (simp add: stacks_ok_def)
  from stack_ok_scope [OF st f(2,3)] have "sc < fj_next s \<and> fs_alive (fj_scopes s sc)"
  proof (elim disjE bexE)
    assume "1 \<le> pend_f sc f"
    then have "1 \<le> pend_tot P sc s" by (rule order_trans) (intro fj_tot_frame [OF _ _ f(1,2)] pend_nn)
    with ok(1) show ?thesis by (auto simp: scopes_ok_def scope_ok_def split: if_splits)
  next
    fix g assume g: "g \<in> set (fj_stack s i)" "owner g = Some sc"
    have "own_f sc g \<le> own_tot P sc s" by (intro fj_tot_frame [OF _ _ f(1) g(1)] pend_nn) simp
    then have "1 \<le> own_tot P sc s" using g(2) by (simp add: own_f_def)
    with ok(1) show ?thesis by (auto simp: scopes_ok_def scope_ok_def split: if_splits)
  qed (use ok(1) in \<open>auto simp: scopes_ok_def\<close>)
  then show "sc < fj_next s" "fs_alive (fj_scopes s sc)" by auto
qed

lemma task_alive:
  assumes ok: "scopes_ok P s" and f: "i < P" "tk \<in> set (fj_dq s i)"
  shows "ft_scope tk < fj_next s" "fs_alive (fj_scopes s (ft_scope tk))"
proof -
  have "pend_q (ft_scope tk) tk \<le> pend_tot P (ft_scope tk) s" by (intro fj_tot_task [OF _ _ f] pend_nn)
  with ok show "ft_scope tk < fj_next s" "fs_alive (fj_scopes s (ft_scope tk))"
    by (auto simp: scopes_ok_def scope_ok_def split: if_splits)
qed

lemma scopes_okI:
  assumes "\<And>sc. scope_ok P s sc" "0 < fj_next s" "fs_alive (fj_scopes s 0)"
  shows "scopes_ok P s"
  using assms by (simp add: scopes_ok_def)

lemma scopes_ok_same:
  assumes "scopes_ok P s" "fj_next t = fj_next s"
    "\<And>sc. fs_alive (fj_scopes t sc) = fs_alive (fj_scopes s sc)"
    "\<And>sc. fs_pending (fj_scopes t sc) = fs_pending (fj_scopes s sc)"
    "\<And>sc. pend_tot P sc t = pend_tot P sc s" "\<And>sc. own_tot P sc t = own_tot P sc s"
  shows "scopes_ok P t"
  using assms by (simp add: scopes_ok_def scope_ok_def)

lemma captureFirst_simps [simp]:
  "fs_alive (captureFirst x e) = fs_alive x" "fs_pending (captureFirst x e) = fs_pending x"
  "fs_cancelled (captureFirst x e) = fs_cancelled x" "fs_token (captureFirst x e) = fs_token x"
  "fs_size (captureFirst x e) = fs_size x" "fs_first (captureFirst x e) = Some (case fs_first x of None \<Rightarrow> e | Some y \<Rightarrow> y)"
  by (auto simp: captureFirst_def split: option.splits)

lemma scopes_ok_step:
  assumes ok: "scopes_ok P s" "stacks_ok P s"
    and step: "frame_step s i v (fj_stack s i) = Some t" "i < P" "v < P"
  shows "scopes_ok P t"
proof -
  have st: "stack_ok (fj_stack s i)" using ok(2) step(2) by (simp add: stacks_ok_def)
  have sc: "scope_ok P s x" "0 < fj_next s" "fs_alive (fj_scopes s 0)" for x using ok(1) by (auto simp: scopes_ok_def)
  note live = frame_alive [OF ok step(2)]
  from step(1) refl show ?thesis
  proof (cases rule: frame_step_cases)
    case (gate k j b fs x y)
    with step(2) sc show ?thesis
      by (intro scopes_ok_same [OF ok(1)]) auto
  next
    case (retire_impl x fs)
    with live [of "Exec (Impl x) [] Return" x] have "x < fj_next s" "fs_alive (fj_scopes s x)" by simp_all
    with retire_impl step(2) sc(2,3) sc(1) show ?thesis
      by (intro scopes_okI) (auto simp: scope_ok_def split: if_splits)
  next
    case (retire_own x fs)
    with st step(2) sc show ?thesis
      by (intro scopes_ok_same [OF ok(1)]) auto
  next
    case (retire_tail k fs)
    with step(2) sc show ?thesis
      by (intro scopes_ok_same [OF ok(1)]) auto
  next
    case (raise e fs)
    with step(2) sc show ?thesis
      by (intro scopes_ok_same [OF ok(1)]) auto
  next
    case (capture k e fs x)
    with step(2) sc show ?thesis
      by (intro scopes_ok_same [OF ok(1)]) auto
  next
    case (flag k fs x)
    with step(2) sc show ?thesis
      by (intro scopes_ok_same [OF ok(1)]) auto
  next
    case (skip_call k tok bs cs r fs)
    with step(2) sc show ?thesis
      by (intro scopes_ok_same [OF ok(1)]) auto
  next
    case (direct_call k tok b cs r fs)
    with step(2) sc show ?thesis
      by (intro scopes_ok_same [OF ok(1)]) auto
  next
    case (open_scope k tok bs cs r fs)
    have "pend_tot P (fj_next s) s = 0" "own_tot P (fj_next s) s = 0" using sc(1) [of "fj_next s"] by (simp_all add: scope_ok_def)
    with open_scope step(2) sc show ?thesis
      by (intro scopes_okI) (auto simp: scope_ok_def new_scope_def of_nat_diff less_Suc_eq split: if_splits)
  next
    case (push x tk ts j tb fs)
    with step(2) sc show ?thesis
      by (intro scopes_ok_same [OF ok(1)]) auto
  next
    case (tail x j tb fs)
    with step(2) sc show ?thesis
      by (intro scopes_ok_same [OF ok(1)]) auto
  next
    case (seen d own fs)
    with step(2) sc show ?thesis
      by (intro scopes_ok_same [OF ok(1)]) (auto simp: drain_own_flag [of _ d own True])
  next
    case (take d own fs x pre tk post k)
    then have "x < P" using step(2,3) by auto
    with take step(2) sc show ?thesis
      by (intro scopes_ok_same [OF ok(1)]) auto
  next
    case (leave_root d b fs)
    with step(2) sc show ?thesis
      by (intro scopes_ok_same [OF ok(1)]) auto
  next
    case (leave d n b fs)
    have d: "d < fj_next s" "fs_alive (fj_scopes s d)" using live [of "Drain d (Some n) b" d] leave(1) by simp_all
    have t: "pend_tot P x t = pend_tot P x s - of_bool (d = x) * int n" "own_tot P x t = own_tot P x s - of_bool (d = x)" for x
      using leave step(2) by (auto split: option.splits)
    have nn: "0 \<le> pend_tot P d t" "0 \<le> own_tot P d t" by (intro fj_tot_nn pend_nn; simp)+
    with t [of d] sc(1) [of d] d leave(2) have z: "d \<noteq> 0" "pend_tot P d t = 0" "own_tot P d t = 0"
      by (auto simp: scope_ok_def split: if_splits)
    show ?thesis
    proof (rule scopes_okI)
      show "scope_ok P t x" for x
        using z t [of x] sc(1) [of x] leave(3) by (cases "x = d") (auto simp: scope_ok_def split: if_splits)
    qed (use leave(3) z(1) sc in \<open>auto split: option.splits\<close>)
  qed
qed

section \<open>Every task once\<close>

text \<open>A task waits in a deque, in the list still to be pushed, or before its gate; then it is in the log.\<close>

fun wait_q :: "nat \<Rightarrow> nat \<Rightarrow> fj_task \<Rightarrow> int" where
  "wait_q sc j (Task s i b) = of_bool (s = sc \<and> i = j)"

fun wait_f :: "nat \<Rightarrow> nat \<Rightarrow> fj_frame \<Rightarrow> int" where
  "wait_f sc j (Gate k i b) = of_bool (kind_scope k = Some sc \<and> i = j)"
| "wait_f sc j (Spawn s todo i b) = sum_list (map (wait_q sc j) todo) + of_bool (s = sc \<and> i = j)"
| "wait_f sc j f = 0"

abbreviation wait_tot :: "nat \<Rightarrow> nat \<Rightarrow> nat \<Rightarrow> fj \<Rightarrow> int" where
  "wait_tot P sc j \<equiv> fj_tot P (wait_q sc j) (wait_f sc j)"

definition log_count :: "nat \<Rightarrow> nat \<Rightarrow> (nat \<times> nat \<times> bool) list \<Rightarrow> int" where
  "log_count sc j l = sum_list (map (\<lambda>(s, i, _). of_bool (s = sc \<and> i = j)) l)"

definition logged_ok :: "nat \<Rightarrow> fj \<Rightarrow> bool" where
  "logged_ok P s = (\<forall>sc j. wait_tot P sc j s + log_count sc j (fj_log s)
     = of_bool (sc < fj_next s \<and> j < fs_size (fj_scopes s sc)))"

lemma log_count_Cons [simp]:
  "log_count sc j ((s, i, r) # l) = of_bool (s = sc \<and> i = j) + log_count sc j l" "log_count sc j [] = 0"
  by (simp_all add: log_count_def)

lemma wait_nn [simp]: "0 \<le> wait_q sc j tk" "0 \<le> wait_f sc j f" "0 \<le> log_count sc j l"
proof -
  show q: "0 \<le> wait_q sc j tk" for tk by (cases tk) simp
  show "0 \<le> wait_f sc j f" by (cases "(sc, j, f)" rule: wait_f.cases) (auto simp: q intro!: sum_list_nn add_nonneg_nonneg)
  show "0 \<le> log_count sc j l" unfolding log_count_def by (rule sum_list_nn) (simp split: prod.split)
qed

lemma wait_simps [simp]:
  "wait_f sc j (enter_body k b) = 0"
  "wait_f sc j (gate_of k tk) = of_bool (kind_scope k = Some sc \<and> ft_idx tk = j)"
  "wait_q sc j tk = of_bool (ft_scope tk = sc \<and> ft_idx tk = j)"
  by (cases b; simp; fail | cases tk; simp; fail)+

lemma wait_again [simp]:
  "sum_list (map (wait_f sc j) (drain_again fs)) = sum_list (map (wait_f sc j) fs)"
  "sum_list (map (wait_f sc j) (drain_again_own fs)) = sum_list (map (wait_f sc j) fs)"
  "sum_list (map (wait_f sc j) (raise_in e fs)) = sum_list (map (wait_f sc j) fs)"
    apply (cases fs rule: drain_again.cases; simp)
   apply (cases fs rule: drain_again_own.cases; simp)
  apply (cases "(e, fs)" rule: raise_in.cases; simp)
  done

lemma tasks_of_wait [simp]:
  "sum_list (map (wait_q sc j) (tasks_of x bs)) = of_bool (x = sc \<and> j < length bs)"
proof -
  have "sum_list (map (\<lambda>i. of_bool (x = sc \<and> i = j) :: int) [0..<n]) = of_bool (x = sc \<and> j < n)" for n
    by (induction n) auto
  then show ?thesis by (simp add: tasks_of_def o_def)
qed

lemma logged_ok_step:
  assumes ok: "logged_ok P s" and step: "frame_step s i v (fj_stack s i) = Some t" "i < P" "v < P"
  shows "logged_ok P t"
proof -
  have l: "wait_tot P sc j s + log_count sc j (fj_log s)
     = of_bool (sc < fj_next s \<and> j < fs_size (fj_scopes s sc))" for sc j using ok by (simp add: logged_ok_def)
  from step(1) refl show ?thesis
  proof (cases rule: frame_step_cases)
    case (gate k j b fs x y)
    with l step(2) show ?thesis by (auto simp: logged_ok_def)
  next
    case (open_scope k tok bs cs r fs)
    have "wait_tot P (fj_next s) j s = 0 \<and> log_count (fj_next s) j (fj_log s) = 0" for j
      using l [of "fj_next s" j] fj_tot_nn [of "wait_q (fj_next s) j" "wait_f (fj_next s) j" P s]
        wait_nn(3) [of "fj_next s" j "fj_log s"] wait_nn(1,2) by (simp add: add_nonneg_eq_0_iff)
    with open_scope l step(2) show ?thesis by (auto simp: logged_ok_def new_scope_def less_Suc_eq)
  next
    case (take d own fs x pre tk post k)
    then have "x < P" using step(2,3) by auto
    with take l step(2) show ?thesis by (auto simp: logged_ok_def)
  qed (use l step(2) in \<open>auto simp: logged_ok_def split: option.splits\<close>)
qed

section \<open>Cancellation and exceptions\<close>

text \<open>A task is skipped only in a scope that is cancelled or stopped, and an exception comes before the flag.\<close>

definition flags_ok :: "nat \<Rightarrow> fj \<Rightarrow> bool" where
  "flags_ok P s = ((\<forall>sc j. (sc, j, False) \<in> set (fj_log s) \<longrightarrow> sc < fj_next s \<and> fj_stopped s sc) \<and>
     (\<forall>sc < fj_next s. fs_cancelled (fj_scopes s sc) \<longrightarrow> fs_first (fj_scopes s sc) \<noteq> None) \<and>
     (\<forall>i < P. \<forall>k cs sc. Exec k cs Captured \<in> set (fj_stack s i) \<longrightarrow> kind_scope k = Some sc \<longrightarrow>
        fs_first (fj_scopes s sc) \<noteq> None))"

lemma set_again [simp]:
  "Exec k cs r \<in> set (drain_again fs) \<longleftrightarrow> Exec k cs r \<in> set fs"
  "Exec k cs r \<in> set (drain_again_own fs) \<longleftrightarrow> Exec k cs r \<in> set fs"
  "Exec k cs Captured \<in> set (raise_in e fs) \<Longrightarrow> Exec k cs Captured \<in> set fs"
    apply (cases fs rule: drain_again.cases; simp)
   apply (cases fs rule: drain_again_own.cases; simp)
  apply (cases "(e, fs)" rule: raise_in.cases; simp)
  done

lemma enter_not_captured [simp]: "Exec k cs Captured \<noteq> enter_body k' b" "Exec k cs r \<noteq> gate_of k' tk"
  by (cases b; simp add: fin_of_def split: option.splits) (cases tk; simp)

lemma flags_okI:
  assumes "\<And>sc j. (sc, j, False) \<in> set (fj_log s) \<Longrightarrow> sc < fj_next s \<and> fj_stopped s sc"
    "\<And>sc. sc < fj_next s \<Longrightarrow> fs_cancelled (fj_scopes s sc) \<Longrightarrow> fs_first (fj_scopes s sc) \<noteq> None"
    "\<And>i k cs sc. i < P \<Longrightarrow> Exec k cs Captured \<in> set (fj_stack s i) \<Longrightarrow> kind_scope k = Some sc \<Longrightarrow> fs_first (fj_scopes s sc) \<noteq> None"
  shows "flags_ok P s"
  using assms unfolding flags_ok_def by blast

lemma flags_okD:
  assumes "flags_ok P s"
  shows "(sc, j, False) \<in> set (fj_log s) \<Longrightarrow> sc < fj_next s \<and> fj_stopped s sc"
    "sc < fj_next s \<Longrightarrow> fs_cancelled (fj_scopes s sc) \<Longrightarrow> fs_first (fj_scopes s sc) \<noteq> None"
    "i < P \<Longrightarrow> Exec k cs Captured \<in> set (fj_stack s i) \<Longrightarrow> kind_scope k = Some sc \<Longrightarrow> fs_first (fj_scopes s sc) \<noteq> None"
  using assms unfolding flags_ok_def by blast+

text \<open>Steps that capture nothing, and those whose new frames await no flag.\<close>

lemma flags_ok_set:
  assumes ok: "flags_ok P s" and t: "fj_log t = fj_log s" "fj_next t = fj_next s" "fj_toks t = fj_toks s"
    "\<And>sc. fs_cancelled (fj_scopes t sc) = fs_cancelled (fj_scopes s sc)"
    "\<And>sc. fs_token (fj_scopes t sc) = fs_token (fj_scopes s sc)"
    "\<And>sc. fs_first (fj_scopes t sc) = fs_first (fj_scopes s sc)"
    and st: "fj_stack t = (fj_stack s)(i := fs)" "i < P"
    "\<And>k cs. Exec k cs Captured \<in> set fs \<Longrightarrow> \<exists>cs'. Exec k cs' Captured \<in> set (fj_stack s i)"
  shows "flags_ok P t"
proof (rule flags_okI)
  show "sc < fj_next t \<and> fj_stopped t sc" if "(sc, j, False) \<in> set (fj_log t)" for sc j
    using flags_okD(1) [OF ok, of sc j] that t by (simp add: fj_stopped_def)
  show "fs_first (fj_scopes t sc) \<noteq> None" if "sc < fj_next t" "fs_cancelled (fj_scopes t sc)" for sc
    using flags_okD(2) [OF ok, of sc] that t by simp
  show "fs_first (fj_scopes t sc) \<noteq> None"
    if "n < P" "Exec k cs Captured \<in> set (fj_stack t n)" "kind_scope k = Some sc" for n k cs sc
  proof (cases "n = i")
    case True
    with that(2) st(1) obtain cs' where "Exec k cs' Captured \<in> set (fj_stack s i)" using st(3) by auto
    from flags_okD(3) [OF ok st(2) this that(3)] t(6) show ?thesis by simp
  next
    case False
    with that st(1) t(6) flags_okD(3) [OF ok, of n k cs sc] show ?thesis by simp
  qed
qed

lemma flags_ok_step:
  assumes ok: "flags_ok P s" "scopes_ok P s" "stacks_ok P s"
    and step: "frame_step s i v (fj_stack s i) = Some t" "i < P" "v < P"
  shows "flags_ok P t"
proof -
  note live = frame_alive [OF ok(2,3)]
  note f = flags_okD [OF ok(1)]
  from step(1) refl show ?thesis
  proof (cases rule: frame_step_cases)
    case (gate k j b fs x y)
    have "x < fj_next s" using live(1) [OF step(2), of "Gate k j b" x] gate by simp
    with gate(3) have "flags_ok P (s\<lparr> fj_log := (x, j, y) # fj_log s \<rparr>)"
      by (intro flags_okI) (auto simp: fj_stopped_def dest: f split: if_splits)
    then show ?thesis
      unfolding gate(4) by (rule flags_ok_set [OF _ _ _ _ _ _ _ _ step(2),
          where fs = "(if y then enter_body k b else Exec k [] Return) # fs"]) (use gate in \<open>auto split: if_splits\<close>)
  next
    case (open_scope k tok bs cs r fs)
    let ?u = "set_scope (s\<lparr> fj_next := Suc (fj_next s) \<rparr>) (fj_next s) (new_scope (length bs - 1) (length bs) tok)"
    have "flags_ok P ?u"
    proof (rule flags_okI)
      show "sc < fj_next ?u \<and> fj_stopped ?u sc" if "(sc, j, False) \<in> set (fj_log ?u)" for sc j
        using f(1) [of sc j] that by (auto simp: fj_stopped_def)
      show "fs_first (fj_scopes ?u sc) \<noteq> None" if "sc < fj_next ?u" "fs_cancelled (fj_scopes ?u sc)" for sc
        using f(2) [of sc] that by (auto simp: new_scope_def split: if_splits)
      show "fs_first (fj_scopes ?u sc) \<noteq> None"
        if "n < P" "Exec k cs Captured \<in> set (fj_stack ?u n)" "kind_scope k = Some sc" for n k cs sc
        using f(3) [of n k cs sc] live(1) [of n "Exec k cs Captured" sc] that by auto
    qed
    then show ?thesis
      unfolding open_scope(3) by (rule flags_ok_set [OF _ _ _ _ _ _ _ _ step(2)]) (use open_scope(1) in auto)
  next
    case (flag k fs x)
    let ?u = "set_scope s x ((fj_scopes s x)\<lparr> fs_cancelled := True \<rparr>)"
    have "fs_first (fj_scopes s x) \<noteq> None" using f(3) [OF step(2), of k "[]" x] flag by simp
    then have "flags_ok P ?u" by (intro flags_okI) (auto simp: fj_stopped_def dest: f split: if_splits)
    then show ?thesis
      unfolding flag(3) by (rule flags_ok_set [OF _ _ _ _ _ _ _ _ step(2)]) (use flag(1) in auto)
  next
    case (capture k e fs x)
    let ?u = "set_scope s x (captureFirst (fj_scopes s x) e)"
    have u: "flags_ok P ?u" by (intro flags_okI) (auto simp: fj_stopped_def dest: f split: if_splits)
    show ?thesis
    proof (rule flags_okI)
      show "fs_first (fj_scopes t sc) \<noteq> None"
        if "n < P" "Exec k' cs Captured \<in> set (fj_stack t n)" "kind_scope k' = Some sc" for n k' cs sc
        using that capture flags_okD(3) [OF u, of n k' cs sc] by (auto split: if_splits)
    qed (use capture flags_okD(1,2) [OF u] in \<open>auto simp: fj_stopped_def\<close>)
  qed (rule flags_ok_set [OF ok(1) _ _ _ _ _ _ _ step(2)], auto split: option.splits dest: set_again(3) dest!: sym [of "Exec _ _ _"])+
qed

text \<open>The exceptions in the state all come from bodies.\<close>

fun exns_body :: "fj_body \<Rightarrow> nat list" and exns_call :: "fj_call \<Rightarrow> nat list" where
  "exns_body (Body cs r) = (case r of None \<Rightarrow> [] | Some e \<Rightarrow> [e]) @ concat (map exns_call cs)"
| "exns_call (Call tok bs) = concat (map exns_body bs)"

definition body_in :: "nat set \<Rightarrow> fj_body \<Rightarrow> bool" where
  "body_in E b = (set (exns_body b) \<subseteq> E)"

definition call_in :: "nat set \<Rightarrow> fj_call \<Rightarrow> bool" where
  "call_in E c = (set (exns_call c) \<subseteq> E)"

fun fin_in :: "nat set \<Rightarrow> fj_fin \<Rightarrow> bool" where
  "fin_in E (Raise e) = (e \<in> E)"
| "fin_in E r = True"

fun frame_in :: "nat set \<Rightarrow> fj_frame \<Rightarrow> bool" where
  "frame_in E (Gate k j b) = body_in E b"
| "frame_in E (Exec k cs r) = ((\<forall>c \<in> set cs. call_in E c) \<and> fin_in E r)"
| "frame_in E (Spawn sc todo j b) = ((\<forall>tk \<in> set todo. body_in E (ft_body tk)) \<and> body_in E b)"
| "frame_in E (Drain d own b) = True"

definition exns_ok :: "nat set \<Rightarrow> nat \<Rightarrow> fj \<Rightarrow> bool" where
  "exns_ok E P s = ((\<forall>i < P. (\<forall>tk \<in> set (fj_dq s i). body_in E (ft_body tk)) \<and> (\<forall>f \<in> set (fj_stack s i). frame_in E f)) \<and>
     (\<forall>sc < fj_next s. \<forall>e. fs_first (fj_scopes s sc) = Some e \<longrightarrow> e \<in> E))"

lemma exns_okI:
  assumes "exns_ok E P s" "\<And>n. n \<noteq> i \<Longrightarrow> fj_stack t n = fj_stack s n" "\<forall>f \<in> set (fj_stack t i). frame_in E f"
    "\<And>n tk. n < P \<Longrightarrow> tk \<in> set (fj_dq t n) \<Longrightarrow> body_in E (ft_body tk)"
    "\<And>sc e. sc < fj_next t \<Longrightarrow> fs_first (fj_scopes t sc) = Some e \<Longrightarrow> e \<in> E"
  shows "exns_ok E P t"
  using assms unfolding exns_ok_def by metis

lemma body_in_simps [simp]:
  "body_in E (Body cs r) = ((case r of None \<Rightarrow> True | Some e \<Rightarrow> e \<in> E) \<and> (\<forall>c \<in> set cs. call_in E c))"
  "call_in E (Call tok bs) = (\<forall>b \<in> set bs. body_in E b)"
  by (auto simp: body_in_def call_in_def split: option.splits)

lemma frame_in_simps [simp]:
  "frame_in E (enter_body k b) = body_in E b" "frame_in E (gate_of k tk) = body_in E (ft_body tk)"
  by (cases b; auto simp: fin_of_def split: option.splits) (cases tk; simp)

lemma frames_in_again [simp]:
  "(\<forall>f \<in> set (drain_again fs). frame_in E f) = (\<forall>f \<in> set fs. frame_in E f)"
  "(\<forall>f \<in> set (drain_again_own fs). frame_in E f) = (\<forall>f \<in> set fs. frame_in E f)"
  by (cases fs rule: drain_again.cases; simp) (cases fs rule: drain_again_own.cases; simp)

lemma frames_in_raise: "(\<forall>f \<in> set fs. frame_in E f) \<Longrightarrow> e \<in> E \<Longrightarrow> (\<forall>f \<in> set (raise_in e fs). frame_in E f)"
  by (cases "(e, fs)" rule: raise_in.cases) simp_all

lemma tasks_of_in: "(\<forall>tk \<in> set (tasks_of sc bs). body_in E (ft_body tk)) = (\<forall>b \<in> set bs. body_in E b)"
  by (auto simp: tasks_of_def all_set_conv_all_nth)

lemma exns_ok_step:
  assumes ok: "exns_ok E P s" "scopes_ok P s" "stacks_ok P s"
    and step: "frame_step s i v (fj_stack s i) = Some t" "i < P" "v < P"
  shows "exns_ok E P t"
proof -
  have e: "\<forall>f \<in> set (fj_stack s i). frame_in E f" using ok(1) step(2) unfolding exns_ok_def by blast
  have q: "body_in E (ft_body tk)" if "n < P" "tk \<in> set (fj_dq s n)" for n tk using ok(1) that unfolding exns_ok_def by blast
  have x: "y \<in> E" if "sc < fj_next s" "fs_first (fj_scopes s sc) = Some y" for sc y using ok(1) that unfolding exns_ok_def by blast
  note live = frame_alive [OF ok(2,3)] and I = exns_okI [OF ok(1), of i]
  from step(1) refl show ?thesis
  proof (cases rule: frame_step_cases)
    case (raise y fs)
    with e have "\<forall>f \<in> set (raise_in y fs). frame_in E f" by (intro frames_in_raise) auto
    then show ?thesis unfolding raise(2) by (intro I) (use q x in auto)
  next
    case (capture k y fs z)
    show ?thesis
      by (rule I) (use capture e q x in \<open>auto split: if_splits option.splits\<close>)
  next
    case (open_scope k tok bs cs r fs)
    have "bs \<noteq> []" using open_scope(2) by auto
    then have "last bs \<in> set bs" "set (butlast bs) \<subseteq> set bs" by (auto dest: in_set_butlastD)
    then have fr: "\<forall>f \<in> set (Spawn (fj_next s) (tasks_of (fj_next s) (butlast bs)) (length bs - 1) (last bs) # Exec k cs r # fs). frame_in E f"
      using open_scope(1) e by (auto simp: tasks_of_in)
    show ?thesis
      unfolding open_scope(3)
      by (rule I) (use fr q x in \<open>auto simp: new_scope_def less_Suc_eq split: if_splits\<close>)
  next
    case (take d own fs y pre tk post k)
    have y: "y < P" using take(2) step(2,3) by auto
    show ?thesis
      unfolding take(5)
      by (rule I)
        (use e q [OF y] q x take(1,3) in \<open>auto split: if_splits\<close>)
  next
    case (leave d n b fs)
    have d: "d < fj_next s" using live(1) [OF step(2), of "Drain d (Some n) b" d] leave(1) by simp
    have "\<forall>f \<in> set fs. frame_in E f" using e leave(1) by simp
    then have "\<forall>f \<in> set (case fs_first (fj_scopes s d) of None \<Rightarrow> fs | Some e \<Rightarrow> raise_in e fs). frame_in E f"
      using x [OF d] frames_in_raise [of fs E] by (cases "fs_first (fj_scopes s d)") simp_all
    then show ?thesis unfolding leave(3) by (intro I) (use q x in \<open>auto split: if_splits\<close>)
  qed (rule I, use e q x in \<open>auto split: if_splits\<close>)+
qed

text \<open>The root scope keeps its size and token, and a slot leaves it only when its counter is down.\<close>

definition root_ok :: "nat option \<Rightarrow> nat \<Rightarrow> nat \<Rightarrow> fj \<Rightarrow> bool" where
  "root_ok tok n P s = (fs_size (fj_scopes s 0) = n \<and> fs_token (fj_scopes s 0) = tok \<and>
     (\<forall>i < P. fj_stack s i = [] \<longrightarrow> fs_pending (fj_scopes s 0) \<le> 0))"

lemma not_empty [simp]:
  "is_drain fs \<Longrightarrow> drain_again fs \<noteq> []" "owns_drain sc fs \<Longrightarrow> drain_again_own fs \<noteq> []" "is_exec fs \<Longrightarrow> raise_in e fs \<noteq> []"
  "\<not> is_exec []" "\<not> owns_drain sc []"
  by (auto elim: is_drainE owns_drainE is_execE)

lemma root_ok_step:
  assumes ok: "root_ok tok n P s" "scopes_ok P s" "stacks_ok P s"
    and step: "frame_step s i v (fj_stack s i) = Some t" "i < P" "v < P"
  shows "root_ok tok n P t"
proof -
  have st: "stack_ok (fj_stack s i)" using ok(3) step(2) by (simp add: stacks_ok_def)
  have n0: "fj_next s \<noteq> 0" using ok(2) by (simp add: scopes_ok_def)
  from step(1) refl show ?thesis
  proof (cases rule: frame_step_cases)
    case (retire_tail k fs)
    with st have "fs \<noteq> []" by auto
    with retire_tail ok(1) show ?thesis by (simp add: root_ok_def)
  next
    case (leave_root d b fs)
    with st ok(1) show ?thesis by (simp add: root_ok_def)
  next
    case (leave d m b fs)
    with st have "is_exec fs" by simp
    then have "fs \<noteq> []" "\<And>e. raise_in e fs \<noteq> []" by auto
    with leave ok(1) show ?thesis by (simp add: root_ok_def split: option.splits)
  qed (use st ok(1) n0 in \<open>auto simp: root_ok_def\<close>)
qed

section \<open>The invariant of a run\<close>

definition fj_inv :: "nat option \<Rightarrow> fj_body list \<Rightarrow> nat \<Rightarrow> fj \<Rightarrow> bool" where
  "fj_inv tok bs P s = (stacks_ok P s \<and> scopes_ok P s \<and> logged_ok P s \<and> flags_ok P s \<and> exns_ok (set (concat (map exns_body bs))) P s \<and>
     root_ok tok (length bs) P s)"

lemma fj_invD:
  "fj_inv tok bs P s \<Longrightarrow> stacks_ok P s" "fj_inv tok bs P s \<Longrightarrow> scopes_ok P s" "fj_inv tok bs P s \<Longrightarrow> logged_ok P s"
  "fj_inv tok bs P s \<Longrightarrow> flags_ok P s" "fj_inv tok bs P s \<Longrightarrow> exns_ok (set (concat (map exns_body bs))) P s" "fj_inv tok bs P s \<Longrightarrow> root_ok tok (length bs) P s"
  by (simp_all add: fj_inv_def)

lemma fj_inv_step:
  assumes inv: "fj_inv tok bs P s" and step: "fj_step P s a = Some t"
  shows "fj_inv tok bs P t"
proof (cases a)
  case (Step i v)
  with step have st: "frame_step s i v (fj_stack s i) = Some t" "i < P" "v < P" by (auto split: if_splits)
  note d = fj_invD [OF inv]
  have q: "\<forall>i < P. \<forall>tk \<in> set (fj_dq s i). ft_scope tk < fj_next s" using task_alive(1) [OF d(2)] by blast
  show ?thesis
    unfolding fj_inv_def
    by (intro conjI stacks_ok_step [OF d(1) q st] scopes_ok_step [OF d(2,1) st] logged_ok_step [OF d(3) st]
        flags_ok_step [OF d(4,2,1) st] exns_ok_step [OF d(5,2,1) st]
        root_ok_step [OF d(6,2,1) st])
next
  case (Stop k)
  have mono: "tok_stopped toks tok \<Longrightarrow> tok_stopped (toks[k := True]) tok" for toks tok
    by (cases "k < length toks"; cases tok) (auto simp: nth_list_update)
  let ?u = "s\<lparr> fj_toks := (fj_toks s)[k := True] \<rparr>"
  note d = fj_invD [OF inv]
  have "fj_stopped ?u sc" if "fj_stopped s sc" for sc
    using that by (auto simp: fj_stopped_def intro: mono)
  with d(4) have "flags_ok P ?u" by (simp add: flags_ok_def)
  moreover have "stacks_ok P ?u" "scopes_ok P ?u" "logged_ok P ?u" "exns_ok (set (concat (map exns_body bs))) P ?u"
    "root_ok tok (length bs) P ?u"
    using d by (simp_all add: root_ok_def stacks_ok_def scopes_ok_def scope_ok_def logged_ok_def exns_ok_def)
  ultimately show ?thesis using Stop step by (auto simp: fj_inv_def split: if_splits)
qed

lemma fj_tot_init:
  assumes "0 < P" "fw (Drain 0 None False) = 0"
  shows "fj_tot P qw fw (fj_init tok bs toks) = sum_list (map qw (tasks_of 0 bs))"
proof -
  have "(\<Sum>i<P. if i = 0 then c else 0) = c" if "0 < P" for c :: int
    using that by (simp add: sum.delta)
  with assms show ?thesis by (simp add: fj_tot_def fj_init_def if_distrib [of "\<lambda>q. sum_list (map qw q)"] cong: if_cong)
qed

lemma fj_inv_init:
  assumes "0 < P"
  shows "fj_inv tok bs P (fj_init tok bs toks)"
proof -
  let ?s = "fj_init tok bs toks"
  have "pend_tot P sc ?s = of_bool (sc = 0) * int (length bs)" "own_tot P sc ?s = 0"
    "wait_tot P sc j ?s = of_bool (sc = 0 \<and> j < length bs)" for sc j
    using assms by (auto simp: fj_tot_init sum_list_triv)
  moreover have "\<forall>tk \<in> set (tasks_of 0 bs). body_in (set (concat (map exns_body bs))) (ft_body tk)"
    unfolding tasks_of_in by (auto simp: body_in_def)
  ultimately show ?thesis using assms
    by (auto simp: fj_inv_def stacks_ok_def scopes_ok_def scope_ok_def logged_ok_def flags_ok_def exns_ok_def
        fj_init_def new_scope_def root_ok_def)
qed

end
