(* ===== verification/ForkJoinRun.thy ===== *)
theory ForkJoinRun
  imports ForkJoinInv
begin

text \<open>
  Fork-join runs to the end: a measure that every step decreases, progress in every state that is not joined
  (a blocked slot waits for a task of its scope that another slot runs below a younger scope, and
  the youngest scope cannot be blocked), and what holds at the join.
\<close>

section \<open>The measure\<close>

fun body_w :: "fj_body \<Rightarrow> nat" and call_w :: "fj_call \<Rightarrow> nat" where
  "body_w (Body cs r) = 6 + sum_list (map call_w cs)"
| "call_w (Call tok bs) = 6 + sum_list (map (\<lambda>b. body_w b + 3) bs)"

fun fin_w :: "fj_fin \<Rightarrow> int" where
  "fin_w (Raise e) = 5" | "fin_w Captured = 4" | "fin_w Return = 3"

fun fuel_q :: "fj_task \<Rightarrow> int" where
  "fuel_q (Task sc j b) = int (body_w b) + 1"

fun fuel_f :: "fj_frame \<Rightarrow> int" where
  "fuel_f (Gate k j b) = int (body_w b)"
| "fuel_f (Exec k cs r) = int (sum_list (map call_w cs)) + fin_w r"
| "fuel_f (Spawn sc todo j b) = sum_list (map (\<lambda>tk. fuel_q tk + 1) todo) + int (body_w b) + 5"
| "fuel_f (Drain d own b) = (if b then 3 else 4)"

definition fj_fuel :: "nat \<Rightarrow> fj \<Rightarrow> nat" where
  "fj_fuel P s = nat (fj_tot P fuel_q fuel_f s) + length (filter Not (fj_toks s))"

lemma fin_w_bounds: "3 \<le> fin_w r" "fin_w r \<le> 5"
  by (cases r; simp)+

lemma fuel_simps [simp]:
  "0 \<le> fuel_q tk" "0 \<le> fuel_f f" "fuel_f (gate_of k tk) = fuel_q tk - 1"
proof -
  show q: "0 \<le> fuel_q tk" for tk by (cases tk) simp
  show "0 \<le> fuel_f f"
    using fin_w_bounds(1) by (cases f) (auto intro!: add_nonneg_nonneg sum_list_nn q order_trans [OF _ fin_w_bounds(1)])
qed (cases tk; simp)

lemma fuel_enter: "fuel_f (enter_body k b) < int (body_w b)"
  using fin_w_bounds(2) by (cases b) (simp add: fin_of_def split: option.splits)

lemma fuel_again:
  "sum_list (map fuel_f (drain_again fs)) \<le> sum_list (map fuel_f fs) + 1"
  "sum_list (map fuel_f (drain_again_own fs)) \<le> sum_list (map fuel_f fs) + 1"
  "sum_list (map fuel_f (raise_in e fs)) \<le> sum_list (map fuel_f fs) + 2"
    apply (cases fs rule: drain_again.cases; simp)
   apply (cases fs rule: drain_again_own.cases; simp)
  apply (cases "(e, fs)" rule: raise_in.cases; simp)
  using fin_w_bounds(1) by (smt (verit) of_nat_0_le_iff sum_list_nonneg)

lemma fuel_q_body: "fuel_q tk = int (body_w (ft_body tk)) + 1"
  by (cases tk) simp

lemma tasks_of_sum: "sum_list (map (\<lambda>tk. f (ft_body tk)) (tasks_of sc bs)) = sum_list (map f bs)"
proof -
  have "map (\<lambda>tk. f (ft_body tk)) (tasks_of sc bs) = map f (map ((!) bs) [0..<length bs])"
    by (simp add: tasks_of_def o_def)
  then show ?thesis by (simp only: map_nth)
qed

lemma fuel_spawn:
  assumes "bs \<noteq> []"
  shows "fuel_f (Spawn sc (tasks_of sc (butlast bs)) j (last bs)) < int (call_w (Call tok bs))"
proof -
  have b: "sum_list (map f bs) = sum_list (map f (butlast bs)) + f (last bs)" for f :: "fj_body \<Rightarrow> nat"
    using arg_cong [OF append_butlast_last_id [OF assms], of "\<lambda>xs. sum_list (map f xs)"] by simp
  have "sum_list (map (\<lambda>tk. fuel_q tk + 1) (tasks_of sc (butlast bs))) = sum_list (map (\<lambda>b. int (body_w b) + 2) (butlast bs))"
    using tasks_of_sum [of "\<lambda>b. int (body_w b) + 2" sc "butlast bs"] by (simp add: fuel_q_body algebra_simps)
  also have "\<dots> \<le> int (sum_list (map (\<lambda>b. body_w b + 3) (butlast bs)))"
    unfolding sum_list_of_nat [symmetric] map_map o_def by (rule sum_list_mono) simp
  finally show ?thesis using b [of "\<lambda>b. body_w b + 3"] by simp
qed

lemma fuel_step:
  assumes "frame_step s i v (fj_stack s i) = Some t" "i < P" "v < P"
  shows "fj_tot P fuel_q fuel_f t < fj_tot P fuel_q fuel_f s"
  using assms(1) refl
proof (cases rule: frame_step_cases)
  case (gate k j b fs sc x)
  with assms(2) fuel_enter [of k b] show ?thesis by (cases b) auto
next
  case (retire_impl sc fs)
  with assms(2) fuel_again(1) [of fs] show ?thesis by simp
next
  case (retire_own sc fs)
  with assms(2) fuel_again(2) [of fs] show ?thesis by simp
next
  case (raise e fs)
  with assms(2) fuel_again(3) [of e fs] show ?thesis by simp
next
  case (direct_call k tok b cs r fs)
  with assms(2) fuel_enter [of Direct b] show ?thesis by simp
next
  case (open_scope k tok bs cs r fs)
  have "bs \<noteq> []" using open_scope(2) by auto
  from open_scope assms(2) fuel_spawn [OF this, of "fj_next s" "length bs - 1" tok] show ?thesis by simp
next
  case (take d own fs x pre tk post k)
  then have "x < P" using assms(2,3) by auto
  with take assms(2) show ?thesis by simp
next
  case (leave d n b fs)
  then have "sum_list (map fuel_f (case fs_first (fj_scopes s d) of None \<Rightarrow> fs | Some e \<Rightarrow> raise_in e fs))
      < sum_list (map fuel_f fs) + 3"
  proof (cases "fs_first (fj_scopes s d)")
    case (Some e)
    with fuel_again(3) [of e fs] show ?thesis by simp
  qed simp
  with leave assms(2) show ?thesis by simp
qed (use assms(2) in auto)

lemma fj_fuel_step:
  assumes "fj_step P s a = Some t"
  shows "fj_fuel P t < fj_fuel P s"
proof (cases a)
  case (Step i v)
  with assms have st: "frame_step s i v (fj_stack s i) = Some t" "i < P" "v < P" by (auto split: if_splits)
  have "fj_toks t = fj_toks s" using st(1) refl by (cases rule: frame_step_cases) auto
  moreover have "0 \<le> fj_tot P fuel_q fuel_f t" by (intro fj_tot_nn fuel_simps)
  ultimately show ?thesis using fuel_step [OF st] by (simp add: fj_fuel_def)
next
  case (Stop k)
  have "length (filter Not (bs[k := True])) < length (filter Not bs)" if "k < length bs" "\<not> bs ! k" for bs
    using that by (induction bs arbitrary: k) (auto split: nat.splits)
  with Stop assms show ?thesis by (auto simp: fj_fuel_def split: if_splits)
qed

section \<open>Progress\<close>

text \<open>A slot that cannot move is at a drain whose tasks are all being run elsewhere, with every deque empty.\<close>

lemma frame_blocked:
  assumes "\<And>v. v < P \<Longrightarrow> frame_step s i v fs = None" and "0 < P" and "stack_ok fs" "fs \<noteq> []" "i < P"
  obtains d own gs where "fs = Drain d own True # gs" "0 < effective_pending (fj_scopes s d) own"
    "\<forall>v < P. fj_dq s v = []"
proof (cases fs)
  case Nil
  with assms(4) show ?thesis by simp
next
  case (Cons f gs)
  note n = assms(1) [unfolded Cons]
  show ?thesis
  proof (cases f)
    case (Gate k j b)
    with n [OF assms(2)] assms(3) Cons show ?thesis by (cases k) (auto simp: fj_gate_step_def split: if_splits)
  next
    case (Exec k cs r)
    with n [OF assms(2)] assms(3) Cons show ?thesis
      by (cases cs; cases r; cases k) (auto simp: finish_step_def)
  next
    case (Spawn sc todo j b)
    with n [OF assms(2)] show ?thesis by simp
  next
    case (Drain d own b)
    have "fj_dq s v = []" if "v < P" for v
      using n [OF that] n [OF assms(5)] Drain
      by (cases "v = i") (auto simp: drain_step_def Let_def split: if_splits)
    moreover have "b" "0 < effective_pending (fj_scopes s d) own"
      using n [OF assms(5)] Drain by (auto simp: drain_step_def Let_def split: if_splits)
    ultimately show ?thesis using that Drain Cons by auto
  qed
qed

lemma fj_tot_pos:
  assumes "0 < fj_tot P qw fw s" "\<And>x. 0 \<le> qw x" "\<And>x. 0 \<le> fw x" "\<forall>v < P. fj_dq s v = []"
  shows "\<exists>i f. i < P \<and> f \<in> set (fj_stack s i) \<and> 0 < fw f"
proof (rule ccontr)
  assume "\<not> ?thesis"
  then have "fw f = 0" if "i < P" "f \<in> set (fj_stack s i)" for i f
    using that assms(3) [of f] by fastforce
  then have "sum_list (map fw (fj_stack s i)) = 0" if "i < P" for i
    using that by (intro sum_list_zero) auto
  then have "fj_tot P qw fw s = 0" using assms(4) by (simp add: fj_tot_def)
  with assms(1) show False by simp
qed

text \<open>Above any frame of a stack whose top is a drain there is a younger scope.\<close>

lemma stack_ok_append: "stack_ok (ts @ fs) \<Longrightarrow> stack_ok fs"
  by (induction ts) auto

lemma stack_at: "stacks_ok P s \<Longrightarrow> i < P \<Longrightarrow> fj_stack s i = ts @ fs \<Longrightarrow> stack_ok fs"
  using stack_ok_append by (metis stacks_ok_def)

lemma younger_scope_above:
  assumes "stack_ok (ts @ f # fs)" "ts \<noteq> []" "is_drain ts"
  shows "\<exists>g \<in> set ts. \<exists>x. owner g = Some x \<and> below x (f # fs)"
  using assms
proof (induction ts arbitrary: f fs rule: rev_induct)
  case (snoc a ts)
  then have a: "sits a (f # fs)" "\<And>sc. owner a = Some sc \<Longrightarrow> below sc (f # fs)"
    using stack_ok_append [of ts "a # f # fs"] by auto
  show ?case
  proof (cases "owner a")
    case None
    then have "\<not> is_drain [a]" using a(1) by (cases a rule: owner.cases) auto
    then have ts: "ts \<noteq> []" using snoc.prems(3) by auto
    then have "is_drain ts" using snoc.prems(3) by (cases ts rule: is_drain.cases) auto
    from snoc.IH [OF _ ts this, of a "f # fs"] snoc.prems(1) show ?thesis by (auto simp: Bex_def)
  qed (use a in auto)
qed simp

lemma nothing_on_spawn:
  assumes "stack_ok (ts @ Spawn sc todo j b # fs)"
  shows "ts = []"
proof (cases ts rule: rev_cases)
  case (snoc us a)
  with stack_ok_append [of us "a # Spawn sc todo j b # fs"] assms have "sits a (Spawn sc todo j b # fs)" by simp
  then show ?thesis by (cases "(a, Spawn sc todo j b # fs)" rule: sits.cases) (auto split: fj_kind.splits elim: kind_on.elims)
qed

lemma fj_progress:
  assumes inv: "fj_inv tok bs P s" and P: "0 < P" and unjoined: "\<not> fj_joined P s"
  shows "\<exists>a t. fj_step P s a = Some t"
proof (rule ccontr)
  assume stuck: "\<nexists>a t. fj_step P s a = Some t"
  note d = fj_invD [OF inv]
  have st: "stack_ok (fj_stack s i)" if "i < P" for i using d(1) that by (simp add: stacks_ok_def)
  have sc: "scope_ok P s x" for x using d(2) by (simp add: scopes_ok_def)
  have none: "frame_step s i v (fj_stack s i) = None" if "i < P" "v < P" for i v
    using stuck that by (metis fj_step.simps(1) option.exhaust)
  have top: "\<exists>x own gs. fj_stack s i = Drain x own True # gs \<and> 0 < effective_pending (fj_scopes s x) own \<and>
      (\<forall>v < P. fj_dq s v = [])" if "i < P" "fj_stack s i \<noteq> []" for i
    using frame_blocked [OF none [OF that(1)] P st [OF that(1)] that(2,1)] by metis
  obtain i0 where "i0 < P" "fj_stack s i0 \<noteq> []" using unjoined by (auto simp: fj_joined_def)
  from top [OF this] have dq: "\<forall>v < P. fj_dq s v = []" by blast
  let ?owned = "\<lambda>x. \<exists>i < P. \<exists>g \<in> set (fj_stack s i). owner g = Some x"
  have above: "\<exists>x. ?owned x \<and> m < x"
    if f: "i < P" "fj_stack s i = ts @ f # fs" "ts \<noteq> []" "frame_scope f = Some m" for i ts f fs m
  proof -
    have "fj_stack s i \<noteq> []" using f(2) by simp
    from top [OF f(1) this] have "is_drain (fj_stack s i)" by auto
    then have "is_drain ts" using f(2,3) by (cases ts rule: is_drain.cases) auto
    from younger_scope_above [OF _ f(3) this, of f fs] st [OF f(1)] f(2)
    obtain g x where "g \<in> set ts" "owner g = Some x" "below x (f # fs)" by metis
    then have "g \<in> set (fj_stack s i)" "owner g = Some x" "m < x" using f by auto
    with f(1) have "?owned x" "m < x" by blast+
    then show ?thesis by blast
  qed
  have running: "\<exists>x. ?owned x \<and> m < x"
    if f: "i < P" "f \<in> set (fj_stack s i)" "0 < pend_f m f" "own_f m f = 0" for i f m
  proof -
    obtain ts fs where s: "fj_stack s i = ts @ f # fs" using split_list [OF f(2)] by blast
    then have "fj_stack s i \<noteq> []" by simp
    from top [OF f(1) this] obtain x own gs where t: "fj_stack s i = Drain x own True # gs" by blast
    have nd: "f \<noteq> Drain x own True" using f(3,4) by (cases own) (auto split: if_splits)
    have ts: "ts \<noteq> []" using s t nd by auto
    have "\<not> (\<exists>y todo j b. f = Spawn y todo j b)" using nothing_on_spawn [of ts _ _ _ _ fs] st [OF f(1)] s ts by auto
    then have "frame_scope f = Some m"
      using f(3,4) by (cases "(m, f)" rule: pend_f.cases) (auto simp: pend_k_def own_f_def max_def split: if_splits)
    with above [OF f(1) s ts] show ?thesis by blast
  qed
  show False
  proof (cases "\<exists>x. ?owned x")
    case True
    have "finite {x. ?owned x}"
    proof (rule finite_subset)
      show "{x. ?owned x} \<subseteq> {..<fj_next s}"
      proof clarify
        fix x i g
        assume "i < P" "g \<in> set (fj_stack s i)" "owner g = Some x"
        then show "x < fj_next s"
          using frame_alive(1) [OF d(2,1), of i g x] by (cases g rule: owner.cases) auto
      qed
    qed simp
    define m where "m = Max {x. ?owned x}"
    have m: "?owned m" "\<And>x. ?owned x \<Longrightarrow> x \<le> m"
      unfolding m_def using Max_in [OF \<open>finite _\<close>] Max_ge [OF \<open>finite _\<close>] True by blast+
    from m(1) obtain i g where g: "i < P" "g \<in> set (fj_stack s i)" "owner g = Some m" by blast
    obtain ts fs where s: "fj_stack s i = ts @ g # fs" using split_list [OF g(2)] by blast
    have "frame_scope g = Some m" using g(3) by (cases g rule: owner.cases) auto
    with above [OF g(1) s] m(2) have "ts = []" by (meson not_le)
    with s have s: "fj_stack s i = g # fs" by simp
    with top [OF g(1)] g(3) obtain n where n: "g = Drain m (Some n) True" "int n < fs_pending (fj_scopes s m)"
      by (cases g rule: owner.cases) (auto simp: effective_pending_def)
    have alive: "m < fj_next s" "fs_alive (fj_scopes s m)"
      using frame_alive [OF d(2,1) g(1,2), of m] n(1) by auto
    let ?u = "set_stack s i fs"
    have u: "pend_tot P m ?u = fs_pending (fj_scopes s m) - int n" "own_tot P m ?u \<le> 0"
      using sc [of m] alive g(1) s n(1) by (auto simp: scope_ok_def)
    from u(1) n(2) have "0 < pend_tot P m ?u" by simp
    then obtain j f where f: "j < P" "f \<in> set (fj_stack ?u j)" "0 < pend_f m f"
      using fj_tot_pos [of P "pend_q m" "pend_f m" ?u] dq by auto
    have "own_f m f \<le> own_tot P m ?u" by (intro fj_tot_frame [OF _ _ f(1,2)] pend_nn) simp
    then have "own_f m f = 0" using u(2) pend_nn(4) [of m f] by linarith
    moreover have "f \<in> set (fj_stack s j)" using f(2) s by (auto split: if_splits)
    ultimately show False using running [OF f(1) _ f(3)] m(2) by (meson not_le)
  next
    case False
    from top [OF \<open>i0 < P\<close> \<open>fj_stack s i0 \<noteq> []\<close>] obtain x own gs
      where t: "fj_stack s i0 = Drain x own True # gs" "0 < effective_pending (fj_scopes s x) own" by blast
    have "own = None" using False \<open>i0 < P\<close> t(1) by (cases own) fastforce+
    with st [OF \<open>i0 < P\<close>] t have x: "x = 0" "0 < fs_pending (fj_scopes s 0)" by (auto simp: effective_pending_def)
    have "0 < pend_tot P 0 s" using sc [of 0] x(2) d(2) by (auto simp: scope_ok_def scopes_ok_def)
    then obtain j f where f: "j < P" "f \<in> set (fj_stack s j)" "0 < pend_f 0 f" using fj_tot_pos [of P "pend_q 0" "pend_f 0" s] dq by auto
    have "own_f 0 f = 0" using False f(1,2) by (auto simp: own_f_def)
    with running [OF f] False show False by blast
  qed
qed

definition fj_start :: "nat \<Rightarrow> nat option \<Rightarrow> fj_body list \<Rightarrow> fj \<Rightarrow> bool" where
  "fj_start P tok bs s = (0 < P \<and> (\<exists>toks. s = fj_init tok bs toks))"

interpretation forkjoin: terminating_system "fj_step P" "fj_start P tok bs"
    "\<lambda>s. 0 < P \<and> fj_inv tok bs P s" "fj_joined P" "fj_fuel P" for P tok bs
  by unfold_locales (auto simp: fj_start_def intro: fj_inv_init fj_inv_step fj_fuel_step fj_progress)

section \<open>What the join means\<close>

text \<open>A body runs for a task that has not retired, or for a scope still owned; an owned scope is younger than that.\<close>

lemma exec_from:
  assumes "is_exec fs" "stack_ok fs" "below x fs"
  shows "\<exists>g \<in> set fs. \<exists>y < x. 1 \<le> pend_f y g \<or> owner g = Some y"
  using assms
proof (induction fs)
  case (Cons a fs)
  then obtain k cs r where a: "a = Exec k cs r" by (auto elim: is_execE)
  show ?case
  proof (cases "kind_scope k")
    case None
    then have "is_exec fs" using Cons.prems(2) a by (cases k) auto
    with Cons show ?thesis by auto
  next
    case (Some y)
    then have "y < x" using Cons.prems(3) a by simp
    moreover have "1 \<le> pend_k y k \<or> (\<exists>g \<in> set fs. owner g = Some y)"
      using Cons.prems(2) a Some by (intro kind_on_scope) auto
    ultimately show ?thesis using a by auto
  qed
qed simp

lemma owner_from:
  assumes "stack_ok (f # fs)" "owner f = Some x"
  shows "\<exists>g \<in> set fs. \<exists>y < x. 1 \<le> pend_f y g \<or> owner g = Some y"
  by (rule exec_from) (use assms in \<open>cases f rule: owner.cases; auto\<close>)+

lemma pend_frame:
  assumes "scopes_ok P s" "i < P" "f \<in> set (fj_stack s i)" "1 \<le> pend_f sc f"
  shows "1 \<le> pend_tot P sc s"
  by (rule order_trans [OF assms(4)]) (intro fj_tot_frame [OF _ _ assms(2,3)] pend_nn)

lemma own_frame:
  assumes "i < P" "f \<in> set (fj_stack s i)" "owner f = Some sc"
  shows "1 \<le> own_tot P sc s"
proof -
  have "own_f sc f \<le> own_tot P sc s" by (intro fj_tot_frame [OF _ _ assms(1,2)] pend_nn) simp
  with assms(3) show ?thesis by (simp add: own_f_def)
qed

text \<open>Once the root counter is down nothing is left of the call: no nested scope, no task, no frame.\<close>

lemma root_quiet:
  assumes inv: "fj_inv tok bs P s" and down: "fs_pending (fj_scopes s 0) \<le> 0"
  shows "\<And>x. 0 < x \<Longrightarrow> x < fj_next s \<Longrightarrow> \<not> fs_alive (fj_scopes s x)"
    "\<And>i. i < P \<Longrightarrow> fj_dq s i = []"
    "\<And>i f. i < P \<Longrightarrow> f \<in> set (fj_stack s i) \<Longrightarrow> \<exists>b. f = Drain 0 None b"
proof -
  note d = fj_invD [OF inv]
  have sc: "scope_ok P s x" for x using d(2) by (simp add: scopes_ok_def)
  have r: "pend_tot P 0 s \<le> 0" "own_tot P 0 s = 0"
    using sc [of 0] down d(2) by (simp_all add: scope_ok_def scopes_ok_def)
  have owned: "\<exists>i < P. \<exists>f \<in> set (fj_stack s i). owner f = Some x" if x: "0 < x" "x < fj_next s" "fs_alive (fj_scopes s x)" for x
  proof (rule ccontr)
    assume "\<not> ?thesis"
    then have "own_f x f = 0" if "i < P" "f \<in> set (fj_stack s i)" for i f using that by (auto simp: own_f_def)
    then have "sum_list (map (own_f x) (fj_stack s i)) = 0" if "i < P" for i
      using that by (intro sum_list_zero) auto
    then have "own_tot P x s = 0" by (simp add: fj_tot_def sum_list_0)
    with sc [of x] x show False by (simp add: scope_ok_def)
  qed
  have none: "\<not> fs_alive (fj_scopes s x)" if "0 < x" "x < fj_next s" for x
    using that
  proof (induction x rule: less_induct)
    case (less x)
    show ?case
    proof
      assume "fs_alive (fj_scopes s x)"
      with owned less.prems obtain i f where f: "i < P" "f \<in> set (fj_stack s i)" "owner f = Some x" by blast
      obtain ts fs where s: "fj_stack s i = ts @ f # fs" using split_list [OF f(2)] by blast
      have "stack_ok (f # fs)" using stack_at [OF d(1) f(1) s] .
      from owner_from [OF this f(3)] obtain g y
        where g: "g \<in> set (fj_stack s i)" "y < x" "1 \<le> pend_f y g \<or> owner g = Some y" using s by auto
      then have "1 \<le> pend_tot P y s \<or> 1 \<le> own_tot P y s"
        using pend_frame [OF d(2) f(1) g(1)] own_frame [OF f(1) g(1)] by blast
      moreover from this have "y \<noteq> 0" using r by (cases "y = 0") auto
      ultimately have "0 < y" "y < fj_next s" "fs_alive (fj_scopes s y)"
        using sc [of y] by (auto simp: scope_ok_def split: if_splits)
      with less.IH [OF g(2)] show False by simp
    qed
  qed
  show "\<And>x. 0 < x \<Longrightarrow> x < fj_next s \<Longrightarrow> \<not> fs_alive (fj_scopes s x)" by (rule none)
  show "fj_dq s i = []" if i: "i < P" for i
  proof (rule ccontr)
    assume "fj_dq s i \<noteq> []"
    then have h: "hd (fj_dq s i) \<in> set (fj_dq s i)" by simp
    from task_alive [OF d(2) i h] none have "ft_scope (hd (fj_dq s i)) = 0" by (metis gr0I)
    then have "1 \<le> pend_q 0 (hd (fj_dq s i))" by simp
    moreover have "pend_q 0 (hd (fj_dq s i)) \<le> pend_tot P 0 s" by (intro fj_tot_task [OF _ _ i h] pend_nn)
    ultimately show False using r(1) by linarith
  qed
  show "\<exists>b. f = Drain 0 None b" if f: "i < P" "f \<in> set (fj_stack s i)" for i f
  proof -
    obtain ts fs where s: "fj_stack s i = ts @ f # fs" using split_list [OF f(2)] by blast
    have st: "stack_ok (f # fs)" using stack_at [OF d(1) f(1) s] .
    have no: "\<not> 1 \<le> pend_f x g" "owner g \<noteq> Some x" if "g \<in> set (fj_stack s i)" for g x
    proof -
      have "x = 0 \<or> pend_tot P x s = 0 \<and> own_tot P x s = 0" using none [of x] sc [of x] by (auto simp: scope_ok_def)
      with r have "pend_tot P x s \<le> 0" "own_tot P x s = 0" by auto
      with pend_frame [OF d(2) f(1) that, of x] own_frame [OF f(1) that, of x]
      show "\<not> 1 \<le> pend_f x g" "owner g \<noteq> Some x" by linarith+
    qed
    have in_fs: "g \<in> set (fj_stack s i)" if "g \<in> set (f # fs)" for g using that s by auto
    have low: "below (fj_next s) (f # fs)"
    proof -
      have "below (fj_next s) (fj_stack s i)" using d(1) f(1) by (simp add: stacks_ok_def)
      then have "\<forall>g \<in> set (ts @ f # fs). \<forall>x. frame_scope g = Some x \<longrightarrow> x < fj_next s" unfolding s below_def .
      moreover have "set (f # fs) \<subseteq> set (ts @ f # fs)" by auto
      ultimately show ?thesis unfolding below_def by blast
    qed
    show ?thesis
    proof (cases f)
      case (Gate k j b)
      with st obtain x where "kind_scope k = Some x" "kind_on k fs" by (cases k) auto
      from kind_on_scope [OF this(2,1)] no in_fs Gate show ?thesis by (metis list.set_intros pend_f.simps(1))
    next
      case (Exec k cs r)
      then have "is_exec (f # fs)" by simp
      from exec_from [OF this st low] no in_fs show ?thesis by blast
    next
      case (Drain x own b)
      with no(2) [OF f(2)] have "own = None" by (cases own) auto
      with st Drain show ?thesis by auto
    qed (use no(2) [OF f(2)] in auto)
  qed
qed

text \<open>The measure of the start.\<close>

lemma fj_fuel_init:
  assumes "0 < P"
  shows "fj_fuel P (fj_init tok bs toks) \<le> sum_list (map (\<lambda>b. body_w b + 1) bs) + 4 * P + length toks"
proof -
  let ?s = "fj_init tok bs toks"
  have "fj_tot P fuel_q fuel_f ?s = (\<Sum>i<P. (if i = 0 then sum_list (map fuel_q (tasks_of 0 bs)) else 0) + 4)"
    unfolding fj_tot_def by (rule sum.cong) (auto simp: fj_init_def)
  also have "\<dots> = sum_list (map fuel_q (tasks_of 0 bs)) + 4 * int P"
    using assms by (simp add: sum.distrib sum.delta)
  also have "sum_list (map fuel_q (tasks_of 0 bs)) = sum_list (map (\<lambda>b. int (body_w b) + 1) bs)"
    using tasks_of_sum [of "\<lambda>b. int (body_w b) + 1" 0 bs] unfolding fuel_q_body .
  also have "\<dots> = int (sum_list (map (\<lambda>b. body_w b + 1) bs))"
    by (simp add: o_def add.commute flip: sum_list_of_nat)
  finally have "nat (fj_tot P fuel_q fuel_f ?s) = sum_list (map (\<lambda>b. body_w b + 1) bs) + 4 * P" by linarith
  then show ?thesis by (simp add: fj_fuel_def fj_init_def)
qed

text \<open>The log: each task whose turn came once, and every task of a scope that was left.\<close>

definition logged :: "fj \<Rightarrow> nat \<Rightarrow> nat \<Rightarrow> bool" where
  "logged s sc j = (\<exists>r. (sc, j, r) \<in> set (fj_log s))"

lemma log_count_pos: "(sc, j, r) \<in> set l \<Longrightarrow> 1 \<le> log_count sc j l"
  by (induction l) (auto intro: order_trans [OF _ add_left_mono [OF wait_nn(3)]] add_increasing)

lemma log_count_logged: "log_count sc j l \<noteq> 0 \<Longrightarrow> \<exists>r. (sc, j, r) \<in> set l"
  by (induction l) (auto simp: of_bool_def split: if_splits)

lemma log_once:
  assumes "\<And>sc j. log_count sc j l \<le> 1"
  shows "distinct (map (\<lambda>(sc, j, _). (sc, j)) l)"
  using assms
proof (induction l)
  case (Cons a l)
  obtain sc j r where a: "a = (sc, j, r)" by (cases a)
  have "log_count x y l \<le> 1" for x y using Cons.prems [of x y] a by (simp add: of_bool_def split: if_splits)
  moreover have "(sc, j) \<notin> (\<lambda>(sc, j, _). (sc, j)) ` set l"
    using Cons.prems [of sc j] a log_count_pos [of sc j _ l] by fastforce
  ultimately show ?case using Cons.IH a by simp
qed simp

lemma nothing_waits:
  assumes st: "stacks_ok P s" and z: "pend_tot P sc s \<le> 0" "own_tot P sc s \<le> 0"
  shows "wait_tot P sc j s = 0"
proof -
  have q: "wait_q sc j tk = 0" if "i < P" "tk \<in> set (fj_dq s i)" for i tk
  proof -
    have "pend_q sc tk \<le> pend_tot P sc s" by (intro fj_tot_task [OF _ _ that] pend_nn)
    with z(1) show ?thesis by (auto split: if_splits)
  qed
  have f: "wait_f sc j f = 0" if f: "i < P" "f \<in> set (fj_stack s i)" for i f
  proof -
    have no: "pend_f sc g \<le> 0" "owner g \<noteq> Some sc" if "g \<in> set (fj_stack s i)" for g
    proof -
      show "owner g \<noteq> Some sc" using own_frame [OF f(1) that] z(2) by force
      have "pend_f sc g \<le> pend_tot P sc s" by (intro fj_tot_frame [OF _ _ f(1) that] pend_nn)
      with z(1) show "pend_f sc g \<le> 0" by linarith
    qed
    show ?thesis
    proof (cases f)
      case (Gate k x b)
      obtain ts fs where s: "fj_stack s i = ts @ f # fs" using split_list [OF f(2)] by blast
      have "stack_ok (f # fs)" using stack_at [OF st f(1) s] .
      then have "kind_on k fs" using Gate by simp
      from kind_on_scope [OF this] no(1) [OF f(2)] no(2) s Gate show ?thesis by fastforce
    next
      case (Spawn x todo y b)
      have "sum_list (map (wait_q sc j) todo) = 0"
      proof -
        have "wait_q sc j tk = 0" if "tk \<in> set todo" for tk
          using sum_list_mem [of "pend_q sc" tk todo, OF pend_nn(1) that] no(1) [OF f(2)] Spawn by (auto split: if_splits)
        then show ?thesis by (rule sum_list_zero)
      qed
      then show ?thesis using no(2) [OF f(2)] Spawn by simp
    qed simp_all
  qed
  have "sum_list (map (wait_q sc j) (fj_dq s i)) + sum_list (map (wait_f sc j) (fj_stack s i)) = 0" if "i < P" for i
    using sum_list_zero [of _ "wait_q sc j", OF q [OF that]] sum_list_zero [of _ "wait_f sc j", OF f [OF that]] by simp
  then show ?thesis by (simp add: fj_tot_def)
qed

lemma fj_inv_log:
  assumes inv: "fj_inv tok bs P s"
  shows "distinct (map (\<lambda>(sc, j, _). (sc, j)) (fj_log s))"
    "(sc, j, r) \<in> set (fj_log s) \<Longrightarrow> sc < fj_next s \<and> j < fs_size (fj_scopes s sc)"
    "sc < fj_next s \<Longrightarrow> \<not> fs_alive (fj_scopes s sc) \<or> sc = 0 \<and> fs_pending (fj_scopes s 0) \<le> 0 \<Longrightarrow>
      j < fs_size (fj_scopes s sc) \<Longrightarrow> logged s sc j"
proof -
  note d = fj_invD [OF inv]
  have l: "wait_tot P sc j s + log_count sc j (fj_log s) = of_bool (sc < fj_next s \<and> j < fs_size (fj_scopes s sc))"
    for sc j using d(3) by (simp add: logged_ok_def)
  have w: "0 \<le> wait_tot P sc j s" for sc j by (intro fj_tot_nn wait_nn)
  show "distinct (map (\<lambda>(sc, j, _). (sc, j)) (fj_log s))"
  proof (rule log_once)
    show "log_count sc j (fj_log s) \<le> 1" for sc j using l [of sc j] w [of sc j] by (simp add: of_bool_def split: if_splits)
  qed
  show "sc < fj_next s \<and> j < fs_size (fj_scopes s sc)" if "(sc, j, r) \<in> set (fj_log s)" for sc j r
    using log_count_pos [OF that] l [of sc j] w [of sc j] by (simp add: of_bool_def split: if_splits)
  show "logged s sc j" if sc: "sc < fj_next s" "\<not> fs_alive (fj_scopes s sc) \<or> sc = 0 \<and> fs_pending (fj_scopes s 0) \<le> 0"
    "j < fs_size (fj_scopes s sc)" for sc j
  proof -
    have "wait_tot P sc j s = 0"
      by (rule nothing_waits [OF d(1)]) (use sc d(2) in \<open>auto simp: scopes_ok_def scope_ok_def split: if_splits\<close>)
    with l [of sc j] sc(1,3) show ?thesis using log_count_logged [of sc j "fj_log s"] by (simp add: logged_def)
  qed
qed

text \<open>
  C39. Fork-join, in every interleaving of slots, nested calls, throws and stop requests: no queued task and no frame refers to a scope that
  was left; no task gets a second turn; a task is passed over only in a scope that an exception or
  its token stopped; and when a scope has been left, each of its tasks had its turn. When the root counter is down, nothing of the call is left in any deque or stack but the root drains, and
  the exception to rethrow is one that a body raised; without one and without a stop every root task
  was run.
\<close>

theorem forkjoin_safe:
  assumes "0 < P" and "run (fj_step P) (fj_init tok bs toks) acts = Some t"
  shows "(\<forall>i < P. (\<forall>tk \<in> set (fj_dq t i). fs_alive (fj_scopes t (ft_scope tk))) \<and>
      (\<forall>f \<in> set (fj_stack t i). \<forall>sc. frame_scope f = Some sc \<longrightarrow> fs_alive (fj_scopes t sc))) \<and>
    distinct (map (\<lambda>(sc, j, _). (sc, j)) (fj_log t)) \<and>
    (\<forall>sc j. (sc, j, False) \<in> set (fj_log t) \<longrightarrow>
      fs_first (fj_scopes t sc) \<noteq> None \<or> tok_stopped (fj_toks t) (fs_token (fj_scopes t sc))) \<and>
    (\<forall>sc < fj_next t. \<not> fs_alive (fj_scopes t sc) \<longrightarrow> (\<forall>j < fs_size (fj_scopes t sc). logged t sc j)) \<and>
    (fs_pending (fj_scopes t 0) \<le> 0 \<longrightarrow>
      (\<forall>i < P. fj_dq t i = [] \<and> (\<forall>f \<in> set (fj_stack t i). \<exists>b. f = Drain 0 None b)) \<and>
      (\<forall>e. fj_result t = Some e \<longrightarrow> e \<in> set (concat (map exns_body bs))) \<and>
      (fj_result t = None \<and> \<not> tok_stopped (fj_toks t) tok \<longrightarrow> (\<forall>j < length bs. (0, j, True) \<in> set (fj_log t))))"
proof -
  have "fj_start P tok bs (fj_init tok bs toks)" using assms(1) by (auto simp: fj_start_def)
  from forkjoin.run_inv [OF this assms(2)] have inv: "fj_inv tok bs P t" by simp
  note d = fj_invD [OF inv] and l = fj_inv_log [OF inv]
  have skipped: "fs_first (fj_scopes t sc) \<noteq> None \<or> tok_stopped (fj_toks t) (fs_token (fj_scopes t sc))"
    if "(sc, j, False) \<in> set (fj_log t)" for sc j
    using flags_okD(1,2) [OF d(4)] that unfolding fj_stopped_def by blast
  have root: "fs_size (fj_scopes t 0) = length bs" "fs_token (fj_scopes t 0) = tok" "0 < fj_next t"
    using d(6,2) by (simp_all add: root_ok_def scopes_ok_def)
  show ?thesis
  proof (intro conjI)
    show "fs_pending (fj_scopes t 0) \<le> 0 \<longrightarrow>
      (\<forall>i < P. fj_dq t i = [] \<and> (\<forall>f \<in> set (fj_stack t i). \<exists>b. f = Drain 0 None b)) \<and>
      (\<forall>e. fj_result t = Some e \<longrightarrow> e \<in> set (concat (map exns_body bs))) \<and>
      (fj_result t = None \<and> \<not> tok_stopped (fj_toks t) tok \<longrightarrow> (\<forall>j < length bs. (0, j, True) \<in> set (fj_log t)))"
    proof (intro impI conjI allI)
      assume down: "fs_pending (fj_scopes t 0) \<le> 0"
      show "fj_dq t i = []" "\<forall>f \<in> set (fj_stack t i). \<exists>b. f = Drain 0 None b" if "i < P" for i
        using root_quiet(2,3) [OF inv down] that by blast+
      show "e \<in> set (concat (map exns_body bs))" if "fj_result t = Some e" for e
        using d(5) root(3) that unfolding exns_ok_def fj_result_def by blast
      fix j
      assume ok: "fj_result t = None \<and> \<not> tok_stopped (fj_toks t) tok" and j: "j < length bs"
      show "(0, j, True) \<in> set (fj_log t)"
      proof -
        obtain r where "(0, j, r) \<in> set (fj_log t)" using l(3) [of 0 j] root down j by (auto simp: logged_def)
        moreover from this have "r" using skipped [of 0 j] ok root(2) by (cases r) (auto simp: fj_result_def)
        ultimately show ?thesis by simp
      qed
    qed
  qed (use task_alive(2) [OF d(2)] frame_alive(2) [OF d(2,1)] l(1,3) skipped in blast)+
qed

text \<open>Two slots, a nested call whose deferred child is stolen, and a root task that throws.\<close>

definition fj_demo :: "fj_body list" where
  "fj_demo = [Body [Call None [Body [] None, Body [] None]] None, Body [] (Some 7)]"

definition fj_demo_run :: "fj_act list" where
  "fj_demo_run = concat (replicate 12 [Step 0 1, Step 1 0])"

lemma fj_demo_result:
  "case run (fj_step 2) (fj_init (Some 0) fj_demo [False]) fj_demo_run of None \<Rightarrow> False
   | Some t \<Rightarrow> fs_pending (fj_scopes t 0) = 0 \<and> fj_result t = Some 7 \<and> fj_next t = 2 \<and>
       \<not> fs_alive (fj_scopes t 1) \<and> fs_size (fj_scopes t 1) = 2"
  by code_simp

theorem forkjoin_safe_witness:
  "\<exists>t. run (fj_step 2) (fj_init (Some 0) fj_demo [False]) fj_demo_run = Some t \<and>
     fj_result t = Some 7 \<and> logged t 1 0 \<and> logged t 1 1 \<and> fj_dq t 0 = [] \<and> fj_dq t 1 = []"
proof -
  obtain t where t: "run (fj_step 2) (fj_init (Some 0) fj_demo [False]) fj_demo_run = Some t"
    "fs_pending (fj_scopes t 0) = 0" "fj_result t = Some 7" "fj_next t = 2"
    "\<not> fs_alive (fj_scopes t 1)" "fs_size (fj_scopes t 1) = 2"
    using fj_demo_result by (auto split: option.splits)
  from forkjoin_safe [OF _ t(1)] t(2-6) show ?thesis using t(1) by auto
qed

text \<open>
  C40. Fork-join always returns: every schedule is bounded by the number of bodies and calls (\<open>body_w\<close>), four steps
  per slot and one per token, and every partial run, whatever was stolen, thrown or stopped in it,
  extends to one in which all slots have left the root drain and its counter is down.
\<close>

theorem forkjoin_terminates:
  assumes "0 < P" and "run (fj_step P) (fj_init tok bs toks) acts = Some t"
  shows "length acts \<le> sum_list (map (\<lambda>b. body_w b + 1) bs) + 4 * P + length toks \<and>
    (\<exists>acts' u. run (fj_step P) (fj_init tok bs toks) (acts @ acts') = Some u \<and> fj_joined P u \<and>
      fs_pending (fj_scopes u 0) \<le> 0)"
proof -
  have s: "fj_start P tok bs (fj_init tok bs toks)" using assms(1) by (auto simp: fj_start_def)
  from forkjoin.run_completes [OF s assms(2)] obtain acts' u
    where u: "run (fj_step P) (fj_init tok bs toks) (acts @ acts') = Some u" "fj_joined P u" by blast
  from forkjoin.run_inv [OF s u(1)] have "root_ok tok (length bs) P u" using fj_invD(6) by blast
  then have "fs_pending (fj_scopes u 0) \<le> 0" using u(2) assms(1) unfolding root_ok_def fj_joined_def by blast
  then show ?thesis
    using u forkjoin.run_bounded [OF s assms(2)] fj_fuel_init [OF assms(1), of tok bs toks] by (blast intro: order_trans)
qed

theorem forkjoin_terminates_witness:
  "\<exists>acts u. run (fj_step 2) (fj_init (Some 0) fj_demo [False])
       ([Step 0 1, Step 1 1, Step 0 0, Step 1 0, Stop 0, Step 0 0] @ acts) = Some u \<and>
     fj_joined 2 u \<and> fs_pending (fj_scopes u 0) \<le> 0"
proof -
  have "case run (fj_step 2) (fj_init (Some 0) fj_demo [False])
    [Step 0 1, Step 1 1, Step 0 0, Step 1 0, Stop 0, Step 0 0] of None \<Rightarrow> False | Some t \<Rightarrow> True"
    by code_simp
  then obtain t where "run (fj_step 2) (fj_init (Some 0) fj_demo [False])
    [Step 0 1, Step 1 1, Step 0 0, Step 1 0, Stop 0, Step 0 0] = Some t" by (auto split: option.splits)
  from forkjoin_terminates [OF _ this] show ?thesis by simp
qed

end
