(* ===== verification/Spec2Isabelle.thy ===== *)
theory Spec2Isabelle
  imports Reduce Deque Rendezvous ParallelFor Cluster LookbackScan Plex Chain ForkJoinRun
begin

text \<open>
  Verification development for citor, a header-only C++ thread pool (\<open>src/include/citor\<close>).

  \<^bold>\<open>The program.\<close> A pool has \<open>participants\<close> slots: slot 0 is the calling thread (the producer), the
  others are pinned background workers. A primitive (\<open>parallelFor\<close>, \<open>parallelReduce\<close>, \<open>parallelScan\<close>,
  \<open>forkJoin\<close>, chains, plexes) fills a job descriptor and dispatches it: the producer publishes a
  generation in every worker's mailbox word, all slots claim blocks of the index range and run the
  body on them, the producer runs slots that did not start in time itself, and joins. At
  construction the pool probes the topology, places its slots and measures the coherence latency
  between their cpus.

  \<^bold>\<open>Theories.\<close>
  \<^item> \<open>Prelude\<close>: widths (\<open>w32\<close>, \<open>w64\<close>), runs of a step function, the locales \<open>step_invariant\<close> and
    \<open>terminating_system\<close>, list lemmas.
  \<^item> \<open>Arith\<close>: \<open>ceilDiv\<close>, \<open>mulDiv64\<close>, \<open>roundUpPow2\<close>, \<open>xorshiftNext\<close>, \<open>fastRange32\<close>; floating point as
    a record of operations.
  \<^item> \<open>Job\<close>: \<open>hints.h\<close>, \<open>cancellation.h\<close>, \<open>inline_fallback.h\<close>, \<open>job_descriptor.h\<close>, the block shape.
  \<^item> \<open>Partition\<close>, \<open>Engine\<close>: the block-claim policies and the block loop of \<open>dispatch_static.h\<close> under
    every interleaving: each index exactly once, at most once under cancellation and throws, bounded
    runs, the exception that is reported.
  \<^item> \<open>Reduce\<close>: \<open>reduce_tree.h\<close>, \<open>kahan.h\<close> and the reducers of \<open>thread_pool.h\<close>: shape and
    schedule-independence of the tree, agreement with the fold, the cancelled prefix. The partials
    are those of the calls a dispatch made with the parameters its slots have, so the reuse of
    \<open>dispatchReduceJobTyped\<close> is part of it.
  \<^item> \<open>Deque\<close>: \<open>chase_lev_deque.h\<close> under sequential consistency: refinement of an abstract deque,
    conservation of the pushed values, every operation answers.
  \<^item> \<open>Mailbox\<close>, \<open>Rendezvous\<close>: the mailbox word (\<open>pool_control.h\<close>), the worker loop
    (\<open>worker_loop.h\<close>), publish, cold collapse and join (\<open>dispatchOneStaticLockedBody\<close>): exactly once
    per generation and no deadlock, where no claimable dispatch is a reuse; and a failing schedule
    where one is.
  \<^item> \<open>ParallelFor\<close>: the entry of \<open>parallelFor\<close>: the thread context, inline and nested fallbacks, the
    write-elided descriptor key and the reuse protocol between pools and workers' caches; the reducers'
    key, sound while each thread reduces on one pool per participant count, and stale otherwise.
  \<^item> \<open>ProbeBlob\<close>, \<open>RoundRobin\<close>, \<open>Cluster\<close>: \<open>coherence_probe.h\<close> and \<open>coherence_cache.h\<close>: the binary blob
    with its bounds-checked reader, the cache, export and import; the disjoint-pair schedule; the
    measured matrix, Otsu's threshold, the clustering by union-find (connected components of the fast
    pairs) with its sysfs fallback, and \<open>runCoherenceProbe\<close>, which always returns.
  \<^item> \<open>Sysfs\<close>, \<open>Topology\<close>: \<open>topology.h\<close> for Linux and the tables of \<open>initWorkers\<close>.
  \<^item> \<open>Scan\<close>, \<open>ScanFlat\<close>, \<open>ScanChunks\<close>: \<open>parallelScan\<close> (\<open>runScanParallel\<close>, \<open>scan_state.h\<close>): entry and inline
    form, the two-pass protocol with its sequential reduce, its seeds and total in every interleaving,
    the chunks of the slots; the hosts on which the chunks are out of slot order, and the schedule
    on which the per-cluster path cannot end.
  \<^item> \<open>Lookback\<close>, \<open>LookbackScan\<close>: \<open>parallelInclusiveScan\<close> by decoupled lookback
    (\<open>lookback_scan.h\<close>): tile claims, publication, the walk; it equals the serial scan and ends.
  \<^item> \<open>Plex\<close>: \<open>runPlex\<close> (\<open>plex_state.h\<close>): hooks and slots in lockstep, epochs, termination.
  \<^item> \<open>Chain\<close>: \<open>parallelChain\<close> (\<open>chain_state.h\<close>) with static stages: order of a slot's stages, global and
    serial barriers, termination.
  \<^item> \<open>ForkJoin\<close>, \<open>ForkJoinInv\<close>, \<open>ForkJoinRun\<close>: \<open>forkJoin\<close> (\<open>forkjoin_state.h\<close>): the choice of a steal victim, root and
    nested scopes as a stack of frames per slot; no scope is used after it was left, every task has
    one turn, and the join cannot deadlock.

  \<^bold>\<open>How they fit.\<close> \<open>Partition\<close> and \<open>Engine\<close> are the body of a dispatch; \<open>Mailbox\<close> and \<open>Rendezvous\<close> start
  and end it; \<open>ParallelFor\<close> and \<open>Reduce\<close> are its clients, \<open>Reduce\<close> by the reuse state of \<open>ParallelFor\<close>. The scans, the plex, the chain and
  fork-join dispatch one block per slot and run a protocol of their own inside, modelled from the
  moment the slots start. Fork-join uses the deque by its abstract operations, which \<open>Deque\<close> shows
  the concrete one to implement. The scans take their clusters from the tables built on the probe.

  \<^bold>\<open>Concurrency.\<close> A protocol is a step function \<open>state \<Rightarrow> action \<Rightarrow> state option\<close>; an action names the
  thread that moves and the outcome of a user callback; a schedule is a list of actions. Memory is
  sequentially consistent. A spin or futex wait is a step that is enabled once its condition holds.
  Termination is proved by a measure that every step decreases, together with the fact that a state
  that is not final has an enabled step, so no fuel is needed; loops that may not end are
  \<open>partial_function (option)\<close>.

  Bounds: indices, counts and epochs are kept at their width (\<open>w32\<close>, \<open>w64\<close> or words) where the code
  can wrap; the theorems state the bound they need, such as \<open>n < 2 ^ 64\<close>. Unbounded are the deque's
  indices and capacity, the epochs inside a dispatch (the guards that reset them are modelled) and
  the tile index, which \<open>lookbackWalk\<close> truncates to 32 bits: at 64 KiB a tile that needs \<open>2 ^ 48\<close> bytes. The step bounds of the
  termination theorems are the values of the measures at the start.

  \<^bold>\<open>Not modelled.\<close> Memory orders weaker than sequential consistency, futex and affinity system
  calls, spin budgets, wall-clock time and the TSC calibration, thread creation, allocation failure,
  the Windows variants of the platform code; a fork-join body that catches a nested call's exception; the dispatch gate, which serialises producers by a mutex and a
  priority; detached tasks and shutdown; the dynamic stages of a chain; coroutines (\<open>coro.h\<close>), pool groups, the forwarding of
  customization points (\<open>cpos\<close>), \<open>function_ref.h\<close>; the amalgamated copy \<open>single_include/citor.hpp\<close>,
  benchmarks, tests and tools. These are platform calls, generated code or forwarding, or, for the gate
  and the detached queue, lists behind a mutex of the operating system.
\<close>

end
